(* ===== verification/Prelude.thy ===== *)
theory Prelude
  imports "HOL-Library.Word"
begin

text \<open>
  Shared vocabulary of the development: machine integers, the byte-addressed physical
  memory with its 64-bit loads and stores, page arithmetic, null-terminated chains, and
  the result type of operations that may stop the kernel in \<^verbatim>\<open>panic(PANIC_ERROR, ...)\<close>.
\<close>

unbundle bit_operations_syntax

section \<open>Machine integers, memory and results\<close>

type_synonym u8 = "8 word"
type_synonym u16 = "16 word"
type_synonym u32 = "32 word"
type_synonym i32 = "32 word"
type_synonym u64 = "64 word"

text \<open>Physical memory is byte addressed; a pointer is a 64-bit word and \<open>0\<close> is \<^verbatim>\<open>NULL\<close>.\<close>

type_synonym memory = "u64 \<Rightarrow> u8"

text \<open>
  \<^verbatim>\<open>panic(PANIC_ERROR, ...)\<close> and \<^verbatim>\<open>panic_error\<close> never return (kernel/panic.c loops for
  ever): an operation that reaches one has the value \<open>Inl (Panic msg)\<close>. An operation that
  dereferences a null pointer has the value \<open>Inl Fault\<close>.
\<close>

datatype kerror = Panic string | Fault

type_synonym 'a kres = "kerror + 'a"

named_theorems addr_simps \<open>rewrite rules for addresses, offsets and pages\<close>
named_theorems mem_simps \<open>loads from stores and fills\<close>

definition bytes :: "memory \<Rightarrow> u64 \<Rightarrow> nat \<Rightarrow> u8 list" where
  "bytes m a n = map (\<lambda>i. m (a + of_nat i)) [0..<n]"

definition load64 :: "memory \<Rightarrow> u64 \<Rightarrow> u64" where
  "load64 m a = word_rcat (rev (bytes m a 8))"

definition store64 :: "memory \<Rightarrow> u64 \<Rightarrow> u64 \<Rightarrow> memory" where
  "store64 m a v =
     (\<lambda>x. if unat (x - a) < 8 then ucast (drop_bit (8 * unat (x - a)) v) else m x)"

text \<open>The reference meaning of filling and copying a block of \<open>n\<close> bytes.\<close>

definition mem_fill :: "memory \<Rightarrow> u64 \<Rightarrow> u8 \<Rightarrow> nat \<Rightarrow> memory" where
  "mem_fill m a v n = (\<lambda>x. if unat (x - a) < n then v else m x)"

definition mem_copy :: "memory \<Rightarrow> u64 \<Rightarrow> u64 \<Rightarrow> nat \<Rightarrow> memory" where
  "mem_copy m d s n = (\<lambda>x. if unat (x - d) < n then m (s + (x - d)) else m x)"

text \<open>A memory that holds the bytes \<open>xs\<close> from address \<open>a\<close> on and zeros elsewhere.\<close>

definition mem_of_list :: "u64 \<Rightarrow> u8 list \<Rightarrow> memory" where
  "mem_of_list a xs = (\<lambda>x. if unat (x - a) < length xs then xs ! unat (x - a) else 0)"

section \<open>Loads and stores\<close>

lemma length_bytes [simp]: "length (bytes m a n) = n"
  by (simp add: bytes_def)

lemma nth_bytes [simp]: "i < n \<Longrightarrow> bytes m a n ! i = m (a + of_nat i)"
  by (simp add: bytes_def)

lemma bytes_cong: "(\<And>i. i < n \<Longrightarrow> m (a + of_nat i) = m' (a + of_nat i)) \<Longrightarrow> bytes m a n = bytes m' a n"
  by (simp add: bytes_def)

lemma bit_load64:
  assumes "n < 64"
  shows "bit (load64 m a) n = bit (m (a + of_nat (n div 8))) (n mod 8)"
proof -
  have "n div 8 < 8" using assms by auto
  then show ?thesis
    using assms bit_horner_sum_uint_exp_iff [of "bytes m a 8" n]
    by (simp add: load64_def word_rcat_def bit_word_of_int_iff)
qed

lemma load64_cong: "(\<And>i. i < 8 \<Longrightarrow> m (a + of_nat i) = m' (a + of_nat i)) \<Longrightarrow> load64 m a = load64 m' a"
  unfolding load64_def by (metis bytes_cong)

lemma load64_store64_same [simp]: "load64 (store64 m a v) a = v"
proof (rule bit_word_eqI)
  fix n assume "n < LENGTH(64)"
  then have n: "n < 64" by simp
  then have d: "n div 8 < 8" by auto
  then have u: "unat (of_nat (n div 8) :: u64) = n div 8" by (simp add: unat_of_nat)
  show "bit (load64 (store64 m a v) a) n = bit v n"
    using n d by (simp add: bit_load64 store64_def u bit_ucast_iff bit_drop_bit_eq)
qed

lemma store64_load64 [simp]: "store64 m a (load64 m a) = m"
proof
  fix x
  show "store64 m a (load64 m a) x = m x"
  proof (cases "unat (x - a) < 8")
    case True
    define k where "k = unat (x - a)"
    have x: "x = a + of_nat k" by (simp add: k_def)
    have "ucast (drop_bit (8 * k) (load64 m a)) = m (a + of_nat k)"
    proof (rule bit_word_eqI)
      fix n assume "n < LENGTH(8)"
      moreover have "k < 8" using True by (simp add: k_def)
      ultimately have "8 * k + n < 64" "(8 * k + n) div 8 = k" "(8 * k + n) mod 8 = n" by auto
      then show "bit (ucast (drop_bit (8 * k) (load64 m a)) :: u8) n = bit (m (a + of_nat k)) n"
        using \<open>n < LENGTH(8)\<close> by (simp add: bit_ucast_iff bit_drop_bit_eq bit_load64)
    qed
    then show ?thesis using True by (simp add: store64_def k_def)
  qed (simp add: store64_def)
qed

definition aligned :: "nat \<Rightarrow> u64 \<Rightarrow> bool" where
  "aligned k a \<longleftrightarrow> 2 ^ k dvd unat a"

lemma aligned_and: "aligned k a \<longleftrightarrow> a AND mask k = 0"
  by (simp add: aligned_def and_mask_dvd_nat)

lemma aligned_0 [simp]: "aligned k 0"
  by (simp add: aligned_def)

lemma aligned_mono: "aligned k a \<Longrightarrow> j \<le> k \<Longrightarrow> aligned j a"
  by (meson aligned_def dvd_trans le_imp_power_dvd)

lemma unat_bound: "unat (a::u64) < 18446744073709551616"
  using unsigned_less [of a] by simp

lemma unat_minus_1 [simp]: "unat (- 1 :: u64) = 18446744073709551615"
  by (simp add: unsigned_minus_1_eq_mask mask_eq_exp_minus_1)

lemma unat_sub_ge: "unat b \<le> unat a \<Longrightarrow> unat (a - b :: u64) = unat a - unat b"
  by (simp add: unat_sub_if')

lemma unat_sub_lt: "unat a < unat b \<Longrightarrow> unat (a - b :: u64) = unat a + 18446744073709551616 - unat b"
  by (simp add: unat_sub_if')

lemma dvd_unat_add:
  assumes "k \<le> 64" "2 ^ k dvd unat a" "2 ^ k dvd unat b"
  shows "2 ^ k dvd unat (a + b :: u64)"
proof -
  have "(2::nat) ^ k dvd 2 ^ 64" using assms(1) by (rule le_imp_power_dvd)
  then show ?thesis using assms by (simp add: unat_word_ariths dvd_mod)
qed

lemma aligned_add: "k \<le> 64 \<Longrightarrow> aligned k a \<Longrightarrow> aligned k b \<Longrightarrow> aligned k (a + b)"
  unfolding aligned_def by (rule dvd_unat_add)


lemma dvd_unat_sub:
  assumes "k \<le> 64" "2 ^ k dvd unat a" "2 ^ k dvd unat b"
  shows "2 ^ k dvd unat (a - b :: u64)"
proof -
  have "(2::nat) ^ k dvd 2 ^ 64" using assms(1) by (rule le_imp_power_dvd)
  then have "(2::nat) ^ k dvd 18446744073709551616" by simp
  then show ?thesis using assms(2,3) by (auto simp: unat_sub_if' intro: dvd_diff_nat)
qed

lemma aligned_sub: "k \<le> 64 \<Longrightarrow> aligned k a \<Longrightarrow> aligned k b \<Longrightarrow> aligned k (a - b)"
  unfolding aligned_def by (rule dvd_unat_sub)

lemma aligned_le:
  assumes "aligned k d" "d \<noteq> 0"
  shows "2 ^ k \<le> unat d"
  using assms unat_gt_0 [of d] by (auto simp: aligned_def dest: dvd_imp_le)

lemma aligned_top:
  assumes "aligned k d" "k \<le> 64"
  shows "unat d + 2 ^ k \<le> 2 ^ 64"
proof -
  have "(2::nat) ^ k dvd 2 ^ 64" using assms(2) by (rule le_imp_power_dvd)
  then have "(2::nat) ^ k dvd 2 ^ 64 - unat d"
    using assms(1) unfolding aligned_def by (rule dvd_diff_nat)
  moreover have "0 < 2 ^ 64 - unat d" using unsigned_less [of d] by simp
  ultimately have "2 ^ k \<le> 2 ^ 64 - unat d" by (rule dvd_imp_le)
  then show ?thesis using unat_bound [of d] by simp
qed

lemma unat_aligned_plus:
  assumes "aligned k a" "unat i < 2 ^ k" "k \<le> 64"
  shows "unat (a + i) = unat a + unat i"
  using aligned_top [OF assms(1,3)] assms(2) by (simp add: unat_word_ariths)

lemma aligned_block_ge:
  assumes "aligned k a" "aligned k b" "a \<noteq> b" "unat i < 2 ^ k" "k \<le> 64"
  shows "2 ^ k \<le> unat (b + i - a)"
proof -
  have al: "aligned k (b - a)" using assms aligned_sub by blast
  have "2 ^ k \<le> unat (b - a)" using al by (rule aligned_le) (use assms(3) in simp)
  moreover have "unat (b - a + i) = unat (b - a) + unat i"
    using al assms(4,5) by (rule unat_aligned_plus)
  ultimately show ?thesis by (simp add: algebra_simps)
qed

lemma unat_of_nat_small: "i < 18446744073709551616 \<Longrightarrow> unat (of_nat i :: u64) = i"
  by (simp add: unat_of_nat)

lemma load64_store64_other [mem_simps]:
  assumes "aligned 3 a" "aligned 3 b" "a \<noteq> b"
  shows "load64 (store64 m a v) b = load64 m b"
proof (rule load64_cong)
  fix i :: nat assume "i < 8"
  then have "8 \<le> unat (b + of_nat i - a)"
    using aligned_block_ge [of 3 a b "of_nat i"] assms by (simp add: unat_of_nat_small)
  then show "store64 m a v (b + of_nat i) = m (b + of_nat i)" by (simp add: store64_def)
qed

lemma load64_store64 [mem_simps]:
  "aligned 3 a \<Longrightarrow> aligned 3 b \<Longrightarrow> load64 (store64 m a v) b = (if a = b then v else load64 m b)"
  by (simp add: load64_store64_other)

section \<open>Pages\<close>

definition PG_4K_SIZE :: u64 where "PG_4K_SIZE = push_bit 12 1"

definition PGROUNDDOWN :: "u64 \<Rightarrow> u64" where "PGROUNDDOWN a = a AND NOT 0xFFF"

definition PGROUNDUP :: "u64 \<Rightarrow> u64" where
  "PGROUNDUP sz = (sz + PG_4K_SIZE - 1) AND NOT (PG_4K_SIZE - 1)"

abbreviation page_aligned :: "u64 \<Rightarrow> bool" where "page_aligned \<equiv> aligned 12"

lemma PG_4K_SIZE_eq [simp]: "PG_4K_SIZE = 4096"
  by (simp add: PG_4K_SIZE_def push_bit_eq_mult)

lemma unat_and_mask: "unat (a AND mask k) = unat (a::u64) mod 2 ^ k"
  by (simp only: take_bit_eq_mask [symmetric] unsigned_take_bit_eq) (simp add: take_bit_eq_mod)

lemma mask12: "(mask 12 :: u64) = 0xFFF"
  by (simp add: mask_eq_exp_minus_1)

lemma mask3: "(mask 3 :: u64) = 7"
  by (simp add: mask_eq_exp_minus_1)

lemma and_not_plus_and: "(a AND NOT b) + (a AND b) = (a::u64)"
proof -
  have "(a AND NOT b) AND (a AND b) = 0" by (rule bit_word_eqI) (auto simp: bit_simps)
  then have "(a AND NOT b) + (a AND b) = (a AND NOT b) OR (a AND b)" by (rule disjunctive_add_eq_or)
  also have "\<dots> = a" by (rule bit_word_eqI) (auto simp: bit_simps)
  finally show ?thesis .
qed

lemma PGROUNDDOWN_sub: "PGROUNDDOWN a = a - (a AND 0xFFF)"
proof -
  show ?thesis using and_not_plus_and [of a "0xFFF"] by (simp only: PGROUNDDOWN_def eq_diff_eq)
qed

lemma unat_PGROUNDDOWN: "unat (PGROUNDDOWN a) = unat a - unat a mod 4096"
proof -
  have "unat (a AND 0xFFF) = unat a mod 4096" using unat_and_mask [of a 12] by (simp add: mask12)
  moreover have "a AND 0xFFF \<le> a" by (simp add: word_and_le2)
  ultimately show ?thesis by (simp add: PGROUNDDOWN_sub unat_sub)
qed

lemma page_aligned_PGROUNDDOWN [simp]: "page_aligned (PGROUNDDOWN a)"
  by (simp add: aligned_def unat_PGROUNDDOWN dvd_minus_mod)

lemma PGROUNDDOWN_plus [addr_simps]:
  assumes "page_aligned p" "unat i < 4096"
  shows "PGROUNDDOWN (p + i) = p"
proof -
  obtain q where q: "unat p = 4096 * q" using assms(1) by (auto simp: aligned_def dvd_def)
  have "unat (p + i) = unat p + unat i" using unat_aligned_plus [OF assms(1)] assms(2) by simp
  then have "unat (PGROUNDDOWN (p + i)) = unat p"
    using assms(2) by (simp add: unat_PGROUNDDOWN q)
  then show ?thesis by (simp add: word_unat_eq_iff)
qed

lemma PGROUNDDOWN_id [simp]: "page_aligned p \<Longrightarrow> PGROUNDDOWN p = p"
  using PGROUNDDOWN_plus [of p 0] by simp

lemma page_offset_less: "unat (a - PGROUNDDOWN a) < 4096"
proof -
  have "a - PGROUNDDOWN a = a AND 0xFFF" by (simp add: PGROUNDDOWN_sub)
  then show ?thesis using unat_and_mask [of a 12] by (simp add: mask12)
qed


section \<open>Chains\<close>

text \<open>
  \<open>chain nx p xs\<close>: following the link \<open>nx\<close> from the pointer \<open>p\<close> visits exactly \<open>xs\<close> and then
  meets the null pointer.
\<close>

fun chain :: "('a \<Rightarrow> 'a option) \<Rightarrow> 'a option \<Rightarrow> 'a list \<Rightarrow> bool" where
  "chain nx p [] \<longleftrightarrow> p = None"
| "chain nx p (x # xs) \<longleftrightarrow> p = Some x \<and> chain nx (nx x) xs"

lemma chain_None [simp]: "chain nx None xs \<longleftrightarrow> xs = []"
  by (cases xs) auto

lemma chain_Some: "chain nx (Some x) ys \<longleftrightarrow> (\<exists>xs. ys = x # xs \<and> chain nx (nx x) xs)"
  by (cases ys) auto

lemma chain_cong: "(\<And>x. x \<in> set xs \<Longrightarrow> nx x = nx' x) \<Longrightarrow> chain nx p xs = chain nx' p xs"
  by (induction xs arbitrary: p) auto

lemma chain_unique: "chain nx p xs \<Longrightarrow> chain nx p ys \<Longrightarrow> xs = ys"
  by (induction xs arbitrary: p ys) (auto simp: chain_Some)

lemma chain_snoc:
  assumes "chain nx p xs" "xs \<noteq> []" "distinct xs" "y \<notin> set xs"
    and "nx' (last xs) = Some y" "nx' y = None"
    and "\<And>x. x \<in> set xs \<Longrightarrow> x \<noteq> last xs \<Longrightarrow> nx' x = nx x"
  shows "chain nx' p (xs @ [y])"
  using assms
proof (induction xs arbitrary: p)
  case (Cons a xs)
  show ?case
  proof (cases "xs = []")
    case True
    then show ?thesis using Cons.prems by simp
  next
    case False
    then have "a \<noteq> last xs" using Cons.prems(3) last_in_set by auto
    then have "nx' a = nx a" using Cons.prems(7) [of a] False by simp
    moreover have "chain nx' (nx a) (xs @ [y])" using Cons False by auto
    ultimately show ?thesis using Cons.prems(1) by simp
  qed
qed simp

lemma chain_upt:
  assumes "a < b" "\<And>j. a \<le> j \<Longrightarrow> Suc j < b \<Longrightarrow> nx j = Some (Suc j)" "chain nx (nx (b - 1)) ys"
  shows "chain nx (Some a) ([a..<b] @ ys)"
  using assms
proof (induction "b - a" arbitrary: a)
  case (Suc k)
  show ?case
  proof (cases "Suc a = b")
    case True
    then show ?thesis using Suc.prems(3) by (auto simp: upt_conv_Cons)
  next
    case False
    then have "Suc a < b" using Suc.prems(1) by simp
    then have "chain nx (Some (Suc a)) ([Suc a..<b] @ ys)" using Suc by auto
    moreover have "nx a = Some (Suc a)" using Suc.prems(2) \<open>Suc a < b\<close> by simp
    ultimately show ?thesis using Suc.prems(1) by (simp add: upt_conv_Cons)
  qed
qed simp

lemma chain_append:
  assumes "chain nx p xs" "xs \<noteq> []" "distinct xs" "chain nx' (nx' (last xs)) ys"
    and "\<And>x. x \<in> set xs \<Longrightarrow> x \<noteq> last xs \<Longrightarrow> nx' x = nx x"
  shows "chain nx' p (xs @ ys)"
  using assms
proof (induction xs arbitrary: p)
  case (Cons a xs)
  show ?case
  proof (cases "xs = []")
    case True
    then show ?thesis using Cons.prems by simp
  next
    case False
    then have "a \<noteq> last xs" using Cons.prems(3) last_in_set by auto
    then have "nx' a = nx a" using Cons.prems(5) [of a] False by simp
    moreover have "chain nx' (nx a) (xs @ ys)" using Cons False by auto
    ultimately show ?thesis using Cons.prems(1) by simp
  qed
qed simp

lemma chain_map_upt:
  assumes "i < n" "\<And>j. i \<le> j \<Longrightarrow> Suc j < n \<Longrightarrow> nx (f j) = Some (f (Suc j))" "nx (f (n - 1)) = None"
  shows "chain nx (Some (f i)) (map f [i..<n])"
  using assms
proof (induction "n - i" arbitrary: i)
  case (Suc k)
  show ?case
  proof (cases "Suc i = n")
    case True
    then show ?thesis using Suc.prems(3) by (auto simp: upt_conv_Cons)
  next
    case False
    then have "Suc i < n" using Suc.prems(1) by simp
    then have "chain nx (Some (f (Suc i))) (map f [Suc i..<n])" using Suc by auto
    moreover have "nx (f i) = Some (f (Suc i))" using Suc.prems(2) \<open>Suc i < n\<close> by simp
    ultimately show ?thesis using Suc.prems(1) by (simp add: upt_conv_Cons)
  qed
qed simp

text \<open>The null pointer of C as \<open>None\<close>.\<close>

definition opt_ptr :: "u64 \<Rightarrow> u64 option" where
  "opt_ptr v = (if v = 0 then None else Some v)"

lemma opt_ptr_simps [simp]:
  "opt_ptr 0 = None" "opt_ptr v = None \<longleftrightarrow> v = 0" "opt_ptr v = Some w \<longleftrightarrow> v = w \<and> w \<noteq> 0"
  by (auto simp: opt_ptr_def)

end
