(* ===== verification/Lib.thy ===== *)
theory Lib
  imports Prelude
begin

text \<open>
  include/lib.h: the kernel's memory and string routines.
\<close>

section \<open>Memory blocks\<close>

fun move_words_back :: "memory \<Rightarrow> u64 \<Rightarrow> u64 \<Rightarrow> nat \<Rightarrow> memory \<times> u64 \<times> u64 \<times> nat" where
  "move_words_back m ed es n =
     (if 8 \<le> n
      then move_words_back (store64 m (ed - 8) (load64 m (es - 8))) (ed - 8) (es - 8) (n - 8)
      else (m, ed, es, n))"

fun move_bytes_back :: "memory \<Rightarrow> u64 \<Rightarrow> u64 \<Rightarrow> nat \<Rightarrow> memory" where
  "move_bytes_back m ed es 0 = m"
| "move_bytes_back m ed es (Suc n) = move_bytes_back (m(ed - 1 := m (es - 1))) (ed - 1) (es - 1) n"

fun move_words_fwd :: "memory \<Rightarrow> u64 \<Rightarrow> u64 \<Rightarrow> nat \<Rightarrow> memory \<times> u64 \<times> u64 \<times> nat" where
  "move_words_fwd m wd ws n =
     (if 8 \<le> n
      then move_words_fwd (store64 m wd (load64 m ws)) (wd + 8) (ws + 8) (n - 8)
      else (m, wd, ws, n))"

fun move_bytes_fwd :: "memory \<Rightarrow> u64 \<Rightarrow> u64 \<Rightarrow> nat \<Rightarrow> memory" where
  "move_bytes_fwd m d s 0 = m"
| "move_bytes_fwd m d s (Suc n) = move_bytes_fwd (m(d := m s)) (d + 1) (s + 1) n"

definition memmove :: "memory \<Rightarrow> u64 \<Rightarrow> u64 \<Rightarrow> u32 \<Rightarrow> memory" where
  "memmove m dst src n =
     (if n = 0 \<or> dst = src then m
      else if src < dst \<and> dst < src + ucast n then
        let es = src + ucast n; ed = dst + ucast n in
        if (es OR ed) AND 7 = 0
        then (case move_words_back m ed es (unat n) of (m', ed', es', n') \<Rightarrow> move_bytes_back m' ed' es' n')
        else move_bytes_back m ed es (unat n)
      else if (src OR dst) AND 7 = 0
        then (case move_words_fwd m dst src (unat n) of (m', d', s', n') \<Rightarrow> move_bytes_fwd m' d' s' n')
        else move_bytes_fwd m dst src (unat n))"

declare move_words_back.simps [simp del] move_words_fwd.simps [simp del]

lemma mem_copy_0 [simp]: "mem_copy m d s 0 = m"
  by (simp add: mem_copy_def)

lemma upd_is_mem_copy: "m(d := m s) = mem_copy m d s 1"
proof
  fix x
  show "(m(d := m s)) x = mem_copy m d s 1 x"
    by (cases "x = d") (auto simp: mem_copy_def unat_eq_0)
qed

lemma store64_is_mem_copy: "store64 m d (load64 m s) = mem_copy m d s 8"
proof
  fix x
  show "store64 m d (load64 m s) x = mem_copy m d s 8 x"
  proof (cases "unat (x - d) < 8")
    case True
    define k where "k = unat (x - d)"
    have k: "k < 8" using True by (simp add: k_def)
    have "ucast (drop_bit (8 * k) (load64 m s)) = m (s + of_nat k)"
    proof (rule bit_word_eqI)
      fix n assume "n < LENGTH(8)"
      moreover have "k < 8" using True by (simp add: k_def)
      ultimately have "8 * k + n < 64" "(8 * k + n) div 8 = k" "(8 * k + n) mod 8 = n" by auto
      then show "bit (ucast (drop_bit (8 * k) (load64 m s)) :: u8) n = bit (m (s + of_nat k)) n"
        using \<open>n < LENGTH(8)\<close> by (simp add: bit_ucast_iff bit_drop_bit_eq bit_load64)
    qed
    then show ?thesis using True by (simp add: store64_def mem_copy_def k_def)
  qed (simp add: store64_def mem_copy_def)
qed

text \<open>
  Copying forwards is safe when the destination does not start inside the rest of the source,
  copying backwards when the source does not start inside the rest of the destination.
\<close>

definition fwd_ok :: "u64 \<Rightarrow> u64 \<Rightarrow> nat \<Rightarrow> bool" where
  "fwd_ok d s n \<longleftrightarrow> d = s \<or> n \<le> unat (d - s)"

lemma mem_copy_fwd_step:
  assumes "fwd_ok d s (a + b)" "a + b < 2 ^ 64"
  shows "mem_copy (mem_copy m d s a) (d + of_nat a) (s + of_nat a) b = mem_copy m d s (a + b)"
proof
  fix x
  define k where "k = unat (x - d)"
  have a: "unat (of_nat a :: u64) = a" using assms(2) by (simp add: unat_of_nat_small)
  have xa: "x - (d + of_nat a) = (x - d) - of_nat a" by (simp add: algebra_simps)
  have sa: "s + of_nat a + (x - (d + of_nat a)) = s + (x - d)" by (simp add: algebra_simps)
  show "mem_copy (mem_copy m d s a) (d + of_nat a) (s + of_nat a) b x = mem_copy m d s (a + b) x"
  proof (cases "k < a")
    case True
    then have "unat (x - d - of_nat a) = k + 18446744073709551616 - a"
      using unat_sub_lt [of "x - d" "of_nat a"] a by (simp add: k_def)
    then have "\<not> unat (x - d - of_nat a) < b" using True assms(2) by simp
    then show ?thesis using True by (simp add: mem_copy_def xa k_def)
  next
    case False
    then have u: "unat (x - d - of_nat a) = k - a"
      using unat_sub_ge [of "of_nat a" "x - d"] a by (simp add: k_def)
    show ?thesis
    proof (cases "k < a + b")
      case True
      have "\<not> unat (s + (x - d) - d) < a" if "d \<noteq> s"
      proof -
        have ge: "a + b \<le> unat (d - s)" using assms(1) that by (simp add: fwd_ok_def)
        have "s + (x - d) - d = (x - d) - (d - s)" by (simp add: algebra_simps)
        moreover have "unat ((x - d) - (d - s)) = k + 18446744073709551616 - unat (d - s)"
          unfolding k_def by (rule unat_sub_lt) (use True ge in \<open>simp add: k_def\<close>)
        moreover have "k + 18446744073709551616 - unat (d - s) \<ge> a"
          using False unat_bound [of "d - s"] by simp
        ultimately show ?thesis by (simp only: not_less)
      qed
      then have "mem_copy m d s a (s + (x - d)) = m (s + (x - d))"
        by (cases "d = s") (auto simp: mem_copy_def)
      then have "mem_copy (mem_copy m d s a) (d + of_nat a) (s + of_nat a) b x = m (s + (x - d))"
        using True False u less_diff_conv2 [of a k b] by (simp add: mem_copy_def [of "mem_copy m d s a"] xa sa)
      then show ?thesis using True by (simp add: mem_copy_def [of m] k_def)
    next
      case notlt: False
      then have "\<not> k - a < b" using False by simp
      then show ?thesis using notlt False u by (simp add: mem_copy_def xa flip: k_def)
    qed
  qed
qed


lemma mem_copy_back_step:
  assumes "fwd_ok s d (a + b)" "a + b < 2 ^ 64"
  shows "mem_copy (mem_copy m (d + of_nat b) (s + of_nat b) a) d s b = mem_copy m d s (a + b)"
proof
  fix x
  define k where "k = unat (x - d)"
  have b: "unat (of_nat b :: u64) = b" using assms(2) by (simp add: unat_of_nat_small)
  have xb: "x - (d + of_nat b) = (x - d) - of_nat b" by (simp add: algebra_simps)
  have sb: "s + of_nat b + (x - (d + of_nat b)) = s + (x - d)" by (simp add: algebra_simps)
  show "mem_copy (mem_copy m (d + of_nat b) (s + of_nat b) a) d s b x = mem_copy m d s (a + b) x"
  proof (cases "k < b")
    case True
    have "\<not> unat (s + (x - d) - (d + of_nat b)) < a"
    proof (cases "d = s")
      case eq: True
      have "s + (x - d) - (d + of_nat b) = (x - d) - of_nat b" using eq by (simp add: algebra_simps)
      moreover have "unat ((x - d) - of_nat b) = k + 18446744073709551616 - b"
        using unat_sub_lt [of "x - d" "of_nat b"] b True by (simp add: k_def)
      moreover have "a \<le> k + 18446744073709551616 - b" using True assms(2) by simp
      ultimately show ?thesis by (simp only: not_less)
    next
      case ne: False
      define j where "j = unat (s - d)"
      have ge: "a + b \<le> j" using assms(1) ne by (simp add: fwd_ok_def j_def)
      have "s + (x - d) - (d + of_nat b) = (s - d) - (of_nat b - (x - d))" by (simp add: algebra_simps)
      moreover have bk: "unat (of_nat b - (x - d)) = b - k"
        using unat_sub_ge [of "x - d" "of_nat b"] b True by (simp add: k_def)
      moreover have "unat ((s - d) - (of_nat b - (x - d))) = j - (b - k)"
        using unat_sub_ge [of "of_nat b - (x - d)" "s - d"] bk ge by (simp add: j_def)
      moreover have "a \<le> j - (b - k)" using ge by simp
      ultimately show ?thesis by (simp only: not_less)
    qed
    then show ?thesis using True by (simp add: mem_copy_def k_def)
  next
    case False
    then have u: "unat (x - d - of_nat b) = k - b"
      using unat_sub_ge [of "of_nat b" "x - d"] b by (simp add: k_def)
    show ?thesis using False u by (auto simp: mem_copy_def xb sb k_def)
  qed
qed

lemma fwd_ok_le: "fwd_ok d s n \<Longrightarrow> k \<le> n \<Longrightarrow> fwd_ok d s k"
  by (auto simp: fwd_ok_def)

lemma fwd_ok_shift: "fwd_ok (d + k) (s + k) n = fwd_ok d s n"
  by (simp add: fwd_ok_def)

lemma move_bytes_fwd_eq:
  "fwd_ok d s n \<Longrightarrow> n < 2 ^ 64 \<Longrightarrow> move_bytes_fwd m d s n = mem_copy m d s n"
proof (induction m d s n rule: move_bytes_fwd.induct)
  case (2 m d s n)
  then have "fwd_ok (d + 1) (s + 1) n" by (simp add: fwd_ok_shift fwd_ok_le)
  then have "move_bytes_fwd m d s (Suc n) = mem_copy (mem_copy m d s 1) (d + 1) (s + 1) n"
    using "2.IH" "2.prems" upd_is_mem_copy [of m d s] by simp
  then show ?case using mem_copy_fwd_step [of d s 1 n m] "2.prems" by simp
qed simp

lemma move_bytes_back_eq:
  "fwd_ok s d n \<Longrightarrow> n < 2 ^ 64 \<Longrightarrow>
   move_bytes_back m (d + of_nat n) (s + of_nat n) n = mem_copy m d s n"
proof (induction n arbitrary: m)
  case (Suc n)
  have e: "d + of_nat (Suc n) - 1 = d + of_nat n" "s + of_nat (Suc n) - 1 = s + of_nat n" by simp_all
  have "fwd_ok s d n" using Suc.prems by (simp add: fwd_ok_le)
  then have "move_bytes_back m (d + of_nat (Suc n)) (s + of_nat (Suc n)) (Suc n) =
      mem_copy (mem_copy m (d + of_nat n) (s + of_nat n) 1) d s n"
    using Suc.IH Suc.prems upd_is_mem_copy [of m "d + of_nat n" "s + of_nat n"] e
    by (simp only: move_bytes_back.simps) 
  then show ?case using mem_copy_back_step [of s d 1 n m] Suc.prems by simp
qed simp

lemma move_words_fwd_eq:
  "fwd_ok d s n \<Longrightarrow> n < 2 ^ 64 \<Longrightarrow>
   (case move_words_fwd m d s n of (m', d', s', n') \<Rightarrow> move_bytes_fwd m' d' s' n') = mem_copy m d s n"
proof (induction m d s n rule: move_words_fwd.induct)
  case (1 m d s n)
  show ?case
  proof (cases "8 \<le> n")
    case True
    have "fwd_ok (d + 8) (s + 8) (n - 8)" using "1.prems" by (simp add: fwd_ok_shift fwd_ok_le)
    then have "(case move_words_fwd m d s n of (m', d', s', n') \<Rightarrow> move_bytes_fwd m' d' s' n') =
        mem_copy (mem_copy m d s 8) (d + 8) (s + 8) (n - 8)"
      using "1.IH" [OF True] "1.prems" True
      by (subst move_words_fwd.simps) (simp add: store64_is_mem_copy)
    then show ?thesis using mem_copy_fwd_step [of d s 8 "n - 8" m] "1.prems" True by simp
  next
    case False
    then show ?thesis using "1.prems" by (subst move_words_fwd.simps) (simp add: move_bytes_fwd_eq)
  qed
qed

lemma move_words_back_eq:
  "fwd_ok s d n \<Longrightarrow> n < 2 ^ 64 \<Longrightarrow>
   (case move_words_back m (d + of_nat n) (s + of_nat n) n of
      (m', ed', es', n') \<Rightarrow> move_bytes_back m' ed' es' n') = mem_copy m d s n"
proof (induction n arbitrary: m rule: less_induct)
  case (less n)
  show ?case
  proof (cases "8 \<le> n")
    case True
    define k where "k = n - 8"
    have n: "n = k + 8" using True by (simp add: k_def)
    have e: "d + of_nat n - 8 = d + of_nat k" "s + of_nat n - 8 = s + of_nat k" by (simp_all add: n)
    have "fwd_ok s d k" using less.prems by (simp add: fwd_ok_le n)
    then have "(case move_words_back m (d + of_nat n) (s + of_nat n) n of
        (m', ed', es', n') \<Rightarrow> move_bytes_back m' ed' es' n') =
        mem_copy (mem_copy m (d + of_nat k) (s + of_nat k) 8) d s k"
      using less.IH [of k] less.prems True
      by (subst move_words_back.simps) (simp only: e store64_is_mem_copy, simp add: n)
    then show ?thesis using mem_copy_back_step [of s d 8 k m] less.prems by (simp add: n add.commute)
  next
    case False
    then show ?thesis using less.prems by (subst move_words_back.simps) (simp add: move_bytes_back_eq)
  qed
qed

lemma unat_ucast_u32: "unat (ucast (n::u32) :: u64) = unat n"
proof -
  have "unat n < 2 ^ 32" using unsigned_less [of n] by simp
  then show ?thesis by (simp add: unsigned_ucast_eq take_bit_nat_eq_self)
qed

lemma memmove_eq:
  assumes "unat src + unat n < 2 ^ 64" "unat dst + unat n < 2 ^ 64"
  shows "memmove m dst src n = mem_copy m dst src (unat n)"
proof -
  define k where "k = unat n"
  have k: "ucast n = (of_nat k :: u64)" by (simp add: k_def)
  have k64: "k < 2 ^ 64" using assms by (simp add: k_def)
  have uk: "unat (of_nat k :: u64) = k" using k64 by (simp add: unat_of_nat_small)
  consider "n = 0 \<or> dst = src" | "n \<noteq> 0" "dst \<noteq> src" "src < dst \<and> dst < src + ucast n"
    | "n \<noteq> 0" "dst \<noteq> src" "\<not> (src < dst \<and> dst < src + ucast n)" by blast
  then show ?thesis
  proof cases
    case 1
    then show ?thesis by (auto simp: memmove_def mem_copy_def)
  next
    case 2
    then have "unat src < unat dst" by (simp add: word_less_nat_alt)
    then have "k \<le> unat (src - dst)" using assms by (simp add: unat_sub_lt k_def)
    then have "fwd_ok src dst k" by (simp add: fwd_ok_def)
    then show ?thesis
      using 2 move_words_back_eq [of src dst k m] move_bytes_back_eq [of src dst k m] k64
      by (simp add: memmove_def Let_def k flip: k_def)
  next
    case 3
    have "k \<le> unat (dst - src)"
    proof (cases "src < dst")
      case True
      have "unat (src + of_nat k) = unat src + k"
        using assms uk by (simp add: unat_word_ariths k_def)
      then have "unat src + k \<le> unat dst" using 3 True k by (simp add: word_less_nat_alt not_less)
      then show ?thesis using unat_sub_ge [of src dst] by simp
    next
      case False
      then have "unat dst < unat src" using 3 by (simp add: word_less_nat_alt word_unat_eq_iff)
      then show ?thesis using assms by (simp add: unat_sub_lt k_def)
    qed
    then have "fwd_ok dst src k" by (simp add: fwd_ok_def)
    then show ?thesis
      using 3 move_words_fwd_eq [of dst src k m] move_bytes_fwd_eq [of dst src k m] k64
      unfolding memmove_def k_def [symmetric] Let_def by (simp only: if_False simp_thms split: if_split)
  qed
qed


function set_head :: "memory \<Rightarrow> u64 \<Rightarrow> u8 \<Rightarrow> nat \<Rightarrow> nat \<Rightarrow> memory \<times> nat" where
  "set_head m p val i num =
     (if i < num \<and> (p + of_nat i) AND 7 \<noteq> 0
      then set_head (m(p + of_nat i := val)) p val (Suc i) num else (m, i))"
  by pat_completeness auto
termination
  by (relation "measure (\<lambda>(m, p, val, i, num). num - i)") auto

fun set_words :: "memory \<Rightarrow> u64 \<Rightarrow> u64 \<Rightarrow> nat \<Rightarrow> memory" where
  "set_words m wp wval 0 = m"
| "set_words m wp wval (Suc cnt) = set_words (store64 m wp wval) (wp + 8) wval cnt"

function set_tail :: "memory \<Rightarrow> u64 \<Rightarrow> u8 \<Rightarrow> nat \<Rightarrow> nat \<Rightarrow> memory" where
  "set_tail m p val i num = (if i < num then set_tail (m(p + of_nat i := val)) p val (Suc i) num else m)"
  by pat_completeness auto
termination
  by (relation "measure (\<lambda>(m, p, val, i, num). num - i)") auto

declare set_head.simps [simp del] set_tail.simps [simp del]

definition memset :: "memory \<Rightarrow> u64 \<Rightarrow> i32 \<Rightarrow> u64 \<Rightarrow> memory" where
  "memset m ptr v num =
     (let val = ucast v; n = unat num; (m1, i) = set_head m ptr val 0 n in
      if i + 8 \<le> n then
        let wval = ucast val * 0x0101010101010101; cnt = (n - i) div 8 in
        set_tail (set_words m1 (ptr + of_nat i) wval cnt) ptr val (i + 8 * cnt) n
      else set_tail m1 ptr val i n)"

lemma mem_fill_0 [simp]: "mem_fill m a v 0 = m"
  by (simp add: mem_fill_def)

lemma mem_fill_step:
  assumes "a + b < 2 ^ 64"
  shows "mem_fill (mem_fill m p v a) (p + of_nat a) v b = mem_fill m p v (a + b)"
proof
  fix x
  define k where "k = unat (x - p)"
  have a: "unat (of_nat a :: u64) = a" using assms by (simp add: unat_of_nat_small)
  have xa: "x - (p + of_nat a) = (x - p) - of_nat a" by (simp add: algebra_simps)
  show "mem_fill (mem_fill m p v a) (p + of_nat a) v b x = mem_fill m p v (a + b) x"
  proof (cases "k < a")
    case True
    then show ?thesis by (simp add: mem_fill_def k_def)
  next
    case False
    then have u: "unat (x - p - of_nat a) = k - a"
      using unat_sub_ge [of "of_nat a" "x - p"] a by (simp add: k_def)
    show ?thesis using False u less_diff_conv2 [of a k b]
      by (simp add: mem_fill_def xa add.commute flip: k_def)
  qed
qed

lemma upd_is_mem_fill: "m(d := v) = mem_fill m d v 1"
  by (rule ext) (auto simp: mem_fill_def unat_eq_0)

lemma set_tail_eq:
  "i \<le> num \<Longrightarrow> num < 2 ^ 64 \<Longrightarrow> set_tail m p val i num = mem_fill m (p + of_nat i) val (num - i)"
proof (induction m p val i num rule: set_tail.induct)
  case (1 m p val i num)
  show ?case
  proof (cases "i < num")
    case True
    then have "set_tail m p val i num =
        mem_fill (mem_fill m (p + of_nat i) val 1) (p + of_nat i + 1) val (num - Suc i)"
      using 1 by (subst set_tail.simps) (simp add: upd_is_mem_fill ac_simps)
    then show ?thesis
      using mem_fill_step [of 1 "num - Suc i" m "p + of_nat i" val] True "1.prems"
      by (simp add: Suc_diff_Suc)
  next
    case False
    then show ?thesis using "1.prems" by (subst set_tail.simps) simp
  qed
qed

lemma bit_repeat_byte:
  assumes "n < 64"
  shows "bit (ucast (v::u8) * 0x0101010101010101 :: u64) n = bit v (n mod 8)"
proof -
  have "horner_sum uint 256 (replicate 8 v) = uint v * 0x0101010101010101"
  proof -
    have "replicate 8 v = [v, v, v, v, v, v, v, v]" by (simp add: numeral_eq_Suc)
    then show ?thesis by simp
  qed
  then have "(word_rcat (replicate 8 v) :: u64) = word_of_int (uint v * 0x0101010101010101)"
    by (simp add: word_rcat_def)
  also have "\<dots> = ucast v * 0x0101010101010101" by simp
  finally have "ucast v * 0x0101010101010101 = (word_rcat (replicate 8 v) :: u64)" by simp
  moreover have "n div 8 < 8" using assms by auto
  ultimately show ?thesis
    using assms bit_horner_sum_uint_exp_iff [of "replicate 8 v" n]
    by (simp add: word_rcat_def bit_word_of_int_iff)
qed

lemma store64_is_mem_fill: "store64 m p (ucast v * 0x0101010101010101) = mem_fill m p v 8"
proof
  fix x
  show "store64 m p (ucast v * 0x0101010101010101) x = mem_fill m p v 8 x"
  proof (cases "unat (x - p) < 8")
    case True
    define k where "k = unat (x - p)"
    have "ucast (drop_bit (8 * k) (ucast v * 0x0101010101010101 :: u64)) = v"
    proof (rule bit_word_eqI)
      fix n assume "n < LENGTH(8)"
      moreover have "k < 8" using True by (simp add: k_def)
      ultimately have "8 * k + n < 64" "(8 * k + n) mod 8 = n" by auto
      then show "bit (ucast (drop_bit (8 * k) (ucast v * 0x0101010101010101 :: u64)) :: u8) n = bit v n"
        using \<open>n < LENGTH(8)\<close> by (simp add: bit_ucast_iff bit_drop_bit_eq bit_repeat_byte)
    qed
    then show ?thesis using True by (simp add: store64_def mem_fill_def k_def)
  qed (simp add: store64_def mem_fill_def)
qed

lemma set_words_eq:
  "8 * cnt < 2 ^ 64 \<Longrightarrow> set_words m wp (ucast v * 0x0101010101010101) cnt = mem_fill m wp v (8 * cnt)"
proof (induction cnt arbitrary: m wp)
  case (Suc cnt)
  then show ?case using mem_fill_step [of 8 "8 * cnt" m wp v] by (simp add: store64_is_mem_fill)
qed simp

lemma set_head_eq:
  "i \<le> num \<Longrightarrow> num < 2 ^ 64 \<Longrightarrow> set_head m p val i num = (m', i') \<Longrightarrow>
   i \<le> i' \<and> i' \<le> num \<and> m' = mem_fill m (p + of_nat i) val (i' - i)"
proof (induction m p val i num rule: set_head.induct)
  case (1 m p val i num)
  show ?case
  proof (cases "i < num \<and> (p + of_nat i) AND 7 \<noteq> 0")
    case True
    then have "set_head (m(p + of_nat i := val)) p val (Suc i) num = (m', i')"
      using "1.prems"(3) by (subst (asm) set_head.simps) simp
    then have IH: "Suc i \<le> i' \<and> i' \<le> num \<and>
        m' = mem_fill (mem_fill m (p + of_nat i) val 1) (p + of_nat i + 1) val (i' - Suc i)"
      using "1.IH" [OF True] True "1.prems"(2) by (simp add: upd_is_mem_fill ac_simps)
    then show ?thesis
      using mem_fill_step [of 1 "i' - Suc i" m "p + of_nat i" val] "1.prems"(2)
      by (auto simp: Suc_diff_Suc Suc_le_eq)
  next
    case False
    then show ?thesis using "1.prems" by (auto simp: set_head.simps [of m p val i num] split: if_splits)
  qed
qed

lemma memset_eq: "memset m ptr v num = mem_fill m ptr (ucast v) (unat num)"
proof -
  define n where "n = unat num"
  have n: "n < 2 ^ 64" using unat_bound [of num] by (simp add: n_def)
  obtain m1 i where h: "set_head m ptr (ucast v) 0 n = (m1, i)" by (cases "set_head m ptr (ucast v) 0 n")
  then have i: "i \<le> n" "m1 = mem_fill m ptr (ucast v) i" using set_head_eq [OF _ n h] by auto
  show ?thesis
  proof (cases "i + 8 \<le> n")
    case True
    define cnt where "cnt = (n - i) div 8"
    have c: "8 * cnt \<le> n - i" by (simp add: cnt_def)
    have "memset m ptr v num = set_tail (set_words m1 (ptr + of_nat i) (ucast (ucast v :: u8) * 0x0101010101010101) cnt)
        ptr (ucast v) (i + 8 * cnt) n"
      using True h by (simp add: memset_def n_def cnt_def Let_def)
    also have "\<dots> = mem_fill (mem_fill m1 (ptr + of_nat i) (ucast v) (8 * cnt))
        (ptr + of_nat (i + 8 * cnt)) (ucast v) (n - (i + 8 * cnt))"
      using c n i(1) by (simp add: set_words_eq set_tail_eq)
    also have "mem_fill m1 (ptr + of_nat i) (ucast v) (8 * cnt) = mem_fill m ptr (ucast v) (i + 8 * cnt)"
      using mem_fill_step [of i "8 * cnt" m ptr "ucast v"] c n i by simp
    finally show ?thesis
      using mem_fill_step [of "i + 8 * cnt" "n - (i + 8 * cnt)" m ptr "ucast v"] c n i by (simp add: n_def)
  next
    case False
    then have "memset m ptr v num = set_tail m1 ptr (ucast v) i n"
      using h by (simp add: memset_def n_def Let_def)
    then show ?thesis
      using mem_fill_step [of i "n - i" m ptr "ucast v"] n i by (simp add: set_tail_eq n_def)
  qed
qed


text \<open>
  The index of \<^verbatim>\<open>memcpy\<close> is a \<^verbatim>\<open>size_t\<close>: \<^verbatim>\<open>i + 8\<close> wraps for a length within 8 of \<open>2 ^ 64\<close>, and then
  the loop over words does not end.
\<close>

partial_function (option) copy_words :: "memory \<Rightarrow> u64 \<Rightarrow> u64 \<Rightarrow> u64 \<Rightarrow> u64 \<Rightarrow> (memory \<times> u64 \<times> u64 \<times> u64) option" where
  "copy_words m wd ws i num =
     (if i + 8 \<le> num
      then copy_words (store64 m wd (load64 m ws)) (wd + 8) (ws + 8) (i + 8) num
      else Some (m, wd, ws, i))"

function copy_bytes :: "memory \<Rightarrow> u64 \<Rightarrow> u64 \<Rightarrow> nat \<Rightarrow> nat \<Rightarrow> memory" where
  "copy_bytes m d s i num =
     (if i < num then copy_bytes (m(d := m s)) (d + 1) (s + 1) (Suc i) num else m)"
  by pat_completeness auto
termination
  by (relation "measure (\<lambda>(m, d, s, i, num). num - i)") auto

declare copy_bytes.simps [simp del]

definition memcpy :: "memory \<Rightarrow> u64 \<Rightarrow> u64 \<Rightarrow> u64 \<Rightarrow> memory option" where
  "memcpy m dest src num =
     (if (src OR dest) AND 7 = 0
      then Option.bind (copy_words m dest src 0 num) (\<lambda>(m', d, s, i). Some (copy_bytes m' d s (unat i) (unat num)))
      else Some (copy_bytes m dest src 0 (unat num)))"

lemma copy_bytes_move: "i \<le> num \<Longrightarrow> copy_bytes m d s i num = move_bytes_fwd m d s (num - i)"
proof (induction m d s i num rule: copy_bytes.induct)
  case (1 m d s i num)
  show ?case
  proof (cases "i < num")
    case True
    then have "num - i = Suc (num - Suc i)" by simp
    moreover have "copy_bytes (m(d := m s)) (d + 1) (s + 1) (Suc i) num =
        move_bytes_fwd (m(d := m s)) (d + 1) (s + 1) (num - Suc i)"
      using "1.IH" True by (simp add: fun_upd_def)
    ultimately show ?thesis
      using True by (simp only: copy_bytes.simps [of m d s i] move_bytes_fwd.simps if_True)
  qed (use 1 in \<open>subst copy_bytes.simps, simp\<close>)
qed

lemma copy_words_move:
  assumes "unat num < 2 ^ 64 - 8" "unat i \<le> unat num"
  shows "\<exists>m' d' s' n'. move_words_fwd m d s (unat num - unat i) = (m', d', s', n') \<and> n' \<le> unat num \<and>
    copy_words m d s i num = Some (m', d', s', num - of_nat n')"
  using assms(2)
proof (induction "unat num - unat i" arbitrary: m d s i rule: less_induct)
  case less
  have i8: "unat (i + 8) = unat i + 8" using assms(1) less.prems by (simp add: unat_word_ariths)
  show ?case
  proof (cases "i + 8 \<le> num")
    case True
    then have le: "unat i + 8 \<le> unat num" using i8 by (simp add: word_le_nat_alt)
    then have "unat num - unat (i + 8) < unat num - unat i" "unat (i + 8) \<le> unat num" using i8 by linarith+
    then obtain m' d' s' n' where r: "move_words_fwd (store64 m d (load64 m s)) (d + 8) (s + 8) (unat num - unat (i + 8)) = (m', d', s', n')"
      "n' \<le> unat num" "copy_words (store64 m d (load64 m s)) (d + 8) (s + 8) (i + 8) num = Some (m', d', s', num - of_nat n')"
      using less.hyps [of "i + 8" "store64 m d (load64 m s)" "d + 8" "s + 8"] by blast
    have "move_words_fwd m d s (unat num - unat i) = (m', d', s', n')"
    proof -
      have "8 \<le> unat num - unat i" using le by linarith
      then show ?thesis using r(1) i8 by (subst move_words_fwd.simps) (simp add: diff_diff_eq)
    qed
    moreover have "copy_words m d s i num = Some (m', d', s', num - of_nat n')"
      using True r(3) by (simp add: copy_words.simps [of m d s i])
    ultimately show ?thesis using r(2) by blast
  next
    case False
    then have lt: "\<not> 8 \<le> unat num - unat i" using i8 less.prems by (simp add: word_le_nat_alt)
    have "num - of_nat (unat num - unat i) = i" using less.prems by (simp add: of_nat_diff)
    then have "copy_words m d s i num = Some (m, d, s, num - of_nat (unat num - unat i))"
      using False by (simp add: copy_words.simps [of m d s i])
    moreover have "move_words_fwd m d s (unat num - unat i) = (m, d, s, unat num - unat i)"
      using lt by (subst move_words_fwd.simps) simp
    ultimately show ?thesis by (meson diff_le_self)
  qed
qed

lemma copy_words_diverges:
  assumes "copy_words m d s i num = Some r"
  shows "2 ^ 64 - 8 \<le> unat num \<and> 8 dvd unat i \<longrightarrow> False"
proof (rule copy_words.raw_induct [where P = "\<lambda>m d s i num r. 2 ^ 64 - 8 \<le> unat num \<and> 8 dvd unat i \<longrightarrow> False", OF _ assms], intro impI)
  fix loop :: "memory \<Rightarrow> u64 \<Rightarrow> u64 \<Rightarrow> u64 \<Rightarrow> u64 \<Rightarrow> (memory \<times> u64 \<times> u64 \<times> u64) option" and m d s i num r
  assume IH: "\<And>m d s i num r. loop m d s i num = Some r \<Longrightarrow> 2 ^ 64 - 8 \<le> unat num \<and> 8 dvd unat i \<longrightarrow> False"
    and eq: "(if i + 8 \<le> num then loop (store64 m d (load64 m s)) (d + 8) (s + 8) (i + 8) num else Some (m, d, s, i)) = Some r"
    and h: "2 ^ 64 - 8 \<le> unat num \<and> 8 dvd unat i"
  have dv: "8 dvd unat (i + 8)"
  proof -
    have "8 dvd unat i + 8" "(8::nat) dvd 2 ^ 64" using h by simp_all
    then show ?thesis unfolding unat_word_ariths by (simp add: dvd_mod)
  qed
  have "unat (i + 8) < 2 ^ 64" using unat_bound [of "i + 8"] by simp
  then have "unat (i + 8) \<le> 2 ^ 64 - 8" using dv by (elim dvdE) simp
  then have "i + 8 \<le> num" using h by (simp add: word_le_nat_alt)
  then have "loop (store64 m d (load64 m s)) (d + 8) (s + 8) (i + 8) num = Some r" using eq by simp
  from IH [OF this] dv h show False by blast
qed

lemma memcpy_eq_move:
  assumes "unat num < 2 ^ 64 - 8"
  shows "memcpy m dest src num = Some
     (if (src OR dest) AND 7 = 0
      then (case move_words_fwd m dest src (unat num) of (m', d', s', n') \<Rightarrow> move_bytes_fwd m' d' s' n')
      else move_bytes_fwd m dest src (unat num))"
proof -
  obtain m' d' s' n' where r: "move_words_fwd m dest src (unat num) = (m', d', s', n')" "n' \<le> unat num"
    "copy_words m dest src 0 num = Some (m', d', s', num - of_nat n')"
    using copy_words_move [OF assms, of 0 m dest src] by auto
  have "unat (of_nat n' :: u64) = n'" using r(2) assms by (intro unat_of_nat_small) simp
  then have "unat (num - of_nat n') = unat num - n'" using r(2) unat_sub_ge [of "of_nat n'" num] by simp
  then show ?thesis using r by (simp add: memcpy_def copy_bytes_move)
qed

lemma memcpy_unaligned: "(src OR dest) AND 7 \<noteq> 0 \<Longrightarrow> memcpy m dest src num = Some (move_bytes_fwd m dest src (unat num))"
  by (simp add: memcpy_def copy_bytes_move)

lemma memcpy_eq:
  assumes "fwd_ok dest src (unat num)" "(src OR dest) AND 7 \<noteq> 0 \<or> unat num < 2 ^ 64 - 8"
  shows "memcpy m dest src num = Some (mem_copy m dest src (unat num))"
proof -
  have n: "unat num < 2 ^ 64" using unat_bound [of num] by simp
  show ?thesis
  proof (cases "unat num < 2 ^ 64 - 8")
    case True
    then show ?thesis using assms(1) n by (simp add: memcpy_eq_move move_words_fwd_eq move_bytes_fwd_eq del: case_prod_conv)
  next
    case False
    then show ?thesis using assms n by (simp add: memcpy_unaligned move_bytes_fwd_eq)
  qed
qed

lemma memcpy_diverges: "(src OR dest) AND 7 = 0 \<Longrightarrow> 2 ^ 64 - 8 \<le> unat num \<Longrightarrow> memcpy m dest src num = None"
  using copy_words_diverges [of m dest src 0 num] by (cases "copy_words m dest src 0 num") (auto simp: memcpy_def)

fun memcmp :: "memory \<Rightarrow> u64 \<Rightarrow> u64 \<Rightarrow> nat \<Rightarrow> int" where
  "memcmp m a b 0 = 0"
| "memcmp m a b (Suc n) = (if m a \<noteq> m b then uint (m a) - uint (m b) else memcmp m (a + 1) (b + 1) n)"

lemma bytes_Suc: "bytes m a (Suc n) = m a # bytes m (a + 1) n"
  by (simp add: bytes_def upt_conv_Cons map_Suc_upt [symmetric] del: upt_Suc map_Suc_upt)
     (simp add: ac_simps)

section \<open>Properties\<close>

text \<open>
  (C22) \<open>memmove\<close> moves the block as it was before the call, whatever the overlap and
  the alignment of the two blocks, as long as neither block wraps around the address space;
  no other byte changes.
\<close>

theorem memmove_correct:
  assumes "unat src + unat n < 2 ^ 64" "unat dst + unat n < 2 ^ 64"
  shows "memmove m dst src n x =
    (if unat (x - dst) < unat n then m (src + (x - dst)) else m x)"
  using memmove_eq [OF assms] by (simp add: mem_copy_def)

theorem memmove_correct_witness:
  "memmove (\<lambda>x. ucast x) 0x1004 0x1000 16 0x1006 = 2"
  by (subst memmove_correct) simp_all

text \<open>
  (C23) \<open>memset\<close>, with its byte head, word body and byte tail, fills exactly the \<open>num\<close>
  bytes from \<open>ptr\<close> with the low byte of \<open>v\<close>, for every address, size and alignment.
\<close>

theorem memset_correct:
  "memset m ptr v num x = (if unat (x - ptr) < unat num then ucast v else m x)"
  by (simp add: memset_eq mem_fill_def)

text \<open>
  (C24) \<open>memcpy\<close> copies the block forwards, words first. When the destination does not start
  inside the source it agrees with a simultaneous copy, except that it never returns for
  aligned pointers and a length of at least \<open>2 ^ 64 - 8\<close>, where its index wraps.
\<close>

theorem memcpy_correct:
  assumes "fwd_ok dest src (unat num)"
  shows "memcpy m dest src num =
    (if (src OR dest) AND 7 = 0 \<and> 2 ^ 64 - 8 \<le> unat num then None
     else Some (\<lambda>x. if unat (x - dest) < unat num then m (src + (x - dest)) else m x))"
proof (cases "(src OR dest) AND 7 = 0 \<and> 2 ^ 64 - 8 \<le> unat num")
  case True
  then show ?thesis using memcpy_diverges [of src dest num m] by simp
next
  case False
  then have "memcpy m dest src num = Some (mem_copy m dest src (unat num))" using memcpy_eq [OF assms] by (auto simp: not_le)
  then show ?thesis using False by (simp only: if_False) (simp add: mem_copy_def fun_eq_iff)
qed

theorem memcpy_correct_witness: "\<exists>m'. memcpy (\<lambda>x. ucast x) 0x2000 0x1000 16 = Some m' \<and> m' 0x2003 = 3"
  using memcpy_correct [of "0x2000" "0x1000" 16 "\<lambda>x. ucast x"] by (simp add: fwd_ok_def)

text \<open>\<open>memcmp\<close> is zero exactly on equal blocks.\<close>

theorem memcmp_zero_iff: "memcmp m a b n = 0 \<longleftrightarrow> bytes m a n = bytes m b n"
  by (induction m a b n rule: memcmp.induct) (auto simp: bytes_Suc word_uint_eq_iff, auto simp: bytes_def)

end
