(* ===== verification/Cstring.thy ===== *)
theory Cstring
  imports Prelude
begin

text \<open>
  include/lib.h: the routines on null-terminated strings. \<open>cstr m s xs\<close> says that the string
  at address \<open>s\<close> has the (non-null) characters \<open>xs\<close>. A loop that runs to a terminator is a
  \<open>partial_function (option)\<close>: without a terminator it does not return.
\<close>

fun cstr :: "memory \<Rightarrow> u64 \<Rightarrow> u8 list \<Rightarrow> bool" where
  "cstr m s [] \<longleftrightarrow> m s = 0"
| "cstr m s (x # xs) \<longleftrightarrow> m s = x \<and> x \<noteq> 0 \<and> cstr m (s + 1) xs"

partial_function (option) strlen_loop :: "memory \<Rightarrow> u64 \<Rightarrow> u64 option" where
  "strlen_loop m p = (if m p \<noteq> 0 then strlen_loop m (p + 1) else Some p)"

definition strlen :: "memory \<Rightarrow> u64 \<Rightarrow> u64 option" where
  "strlen m s = map_option (\<lambda>p. p - s) (strlen_loop m s)"

partial_function (option) strcmp :: "memory \<Rightarrow> u64 \<Rightarrow> u64 \<Rightarrow> int option" where
  "strcmp m s1 s2 =
     (if m s1 \<noteq> 0 \<and> m s1 = m s2 then strcmp m (s1 + 1) (s2 + 1)
      else Some (uint (m s1) - uint (m s2)))"

fun strncmp :: "memory \<Rightarrow> u64 \<Rightarrow> u64 \<Rightarrow> nat \<Rightarrow> int" where
  "strncmp m s1 s2 0 = 0"
| "strncmp m s1 s2 (Suc n) =
     (if m s1 \<noteq> 0 \<and> m s1 = m s2 then strncmp m (s1 + 1) (s2 + 1) n
      else uint (m s1) - uint (m s2))"

partial_function (option) strcpy :: "memory \<Rightarrow> u64 \<Rightarrow> u64 \<Rightarrow> memory option" where
  "strcpy m p src =
     (if m src \<noteq> 0 then strcpy (m(p := m src)) (p + 1) (src + 1) else Some (m(p := m src)))"

fun strncpy_pad :: "memory \<Rightarrow> u64 \<Rightarrow> nat \<Rightarrow> nat \<Rightarrow> memory" where
  "strncpy_pad m dest i 0 = m"
| "strncpy_pad m dest i (Suc k) = strncpy_pad (m(dest + of_nat i := 0)) dest (Suc i) k"

fun strncpy_loop :: "memory \<Rightarrow> u64 \<Rightarrow> u64 \<Rightarrow> nat \<Rightarrow> nat \<Rightarrow> memory" where
  "strncpy_loop m dest src i 0 = m"
| "strncpy_loop m dest src i (Suc k) =
     (if m (src + of_nat i) \<noteq> 0
      then strncpy_loop (m(dest + of_nat i := m (src + of_nat i))) dest src (Suc i) k
      else strncpy_pad m dest i (Suc k))"

definition strncpy :: "memory \<Rightarrow> u64 \<Rightarrow> u64 \<Rightarrow> u64 \<Rightarrow> memory" where
  "strncpy m dest src n = strncpy_loop m dest src 0 (unat n)"

fun strcpy_term_loop :: "memory \<Rightarrow> u64 \<Rightarrow> u64 \<Rightarrow> nat \<Rightarrow> memory \<times> u64" where
  "strcpy_term_loop m s t 0 = (m, s)"
| "strcpy_term_loop m s t (Suc k) =
     (let m' = m(s := m t) in
      if m t \<noteq> 0 then strcpy_term_loop m' (s + 1) (t + 1) k else (m', s + 1))"

definition strcpy_with_terminate :: "memory \<Rightarrow> u64 \<Rightarrow> u64 \<Rightarrow> i32 \<Rightarrow> memory" where
  "strcpy_with_terminate m s t n =
     (if sint n \<le> 0 then m
      else case strcpy_term_loop m s t (nat (sint n - 1)) of (m', s') \<Rightarrow> m'(s' := 0))"

definition strcat :: "memory \<Rightarrow> u64 \<Rightarrow> u64 \<Rightarrow> memory option" where
  "strcat m dest src = Option.bind (strlen_loop m dest) (\<lambda>p. strcpy m p src)"

fun strncat_loop :: "memory \<Rightarrow> u64 \<Rightarrow> u64 \<Rightarrow> nat \<Rightarrow> nat \<Rightarrow> memory" where
  "strncat_loop m p src i 0 = m(p + of_nat i := 0)"
| "strncat_loop m p src i (Suc k) =
     (if m (src + of_nat i) \<noteq> 0
      then strncat_loop (m(p + of_nat i := m (src + of_nat i))) p src (Suc i) k
      else m(p + of_nat i := 0))"

definition strncat :: "memory \<Rightarrow> u64 \<Rightarrow> u64 \<Rightarrow> u64 \<Rightarrow> memory option" where
  "strncat m dest src n =
     map_option (\<lambda>p. strncat_loop m p src 0 (unat n)) (strlen_loop m dest)"

partial_function (option) strchr_loop :: "memory \<Rightarrow> u64 \<Rightarrow> u8 \<Rightarrow> u64 option" where
  "strchr_loop m s ch =
     (if m s \<noteq> 0 \<and> m s \<noteq> ch then strchr_loop m (s + 1) ch
      else Some (if m s = ch then s else 0))"

definition strchr :: "memory \<Rightarrow> u64 \<Rightarrow> i32 \<Rightarrow> u64 option" where
  "strchr m s c = strchr_loop m s (ucast c)"

partial_function (option) strrchr_loop :: "memory \<Rightarrow> u64 \<Rightarrow> u8 \<Rightarrow> u64 \<Rightarrow> (u64 \<times> u64) option" where
  "strrchr_loop m s ch r =
     (if m s \<noteq> 0 then strrchr_loop m (s + 1) ch (if m s = ch then s else r) else Some (r, s))"

definition strrchr :: "memory \<Rightarrow> u64 \<Rightarrow> i32 \<Rightarrow> u64 option" where
  "strrchr m s c =
     map_option (\<lambda>(r, e). if (ucast c :: u8) = 0 then e else r) (strrchr_loop m s (ucast c) 0)"

partial_function (option) strstr_match :: "memory \<Rightarrow> u64 \<Rightarrow> u64 \<Rightarrow> u64 option" where
  "strstr_match m h n =
     (if m h \<noteq> 0 \<and> m n \<noteq> 0 \<and> m h = m n then strstr_match m (h + 1) (n + 1) else Some n)"

partial_function (option) strstr_loop :: "memory \<Rightarrow> u64 \<Rightarrow> u64 \<Rightarrow> u64 option" where
  "strstr_loop m haystack needle =
     (if m haystack = 0 then Some 0
      else Option.bind (strstr_match m haystack needle)
        (\<lambda>n. if m n = 0 then Some haystack else strstr_loop m (haystack + 1) needle))"

definition strstr :: "memory \<Rightarrow> u64 \<Rightarrow> u64 \<Rightarrow> u64 option" where
  "strstr m haystack needle =
     (if m needle = 0 then Some haystack else strstr_loop m haystack needle)"

definition to_upper :: "u8 \<Rightarrow> u8" where
  "to_upper c = (if 97 \<le> c \<and> c \<le> 122 then c - 32 else c)"

partial_function (option) strcasecmp :: "memory \<Rightarrow> u64 \<Rightarrow> u64 \<Rightarrow> int option" where
  "strcasecmp m s1 s2 =
     (if m s1 \<noteq> 0 \<and> m s2 \<noteq> 0 then
        if to_upper (m s1) \<noteq> to_upper (m s2)
        then Some (uint (to_upper (m s1)) - uint (to_upper (m s2)))
        else strcasecmp m (s1 + 1) (s2 + 1)
      else Some (uint (m s1) - uint (m s2)))"


lemma strlen_loop_cstr: "cstr m s xs \<Longrightarrow> strlen_loop m s = Some (s + of_nat (length xs))"
proof (induction xs arbitrary: s)
  case Nil
  then show ?case by (subst strlen_loop.simps) simp
next
  case (Cons x xs)
  then show ?case by (subst strlen_loop.simps) (simp add: ac_simps)
qed

lemma strlen_cstr: "cstr m s xs \<Longrightarrow> strlen m s = Some (of_nat (length xs))"
  by (simp add: strlen_def strlen_loop_cstr)

lemma strcmp_spec:
  "cstr m s1 xs \<Longrightarrow> cstr m s2 ys \<Longrightarrow>
   \<exists>r. strcmp m s1 s2 = Some r \<and> (r = 0 \<longleftrightarrow> xs = ys) \<and> (r < 0 \<longleftrightarrow> ord_class.lexordp xs ys)"
proof (induction xs arbitrary: s1 s2 ys)
  case Nil
  then show ?case
    by (cases ys; subst strcmp.simps) (auto simp: word_uint_eq_iff order_less_le)
next
  case (Cons x xs)
  show ?case
  proof (cases ys)
    case Nil
    with Cons.prems show ?thesis
      by (subst strcmp.simps) (auto simp: word_uint_eq_iff)
  next
    case (Cons y ys')
    show ?thesis
    proof (cases "x = y")
      case True
      then show ?thesis using Cons.IH [of "s1 + 1" "s2 + 1" ys'] Cons.prems Cons
        by (subst strcmp.simps) auto
    next
      case False
      then show ?thesis using Cons.prems Cons
        by (subst strcmp.simps) (auto simp: word_less_def word_uint_eq_iff)
    qed
  qed
qed

text \<open>\<open>cstr\<close> depends only on the bytes of the string, terminator included.\<close>

lemma cstr_frame:
  "cstr m s xs \<Longrightarrow> (\<And>i. i \<le> length xs \<Longrightarrow> m' (s + of_nat i) = m (s + of_nat i)) \<Longrightarrow> cstr m' s xs"
proof (induction xs arbitrary: s)
  case Nil
  then show ?case using Nil.prems(2) [of 0] by simp
next
  case (Cons x xs)
  have "m' (s + 1 + of_nat i) = m (s + 1 + of_nat i)" if "i \<le> length xs" for i
    using Cons.prems(2) [of "Suc i"] that by (simp add: ac_simps)
  then have "cstr m' (s + 1) xs" using Cons.IH [of "s + 1"] Cons.prems(1) by simp
  then show ?case using Cons.prems(1) Cons.prems(2) [of 0] by simp
qed

lemma cstr_tail_frame:
  assumes "cstr m t (x # xs)" "\<And>i. i \<le> length xs \<Longrightarrow> s \<noteq> t + of_nat (Suc i)"
  shows "cstr (m(s := v)) (t + 1) xs"
proof (rule cstr_frame)
  show "cstr m (t + 1) xs" using assms(1) by simp
next
  fix i assume "i \<le> length xs"
  then have "s \<noteq> t + 1 + of_nat i" using assms(2) [of i] by (simp add: ac_simps)
  then show "(m(s := v)) (t + 1 + of_nat i) = m (t + 1 + of_nat i)" by simp
qed

text \<open>Two blocks of \<open>n\<close> bytes that do not meet.\<close>

definition disjoint_blocks :: "u64 \<Rightarrow> u64 \<Rightarrow> nat \<Rightarrow> bool" where
  "disjoint_blocks d s n \<longleftrightarrow> (\<forall>i < n. \<forall>j < n. d + of_nat i \<noteq> s + of_nat j)"

lemma disjoint_blocksD: "disjoint_blocks d s n \<Longrightarrow> i < n \<Longrightarrow> j < n \<Longrightarrow> d + of_nat i \<noteq> s + of_nat j"
  by (simp add: disjoint_blocks_def)

lemma disjoint_blocksI:
  assumes "n \<le> unat (d - s)" "n \<le> unat (s - d)"
  shows "disjoint_blocks d s n"
  unfolding disjoint_blocks_def
proof (intro allI impI notI)
  fix i j assume ij: "i < n" "j < n" and eq: "d + of_nat i = s + of_nat j"
  have n: "n < 18446744073709551616" using assms(1) unat_bound [of "d - s"] by simp
  show False
  proof (cases "i \<le> j")
    case True
    then have "d - s = of_nat (j - i)" using eq by (simp add: of_nat_diff algebra_simps)
    then show False using assms(1) ij n by (simp add: unat_of_nat_small)
  next
    case False
    then have "s - d = of_nat (i - j)" using eq by (simp add: of_nat_diff algebra_simps)
    then show False using assms(2) ij n by (simp add: unat_of_nat_small)
  qed
qed

lemma disjoint_blocks_Suc:
  assumes "disjoint_blocks d s (Suc n)"
  shows "disjoint_blocks (d + 1) (s + 1) n"
  unfolding disjoint_blocks_def
proof (intro allI impI)
  fix i j assume "i < n" "j < n"
  then have "d + of_nat (Suc i) \<noteq> s + of_nat (Suc j)"
    using assms unfolding disjoint_blocks_def by blast
  then show "d + 1 + of_nat i \<noteq> s + 1 + of_nat j" by (simp add: ac_simps)
qed

lemma off_Suc: "unat (x - d) \<noteq> 0 \<Longrightarrow> unat (x - (d + 1 :: u64)) = unat (x - d) - 1"
proof -
  assume "unat (x - d) \<noteq> 0"
  then have "unat (1 :: u64) \<le> unat (x - d)" by simp
  then have "unat (x - d - 1) = unat (x - d) - 1" using unat_sub_ge [of 1 "x - d"] by simp
  then show ?thesis by (simp add: diff_diff_eq)
qed

lemma strcpy_correct_aux:
  "cstr m src xs \<Longrightarrow> disjoint_blocks p src (Suc (length xs)) \<Longrightarrow> length xs < 2 ^ 63 \<Longrightarrow>
   \<exists>m'. strcpy m p src = Some m' \<and> cstr m' p xs \<and>
        (\<forall>x. length xs < unat (x - p) \<longrightarrow> m' x = m x)"
proof (induction xs arbitrary: m p src)
  case Nil
  then show ?case by (subst strcpy.simps) (auto simp: unat_eq_0)
next
  case (Cons x xs)
  let ?m = "m(p := m src)"
  have dj: "disjoint_blocks (p + 1) (src + 1) (Suc (length xs))"
    using Cons.prems(2) by (intro disjoint_blocks_Suc) simp
  have "p + of_nat 0 \<noteq> src + of_nat (Suc i)" if "i \<le> length xs" for i
    using disjoint_blocksD [OF Cons.prems(2), of 0 "Suc i"] that by simp
  then have "cstr ?m (src + 1) xs" using Cons.prems(1) by (intro cstr_tail_frame) auto
  then obtain m' where m': "strcpy ?m (p + 1) (src + 1) = Some m'" "cstr m' (p + 1) xs"
    "\<forall>x. length xs < unat (x - (p + 1)) \<longrightarrow> m' x = ?m x"
    using Cons.IH [OF _ dj, of ?m] Cons.prems(3) by (metis Suc_lessD length_Cons)
  have "length xs < unat (p - (p + 1))" using Cons.prems(3) by simp
  then have "m' p = m src" using m'(3) by simp
  moreover have "m' x = m x" if "Suc (length xs) < unat (x - p)" for x
  proof -
    have "unat (x - (p + 1)) = unat (x - p) - 1" using that by (intro off_Suc) simp
    then have "m' x = ?m x" using m'(3) that by simp
    then show ?thesis using that by auto
  qed
  moreover have "strcpy m p src = Some m'" using Cons.prems(1) m'(1) by (subst strcpy.simps) simp
  ultimately show ?case using Cons.prems(1) m'(2) by auto
qed

lemma strcpy_term_loop_correct:
  "cstr m t xs \<Longrightarrow> disjoint_blocks s t (k + Suc (length xs)) \<Longrightarrow> k < 2 ^ 63 \<Longrightarrow>
   strcpy_term_loop m s t k = (m', s') \<Longrightarrow>
   cstr (m'(s' := 0)) s (take k xs) \<and> unat (s' - s) \<le> k \<and> (\<forall>x. k < unat (x - s) \<longrightarrow> m' x = m x)"
proof (induction k arbitrary: m s t xs)
  case 0
  then show ?case by simp
next
  case (Suc k)
  let ?m = "m(s := m t)"
  show ?case
  proof (cases xs)
    case Nil
    then have "m' = ?m" "s' = s + 1" "m t = 0" using Suc.prems by (auto simp: Let_def)
    then show ?thesis using Nil by auto
  next
    case (Cons x xs')
    have dj: "disjoint_blocks (s + 1) (t + 1) (k + Suc (length xs'))"
      using Suc.prems(2) Cons by (intro disjoint_blocks_Suc) (simp add: disjoint_blocks_def)
    have "s + of_nat 0 \<noteq> t + of_nat (Suc i)" if "i \<le> length xs'" for i
      using disjoint_blocksD [OF Suc.prems(2), of 0 "Suc i"] that Cons by simp
    then have c: "cstr ?m (t + 1) xs'" using Suc.prems(1) Cons by (intro cstr_tail_frame) auto
    have "strcpy_term_loop ?m (s + 1) (t + 1) k = (m', s')"
      using Suc.prems Cons by (simp add: Let_def)
    from Suc.IH [OF c dj _ this] Suc.prems(3)
    have IH: "cstr (m'(s' := 0)) (s + 1) (take k xs')" "unat (s' - (s + 1)) \<le> k"
      "\<forall>x. k < unat (x - (s + 1)) \<longrightarrow> m' x = ?m x" by (simp_all add: fun_upd_def)
    have ms: "m' s = m t" using IH(3) Suc.prems(3) by simp
    have "s' \<noteq> s" using IH(2) Suc.prems(3) by auto
    then have "unat (s' - s) \<noteq> 0" by (simp add: unat_eq_0)
    then have "unat (s' - s) \<le> Suc k" using off_Suc [of s' s] IH(2) by simp
    moreover have "m' x = m x" if "Suc k < unat (x - s)" for x
    proof -
      have "unat (x - (s + 1)) = unat (x - s) - 1" using that by (intro off_Suc) simp
      then have "m' x = ?m x" using IH(3) that by simp
      then show ?thesis using that by auto
    qed
    ultimately show ?thesis using IH(1) ms \<open>s' \<noteq> s\<close> Cons Suc.prems(1) by (auto simp: fun_upd_def)
  qed
qed

lemma strcpy_with_terminate_cstr:
  assumes "cstr m t xs" "0 < sint n" "disjoint_blocks s t (nat (sint n) + length xs)"
  shows "cstr (strcpy_with_terminate m s t n) s (take (nat (sint n) - 1) xs) \<and>
    (\<forall>x. nat (sint n) \<le> unat (x - s) \<longrightarrow> strcpy_with_terminate m s t n x = m x)"
proof -
  define k where "k = nat (sint n - 1)"
  have k: "nat (sint n) = Suc k" using assms(2) by (simp add: k_def)
  have k63: "k < 2 ^ 63" using sint_lt [of n] by (simp add: k_def)
  obtain m' s' where l: "strcpy_term_loop m s t k = (m', s')" by (cases "strcpy_term_loop m s t k")
  have eq: "strcpy_with_terminate m s t n = m'(s' := 0)"
    using l assms(2) by (simp add: strcpy_with_terminate_def k_def)
  have dj: "disjoint_blocks s t (k + Suc (length xs))" using assms(3) k by simp
  show ?thesis
    using strcpy_term_loop_correct [OF assms(1) dj k63 l] eq k by auto
qed

section \<open>Properties\<close>

text \<open>
  (C25) On two strings \<open>strcmp\<close> returns, with zero exactly when the strings are equal and a negative
  number exactly when the first comes before the second in the order of unsigned characters.
\<close>

theorem strcmp_correct:
  assumes "cstr m s1 xs" "cstr m s2 ys"
  shows "\<exists>r. strcmp m s1 s2 = Some r \<and> (r = 0 \<longleftrightarrow> xs = ys) \<and> (r < 0 \<longleftrightarrow> ord_class.lexordp xs ys)"
  using assms by (rule strcmp_spec)

definition demo_strings :: memory where
  "demo_strings = mem_of_list 0x100 [97, 98, 0, 97, 200, 0]"

theorem strcmp_correct_witness: "\<exists>r < 0. strcmp demo_strings 0x100 0x103 = Some r"
  using strcmp_correct [of demo_strings "0x100" "[97, 98]" "0x103" "[97, 200]"]
  by (auto simp: demo_strings_def mem_of_list_def)

text \<open>
  \<open>strcpy\<close> returns with a copy of the source string, terminator included, at the
  destination and writes nothing beyond it, when the two blocks do not meet.
\<close>

theorem strcpy_correct:
  assumes "cstr m src xs" "disjoint_blocks p src (Suc (length xs))" "length xs < 2 ^ 63"
  shows "\<exists>m'. strcpy m p src = Some m' \<and> cstr m' p xs \<and>
    (\<forall>x. length xs < unat (x - p) \<longrightarrow> m' x = m x)"
  using assms by (rule strcpy_correct_aux)

theorem strcpy_correct_witness: "\<exists>m'. strcpy demo_strings 0x200 0x103 = Some m' \<and> cstr m' 0x200 [97, 200]"
proof -
  have "cstr demo_strings 0x103 [97, 200]" by (simp add: demo_strings_def mem_of_list_def)
  moreover have "disjoint_blocks 0x200 0x103 (Suc (length [97 :: u8, 200]))"
    by (rule disjoint_blocksI) simp_all
  ultimately show ?thesis using strcpy_correct by fastforce
qed

text \<open>
  (C26) \<open>strcpy_with_terminate\<close> leaves at the destination a terminated string of at most \<open>n - 1\<close>
  characters, the source's prefix of that length, and writes nothing beyond \<open>n\<close> bytes.
\<close>

theorem strcpy_with_terminate_correct:
  assumes "cstr m t xs" "0 < sint n" "disjoint_blocks s t (nat (sint n) + length xs)"
  shows "cstr (strcpy_with_terminate m s t n) s (take (nat (sint n) - 1) xs) \<and>
    (\<forall>x. nat (sint n) \<le> unat (x - s) \<longrightarrow> strcpy_with_terminate m s t n x = m x)"
  using assms by (rule strcpy_with_terminate_cstr)

theorem strcpy_with_terminate_correct_witness:
  "cstr (strcpy_with_terminate demo_strings 0x200 0x103 2) 0x200 [97]"
proof -
  have "cstr demo_strings 0x103 [97, 200]" by (simp add: demo_strings_def mem_of_list_def)
  moreover have "disjoint_blocks 0x200 0x103 (nat (sint (2 :: i32)) + length [97 :: u8, 200])"
    by (rule disjoint_blocksI) simp_all
  ultimately show ?thesis using strcpy_with_terminate_correct [of demo_strings "0x103" "[97, 200]" 2 "0x200"] by simp
qed

end
