(* ===== verification/Fdt.thy ===== *)
theory Fdt
  imports Lib Cstring
begin

text \<open>
  kernel/fdt.c: the flattened device tree that the firmware hands to the kernel. The operations
  read the blob from memory; the loops over its tokens are \<open>partial_function (option)\<close>, since on
  a malformed blob they may run for ever.
\<close>

section \<open>Tokens and words\<close>

definition FDT_BEGIN_NODE :: u32 where "FDT_BEGIN_NODE = 1"
definition FDT_END_NODE :: u32 where "FDT_END_NODE = 2"
definition FDT_PROP :: u32 where "FDT_PROP = 3"
definition FDT_NOP :: u32 where "FDT_NOP = 4"
definition FDT_END :: u32 where "FDT_END = 9"

definition CHAR_BUFF_SIZE :: u32 where "CHAR_BUFF_SIZE = 128"

definition ALIGN_UP :: "u64 \<Rightarrow> u64 \<Rightarrow> u64" where
  "ALIGN_UP addr align = (addr + align - 1) AND NOT (align - 1)"

definition bte32 :: "memory \<Rightarrow> u64 \<Rightarrow> u32" where
  "bte32 m p = push_bit 24 (ucast (m p)) OR push_bit 16 (ucast (m (p + 1))) OR
     push_bit 8 (ucast (m (p + 2))) OR ucast (m (p + 3))"

definition bte64 :: "memory \<Rightarrow> u64 \<Rightarrow> u64" where
  "bte64 m p = push_bit 32 (ucast (bte32 m p)) OR ucast (bte32 m (p + 4))"

section \<open>The header\<close>

record fdt_header =
  magic :: u32
  totalsize :: u32
  off_dt_struct :: u32
  off_dt_strings :: u32
  off_mem_rsvmap :: u32
  version :: u32
  last_comp_version :: u32
  boot_cpuid_phys :: u32
  size_dt_strings :: u32
  size_dt_struct :: u32

record fdt_root_info =
  compatible :: u64
  compatible_len :: u32
  model :: u64
  model_len :: u32
  address_cells :: u32
  size_cells :: u32

record fdt_state =
  ft_base_addr :: u64
  fh_struct :: fdt_header
  fri_struct :: fdt_root_info
  sub_node_base_addr :: u64
  fdt_init_status :: u8

definition read_header :: "memory \<Rightarrow> u64 \<Rightarrow> fdt_header" where
  "read_header m ch =
     \<lparr>magic = bte32 m ch, totalsize = bte32 m (ch + 4), off_dt_struct = bte32 m (ch + 8),
      off_dt_strings = bte32 m (ch + 12), off_mem_rsvmap = bte32 m (ch + 16),
      version = bte32 m (ch + 20), last_comp_version = bte32 m (ch + 24),
      boot_cpuid_phys = bte32 m (ch + 28), size_dt_strings = bte32 m (ch + 32),
      size_dt_struct = bte32 m (ch + 36)\<rparr>"

definition GET_STR_OFFSET :: "fdt_state \<Rightarrow> u64 \<Rightarrow> u64" where
  "GET_STR_OFFSET st offset = ft_base_addr st + ucast (off_dt_strings (fh_struct st)) + offset"

text \<open>
  The string literals of the kernel image are parameters: \<open>lit s\<close> is the address of the literal
  \<open>s\<close> of the source.
\<close>

type_synonym literals = "string \<Rightarrow> u64"

definition root_prop :: "literals \<Rightarrow> memory \<Rightarrow> u64 \<Rightarrow> u64 \<Rightarrow> u32 \<Rightarrow> fdt_root_info \<Rightarrow> fdt_root_info option" where
  "root_prop lit m prop_name root_ptr prop_len fri =
     Option.bind (strcmp m (lit ''compatible'') prop_name) (\<lambda>c.
     if c = 0 then Some (fri\<lparr>compatible_len := prop_len, compatible := root_ptr\<rparr>)
     else Option.bind (strcmp m (lit ''model'') prop_name) (\<lambda>c.
     if c = 0 then Some (fri\<lparr>model_len := prop_len, model := root_ptr\<rparr>)
     else Option.bind (strcmp m (lit ''#address-cells'') prop_name) (\<lambda>c.
     if c = 0 then Some (fri\<lparr>address_cells := bte32 m root_ptr\<rparr>)
     else Option.bind (strcmp m (lit ''#size-cells'') prop_name) (\<lambda>c.
     if c = 0 then Some (fri\<lparr>size_cells := bte32 m root_ptr\<rparr>) else Some fri))))"

partial_function (option) root_props ::
  "literals \<Rightarrow> memory \<Rightarrow> fdt_state \<Rightarrow> u64 \<Rightarrow> (fdt_state \<times> u64) option" where
  "root_props lit m st root_ptr =
     (if bte32 m root_ptr = FDT_PROP then
        let prop_len = bte32 m (root_ptr + 4);
            prop_name = GET_STR_OFFSET st (ucast (bte32 m (root_ptr + 8)))
        in Option.bind (root_prop lit m prop_name (root_ptr + 12) prop_len (fri_struct st))
             (\<lambda>fri. root_props lit m (st\<lparr>fri_struct := fri\<rparr>)
                      (ALIGN_UP (root_ptr + 12 + scast prop_len) 4))
      else Some (st, root_ptr))"

definition fdt_header_init :: "literals \<Rightarrow> memory \<Rightarrow> fdt_state \<Rightarrow> fdt_state option" where
  "fdt_header_init lit m st =
     (let st1 = st\<lparr>fh_struct := read_header m (ft_base_addr st)\<rparr>;
          root_ptr = ft_base_addr st1 + ucast (off_dt_struct (fh_struct st1))
      in Option.bind (root_props lit m st1 (ALIGN_UP (root_ptr + 5) 4))
           (\<lambda>(st2, p). Some (if bte32 m p = FDT_BEGIN_NODE
                             then st2\<lparr>sub_node_base_addr := p\<rparr> else st2)))"

section \<open>Walking the nodes\<close>

definition skip_prop :: "memory \<Rightarrow> u64 \<Rightarrow> u64" where
  "skip_prop m p = (let len = bte32 m (p + 4) in ALIGN_UP (p + 4 + 8 + scast len) 4)"

definition node_body :: "memory \<Rightarrow> u64 \<Rightarrow> u64 option" where
  "node_body m p = map_option (\<lambda>len. ALIGN_UP (p + 4 + (len + 1)) 4) (strlen m (p + 4))"

partial_function (option) skip_tokens :: "memory \<Rightarrow> u64 \<Rightarrow> u64 option" where
  "skip_tokens m p =
     (let token = bte32 m p in
      if token = FDT_END_NODE then Some (p + 4)
      else if token = FDT_PROP then
        skip_tokens m (ALIGN_UP (p + 4 + ucast (8 + bte32 m (p + 4))) 4)
      else if token = FDT_BEGIN_NODE then
        Option.bind (node_body m p) (\<lambda>b. Option.bind (skip_tokens m b) (skip_tokens m))
      else if token = FDT_NOP then skip_tokens m (p + 4)
      else Some p)"

definition skip_subtree :: "memory \<Rightarrow> u64 \<Rightarrow> u64 option" where
  "skip_subtree m p = Option.bind (node_body m p) (skip_tokens m)"

text \<open>
  A callback gets the address of the name, the depth and the address of the node, and may change
  memory and a state of its own.
\<close>

type_synonym 'd callback = "u64 \<Rightarrow> nat \<Rightarrow> u64 \<Rightarrow> memory \<times> 'd \<Rightarrow> (int \<times> memory \<times> 'd) option"

definition enter_node ::
  "'d callback \<Rightarrow> nat \<Rightarrow> u64 \<Rightarrow> memory \<times> 'd \<Rightarrow> ((int \<times> u64 \<times> memory \<times> 'd) + (u64 \<times> memory \<times> 'd)) option" where
  "enter_node callback depth p st =
     (if bte32 (fst st) p \<noteq> FDT_BEGIN_NODE then Some (Inl (- 1, p, st))
      else Option.bind (callback (p + 4) depth p st) (\<lambda>(ret, st').
        if ret = - 1 then map_option (\<lambda>q. Inl (- 1, q, st')) (skip_subtree (fst st') p)
        else if ret = 1 then map_option (\<lambda>q. Inl (0, q, st')) (skip_subtree (fst st') p)
        else map_option (\<lambda>b. Inr (b, st')) (node_body (fst st') p)))"

partial_function (option) walk_tokens ::
  "'d callback \<Rightarrow> nat \<Rightarrow> u64 \<Rightarrow> u64 \<Rightarrow> memory \<times> 'd \<Rightarrow> (int \<times> u64 \<times> memory \<times> 'd) option" where
  "walk_tokens callback depth ptr p st =
     (let token = bte32 (fst st) p in
      if token = FDT_END_NODE then Some (0, p + 4, st)
      else if token = FDT_PROP then walk_tokens callback depth ptr (skip_prop (fst st) p) st
      else if token = FDT_BEGIN_NODE then
        Option.bind (enter_node callback (Suc depth) p st) (\<lambda>r.
        Option.bind (case r of Inl res \<Rightarrow> Some res
                     | Inr (b, st') \<Rightarrow> walk_tokens callback (Suc depth) p b st')
          (\<lambda>(ret, ptr', st').
             if ret = - 1 then Some (- 1, ptr', st')
             else walk_tokens callback depth ptr' ptr' st'))
      else if token = FDT_NOP then walk_tokens callback depth ptr (p + 4) st
      else Some (- 1, ptr, st))"

definition walk_node ::
  "'d callback \<Rightarrow> nat \<Rightarrow> u64 \<Rightarrow> memory \<times> 'd \<Rightarrow> (int \<times> u64 \<times> memory \<times> 'd) option" where
  "walk_node callback depth p st =
     Option.bind (enter_node callback depth p st) (\<lambda>r.
       case r of Inl res \<Rightarrow> Some res | Inr (b, st') \<Rightarrow> walk_tokens callback depth p b st')"

partial_function (option) fdt_walk_nodes ::
  "'d callback \<Rightarrow> u64 \<Rightarrow> memory \<times> 'd \<Rightarrow> (memory \<times> 'd) option" where
  "fdt_walk_nodes callback ptr st =
     (if bte32 (fst st) ptr = FDT_BEGIN_NODE then
        Option.bind (walk_node callback 0 ptr st) (\<lambda>(res, ptr', st').
          if res = - 1 then Some st' else fdt_walk_nodes callback ptr' st')
      else Some st)"

definition walk_fdt :: "unit callback" where
  "walk_fdt name depth node_ptr st = Some (0, st)"

definition init_fdt :: "literals \<Rightarrow> memory \<Rightarrow> u64 \<Rightarrow> fdt_state \<Rightarrow> fdt_state option" where
  "init_fdt lit m ft_addr st =
     (if fdt_init_status st = 1 then Some st
      else Option.bind (fdt_header_init lit m (st\<lparr>ft_base_addr := ft_addr\<rparr>)) (\<lambda>st'.
        map_option (\<lambda>_. st'\<lparr>fdt_init_status := 1\<rparr>)
          (fdt_walk_nodes walk_fdt (sub_node_base_addr st') (m, ()))))"

section \<open>Reading properties\<close>

partial_function (option) skip_nops :: "memory \<Rightarrow> u64 \<Rightarrow> u64 option" where
  "skip_nops m start = (if bte32 m start = FDT_NOP then skip_nops m (start + 4) else Some start)"

partial_function (option) find_prop ::
  "fdt_state \<Rightarrow> memory \<Rightarrow> u64 \<Rightarrow> u64 \<Rightarrow> u64 \<Rightarrow> i32 \<Rightarrow> (int \<times> memory) option" where
  "find_prop st m start prop_name dest sz =
     (if bte32 m start = FDT_PROP then
        let len = bte32 m (start + 4); name_off = bte32 m (start + 8); start = start + 12 in
        Option.bind (strcmp m (GET_STR_OFFSET st (scast name_off)) prop_name) (\<lambda>c.
          if c \<noteq> 0 then
            Option.bind (skip_nops m (ALIGN_UP (start + scast len) 4))
              (\<lambda>start. find_prop st m start prop_name dest sz)
          else if sint sz < sint len then Some (- 1, m)
          else map_option (Pair (sint len)) (memcpy m dest start (scast len)))
      else Some (0, m))"

definition read_node_prop ::
  "fdt_state \<Rightarrow> memory \<Rightarrow> u64 \<Rightarrow> u64 \<Rightarrow> u64 \<Rightarrow> i32 \<Rightarrow> (int \<times> memory) option" where
  "read_node_prop st m start prop_name dest sz =
     (if bte32 m start \<noteq> FDT_BEGIN_NODE then Some (- 1, m)
      else Option.bind (strlen m (start + 4)) (\<lambda>l.
        let len = ucast l :: i32 in
        if CHAR_BUFF_SIZE - 1 < len then Some (- 1, m)
        else find_prop st m (ALIGN_UP (start + 4 + scast (len + 1)) 4) prop_name dest sz))"

definition read_node_name :: "memory \<Rightarrow> u64 \<Rightarrow> u64 \<Rightarrow> memory option" where
  "read_node_name m start buf =
     Option.bind (strlen m (start + 4)) (\<lambda>l. let len = ucast l :: i32 in
       if CHAR_BUFF_SIZE - 1 < len then Some m
       else map_option (\<lambda>m'. m'(buf + scast len := 0)) (memcpy m buf (start + 4) (scast len)))"

section \<open>Device trees and their flattened form\<close>

text \<open>
  A node has a name and a sequence of properties (offset of the property's name in the strings
  block, value), child nodes and padding tokens. \<open>node_end p t\<close> is the address after the flattened
  form of \<open>t\<close> at \<open>p\<close>, and \<open>flat_node m p t\<close> says that memory holds it.
\<close>

datatype dtree = DNode "u8 list" "ditem list"
  and ditem = DProp u32 "u8 list" | DChild dtree | DNop

definition body_addr :: "u64 \<Rightarrow> u8 list \<Rightarrow> u64" where
  "body_addr p nm = ALIGN_UP (p + 4 + of_nat (length nm + 1)) 4"

fun node_end :: "u64 \<Rightarrow> dtree \<Rightarrow> u64" and items_end :: "u64 \<Rightarrow> ditem list \<Rightarrow> u64"
  and item_end :: "u64 \<Rightarrow> ditem \<Rightarrow> u64" where
  "node_end p (DNode nm its) = items_end (body_addr p nm) its + 4"
| "items_end p [] = p"
| "items_end p (x # xs) = items_end (item_end p x) xs"
| "item_end p (DProp off v) = ALIGN_UP (p + 12 + of_nat (length v)) 4"
| "item_end p (DChild t) = node_end p t"
| "item_end p DNop = p + 4"

fun flat_node :: "memory \<Rightarrow> u64 \<Rightarrow> dtree \<Rightarrow> bool" and flat_items :: "memory \<Rightarrow> u64 \<Rightarrow> ditem list \<Rightarrow> bool"
  and flat_item :: "memory \<Rightarrow> u64 \<Rightarrow> ditem \<Rightarrow> bool" where
  "flat_node m p (DNode nm its) \<longleftrightarrow>
     (let b = body_addr p nm in
      bte32 m p = FDT_BEGIN_NODE \<and> cstr m (p + 4) nm \<and> flat_items m b its \<and>
      bte32 m (items_end b its) = FDT_END_NODE)"
| "flat_items m p [] \<longleftrightarrow> True"
| "flat_items m p (x # xs) \<longleftrightarrow> flat_item m p x \<and> flat_items m (item_end p x) xs"
| "flat_item m p (DProp off v) \<longleftrightarrow>
     bte32 m p = FDT_PROP \<and> bte32 m (p + 4) = of_nat (length v) \<and> length v < 2 ^ 31 - 8 \<and>
     bte32 m (p + 8) = off \<and> bytes m (p + 12) (length v) = v"
| "flat_item m p (DChild t) \<longleftrightarrow> flat_node m p t"
| "flat_item m p DNop \<longleftrightarrow> bte32 m p = FDT_NOP"

text \<open>The nodes in the order of the blob: address and depth.\<close>

fun preorder :: "nat \<Rightarrow> u64 \<Rightarrow> dtree \<Rightarrow> (nat \<times> u64) list"
  and preorder_items :: "nat \<Rightarrow> u64 \<Rightarrow> ditem list \<Rightarrow> (nat \<times> u64) list"
  and preorder_item :: "nat \<Rightarrow> u64 \<Rightarrow> ditem \<Rightarrow> (nat \<times> u64) list" where
  "preorder d p (DNode nm its) =
     (d, p) # preorder_items d (body_addr p nm) its"
| "preorder_items d p [] = []"
| "preorder_items d p (x # xs) = preorder_item d p x @ preorder_items d (item_end p x) xs"
| "preorder_item d p (DProp off v) = []"
| "preorder_item d p (DChild t) = preorder (Suc d) p t"
| "preorder_item d p DNop = []"

lemmas fdt_tokens = FDT_BEGIN_NODE_def FDT_END_NODE_def FDT_PROP_def FDT_NOP_def FDT_END_def

lemma node_body_flat:
  "cstr m (p + 4) nm \<Longrightarrow> node_body m p = Some (body_addr p nm)"
  by (simp add: node_body_def body_addr_def strlen_def strlen_loop_cstr ac_simps)

lemma flat_node_begin: "flat_node m p t \<Longrightarrow> bte32 m p = FDT_BEGIN_NODE"
  by (cases t) (simp add: Let_def)

lemma scast_small_u32: "n < 2 ^ 31 \<Longrightarrow> (scast (of_nat n :: u32) :: u64) = of_nat n"
proof -
  assume n: "n < 2 ^ 31"
  have "sint (of_nat n :: u32) = int n"
    using n by (simp add: signed_of_nat signed_take_bit_int_eq_self)
  then show ?thesis by (metis of_int_of_nat_eq of_int_sint)
qed

lemma ucast_small_u32: "n < 2 ^ 32 \<Longrightarrow> (ucast (of_nat n :: u32) :: u64) = of_nat n"
proof -
  assume "n < 2 ^ 32"
  then have "unat (of_nat n :: u32) = n" by (simp add: unat_of_nat)
  then show ?thesis using \<open>n < 2 ^ 32\<close> by (simp add: word_unat_eq_iff unat_ucast_u32 unat_of_nat_small)
qed

lemma skip_prop_flat:
  assumes "flat_item m p (DProp off v)"
  shows "skip_prop m p = item_end p (DProp off v)"
  using assms scast_small_u32 [of "length v"] by (simp add: skip_prop_def ac_simps)

lemma skip_flat:
  "flat_node m p t \<Longrightarrow> skip_subtree m p = Some (node_end p t)"
  "flat_items m p its \<Longrightarrow> bte32 m (items_end p its) = FDT_END_NODE \<Longrightarrow>
     skip_tokens m p = Some (items_end p its + 4)"
  "flat_item m p x \<Longrightarrow> skip_tokens m p = skip_tokens m (item_end p x)"
proof (induction p t and p its and p x rule: node_end_items_end_item_end.induct)
  case (1 p nm its)
  then show ?case by (auto simp: skip_subtree_def node_body_flat Let_def)
next
  case (2 p)
  then show ?case by (subst skip_tokens.simps) simp
next
  case (3 p x xs)
  then show ?case by simp
next
  case (4 p off v)
  have "(ucast (8 + of_nat (length v) :: u32) :: u64) = of_nat (8 + length v)"
    using ucast_small_u32 [of "8 + length v"] 4 by simp
  then show ?case using 4 by (subst skip_tokens.simps) (simp add: fdt_tokens ac_simps)
next
  case (5 p t)
  obtain nm its where t: "t = DNode nm its" by (cases t)
  have "bte32 m p = FDT_BEGIN_NODE" using 5(2) t by (simp add: Let_def)
  then have "skip_tokens m p = Option.bind (skip_subtree m p) (skip_tokens m)"
    by (subst skip_tokens.simps) (simp add: skip_subtree_def fdt_tokens)
  then show ?case using 5 by simp
next
  case (6 p)
  then show ?case by (subst skip_tokens.simps) (simp add: fdt_tokens)
qed

section \<open>The walk visits the tree in preorder\<close>

fun run_callback :: "'d callback \<Rightarrow> (nat \<times> u64) list \<Rightarrow> memory \<times> 'd \<Rightarrow> (memory \<times> 'd) option" where
  "run_callback cb [] st = Some st"
| "run_callback cb ((d, p) # xs) st = Option.bind (cb (p + 4) d p st) (\<lambda>(_, st'). run_callback cb xs st')"

lemma run_callback_append:
  "run_callback cb (xs @ ys) st = Option.bind (run_callback cb xs st) (run_callback cb ys)"
  by (induction cb xs st rule: run_callback.induct) (auto split: prod.splits Option.bind_splits)

lemma walk_flat:
  assumes cb: "\<And>d p st. (d, p) \<in> V \<Longrightarrow> I st \<Longrightarrow> \<exists>st'. cb (p + 4) d p st = Some (0, st') \<and> I st'"
  shows
  "(\<forall>st. I st \<longrightarrow> flat_node (fst st) p t) \<Longrightarrow> I st \<Longrightarrow> set (preorder d p t) \<subseteq> V \<Longrightarrow>
     \<exists>st'. run_callback cb (preorder d p t) st = Some st' \<and> I st' \<and>
       walk_node cb d p st = Some (0, node_end p t, st')"
  "(\<forall>st. I st \<longrightarrow> flat_items (fst st) p its \<and> bte32 (fst st) (items_end p its) = FDT_END_NODE) \<Longrightarrow>
     I st \<Longrightarrow> set (preorder_items d p its) \<subseteq> V \<Longrightarrow>
     \<exists>st'. run_callback cb (preorder_items d p its) st = Some st' \<and> I st' \<and>
       walk_tokens cb d ptr p st = Some (0, items_end p its + 4, st')"
  "(\<forall>st. I st \<longrightarrow> flat_item (fst st) p x) \<Longrightarrow> I st \<Longrightarrow> set (preorder_item d p x) \<subseteq> V \<Longrightarrow>
     \<exists>st' ptr'. run_callback cb (preorder_item d p x) st = Some st' \<and> I st' \<and>
       walk_tokens cb d ptr p st = walk_tokens cb d ptr' (item_end p x) st'"
proof (induction p t and p its and p x arbitrary: d st and d st ptr and d st ptr
    rule: node_end_items_end_item_end.induct)
  case (1 p nm its)
  obtain st1 where st1: "cb (p + 4) d p st = Some (0, st1)" "I st1" using cb [OF _ 1(3), of d p] 1(4) by auto
  have f: "bte32 (fst st) p = FDT_BEGIN_NODE" "cstr (fst st1) (p + 4) nm"
    using 1(2) [rule_format, OF 1(3)] 1(2) [rule_format, OF st1(2)] by (simp_all add: Let_def)
  have "\<forall>st. I st \<longrightarrow> flat_items (fst st) (body_addr p nm) its \<and>
      bte32 (fst st) (items_end (body_addr p nm) its) = FDT_END_NODE"
    using 1(2) by (auto simp: Let_def)
  from 1(1) [OF this st1(2), of d p] 1(4) obtain st' where
    "run_callback cb (preorder_items d (body_addr p nm) its) st1 = Some st'" "I st'"
    "walk_tokens cb d p (body_addr p nm) st1 = Some (0, items_end (body_addr p nm) its + 4, st')"
    by auto
  then show ?case
    using st1(1) f by (auto simp: walk_node_def enter_node_def node_body_flat)
next
  case (2 p)
  then have "bte32 (fst st) p = FDT_END_NODE" using 2(1) [rule_format, OF 2(2)] by simp
  then show ?case using 2(2) by (subst walk_tokens.simps) simp
next
  case (3 p x xs)
  have "\<forall>st. I st \<longrightarrow> flat_item (fst st) p x" using 3(3) by auto
  from 3(1) [OF this 3(4), of d] 3(5) obtain st1 ptr1 where
    a: "run_callback cb (preorder_item d p x) st = Some st1" "I st1"
      "walk_tokens cb d ptr p st = walk_tokens cb d ptr1 (item_end p x) st1" by fastforce
  have "\<forall>st. I st \<longrightarrow> flat_items (fst st) (item_end p x) xs \<and>
      bte32 (fst st) (items_end (item_end p x) xs) = FDT_END_NODE" using 3(3) by auto
  from 3(2) [OF this a(2), of d] show ?case using a 3(5) by (simp add: run_callback_append)
next
  case (4 p off v)
  then have f: "flat_item (fst st) p (DProp off v)" by blast
  then have "walk_tokens cb d ptr p st = walk_tokens cb d ptr (item_end p (DProp off v)) st"
    by (subst walk_tokens.simps) (simp add: fdt_tokens skip_prop_flat [OF f, simplified])
  then show ?case using 4(2) by auto
next
  case (5 p t)
  have fl: "\<forall>st. I st \<longrightarrow> flat_node (fst st) p t" using 5(2) by auto
  from 5(1) [OF this 5(3), of "Suc d"] 5(4) obtain st' where
    w: "run_callback cb (preorder (Suc d) p t) st = Some st'" "I st'"
      "walk_node cb (Suc d) p st = Some (0, node_end p t, st')" by auto
  have "bte32 (fst st) p = FDT_BEGIN_NODE" using fl 5(3) by (blast intro: flat_node_begin)
  then have "walk_tokens cb d ptr p st = Option.bind (walk_node cb (Suc d) p st)
      (\<lambda>(ret, ptr', st'). if ret = - 1 then Some (- 1, ptr', st') else walk_tokens cb d ptr' ptr' st')"
    by (subst walk_tokens.simps)
      (simp add: walk_node_def fdt_tokens bind_assoc)
  then show ?case using w by auto
next
  case (6 p)
  then have "bte32 (fst st) p = FDT_NOP" using 6(1) [rule_format, OF 6(2)] by simp
  then have "walk_tokens cb d ptr p st = walk_tokens cb d ptr (p + 4) st"
    by (subst walk_tokens.simps) (simp add: fdt_tokens)
  then show ?case using 6(2) by auto
qed

text \<open>The top-level walk: sibling nodes one after the other.\<close>

fun nodes_end :: "u64 \<Rightarrow> dtree list \<Rightarrow> u64" where
  "nodes_end p [] = p"
| "nodes_end p (t # ts) = nodes_end (node_end p t) ts"

fun flat_nodes :: "memory \<Rightarrow> u64 \<Rightarrow> dtree list \<Rightarrow> bool" where
  "flat_nodes m p [] \<longleftrightarrow> bte32 m p \<noteq> FDT_BEGIN_NODE"
| "flat_nodes m p (t # ts) \<longleftrightarrow> flat_node m p t \<and> flat_nodes m (node_end p t) ts"

fun preorder_nodes :: "u64 \<Rightarrow> dtree list \<Rightarrow> (nat \<times> u64) list" where
  "preorder_nodes p [] = []"
| "preorder_nodes p (t # ts) = preorder 0 p t @ preorder_nodes (node_end p t) ts"

lemma fdt_walk_nodes_visited:
  assumes cb: "\<And>d p st. (d, p) \<in> V \<Longrightarrow> I st \<Longrightarrow> \<exists>st'. cb (p + 4) d p st = Some (0, st') \<and> I st'"
  shows "(\<And>st. I st \<Longrightarrow> flat_nodes (fst st) p ts) \<Longrightarrow> I st \<Longrightarrow> set (preorder_nodes p ts) \<subseteq> V \<Longrightarrow>
    \<exists>st'. fdt_walk_nodes cb p st = Some st' \<and> run_callback cb (preorder_nodes p ts) st = Some st' \<and> I st'"
proof (induction ts arbitrary: p st)
  case Nil
  then show ?case by (subst fdt_walk_nodes.simps) auto
next
  case (Cons t ts)
  have "\<forall>st. I st \<longrightarrow> flat_node (fst st) p t" using Cons.prems(1) by auto
  from walk_flat(1) [of V I cb, OF cb this Cons.prems(2), of 0] Cons.prems(3)
  obtain st1 where st1: "run_callback cb (preorder 0 p t) st = Some st1" "I st1"
    "walk_node cb 0 p st = Some (0, node_end p t, st1)" by auto
  have "bte32 (fst st) p = FDT_BEGIN_NODE"
    using Cons.prems(1) [OF Cons.prems(2)] by (auto intro: flat_node_begin)
  then have "fdt_walk_nodes cb p st = fdt_walk_nodes cb (node_end p t) st1"
    using st1(3) by (subst fdt_walk_nodes.simps) simp
  moreover have "\<exists>st'. fdt_walk_nodes cb (node_end p t) st1 = Some st' \<and>
      run_callback cb (preorder_nodes (node_end p t) ts) st1 = Some st' \<and> I st'"
    by (rule Cons.IH [OF _ st1(2)]) (use Cons.prems(1,3) in auto)
  ultimately show ?case using st1(1) by (auto simp: run_callback_append)
qed

lemma fdt_walk_nodes_flat:
  assumes "\<And>nm d p st. I st \<Longrightarrow> \<exists>st'. cb nm d p st = Some (0, st') \<and> I st'"
    and "\<And>st. I st \<Longrightarrow> flat_nodes (fst st) p ts" and "I st"
  shows "\<exists>st'. fdt_walk_nodes cb p st = Some st' \<and> run_callback cb (preorder_nodes p ts) st = Some st' \<and> I st'"
  by (rule fdt_walk_nodes_visited [of UNIV I cb]) (use assms in auto)

section \<open>Property lookup\<close>

text \<open>\<open>name_at st m off nm\<close>: the strings block holds the name \<open>nm\<close> at offset \<open>off\<close>.\<close>

definition name_at :: "fdt_state \<Rightarrow> memory \<Rightarrow> u32 \<Rightarrow> u8 list \<Rightarrow> bool" where
  "name_at st m off nm \<longleftrightarrow> cstr m (GET_STR_OFFSET st (scast off)) nm"

lemma strcmp_cstr_eq:
  assumes "cstr m s1 xs" "cstr m s2 ys"
  shows "\<exists>r. strcmp m s1 s2 = Some r \<and> (r = 0 \<longleftrightarrow> xs = ys)"
  using strcmp_spec [OF assms] by blast

text \<open>The value of the first property with a given name, and where it lies in memory.\<close>

fun lookup_prop :: "u64 \<Rightarrow> u8 list \<Rightarrow> ((u8 list \<times> u32) \<times> u8 list) list \<Rightarrow> (u64 \<times> u8 list) option" where
  "lookup_prop p nm [] = None"
| "lookup_prop p nm (((n, off), v) # ps) =
     (if n = nm then Some (p + 12, v) else lookup_prop (item_end p (DProp off v)) nm ps)"

lemma lookup_prop_length:
  "flat_items m p (map (\<lambda>((n, off), v). DProp off v) ps) \<Longrightarrow> lookup_prop p' nm ps = Some (a, v) \<Longrightarrow> length v < 2 ^ 31"
  by (induction p' nm ps arbitrary: p rule: lookup_prop.induct) (auto split: if_splits)

lemma memcpy_returns: "n < 2 ^ 31 \<Longrightarrow> \<exists>m'. memcpy m dest src (of_nat n) = Some m'"
  by (rule exI, rule memcpy_eq_move) (simp add: unat_of_nat_small)

lemma find_prop_flat:
  assumes "cstr m prop_name nm"
  shows "flat_items m p (map (\<lambda>((n, off), v). DProp off v) ps) \<Longrightarrow>
    (\<And>n off v. ((n, off), v) \<in> set ps \<Longrightarrow> name_at st m off n) \<Longrightarrow>
    bte32 m (items_end p (map (\<lambda>((n, off), v). DProp off v) ps)) \<notin> {FDT_PROP, FDT_NOP} \<Longrightarrow>
    find_prop st m p prop_name dest sz =
      (case lookup_prop p nm ps of
         None \<Rightarrow> Some (0, m)
       | Some (a, v) \<Rightarrow> if sint sz < int (length v) then Some (- 1, m)
                       else map_option (Pair (int (length v))) (memcpy m dest a (of_nat (length v))))"
proof (induction ps arbitrary: p)
  case Nil
  then show ?case by (subst find_prop.simps) simp
next
  case (Cons q ps)
  obtain n off v where q: "q = ((n, off), v)" by (metis surj_pair)
  have f: "flat_item m p (DProp off v)" using Cons.prems(1) q by simp
  then have h: "bte32 m p = FDT_PROP" "bte32 m (p + 4) = of_nat (length v)" "bte32 m (p + 8) = off"
    "length v < 2 ^ 31" by simp_all
  have sc: "(scast (of_nat (length v) :: u32) :: u64) = of_nat (length v)"
    "sint (of_nat (length v) :: u32) = int (length v)"
    using scast_small_u32 [OF h(4)] h(4) by (simp_all add: signed_of_nat signed_take_bit_int_eq_self)
  have "name_at st m off n" using Cons.prems(2) [of n off v] q by simp
  then obtain r where r: "strcmp m (GET_STR_OFFSET st (scast off)) prop_name = Some r" "r = 0 \<longleftrightarrow> n = nm"
    using strcmp_cstr_eq assms unfolding name_at_def by blast
  have e: "ALIGN_UP (p + 12 + of_nat (length v)) 4 = item_end p (DProp off v)" by simp
  show ?case
  proof (cases "n = nm")
    case True
    then show ?thesis using h r sc q by (subst find_prop.simps) (simp add: Let_def)
  next
    case False
    have "bte32 m (item_end p (DProp off v)) \<noteq> FDT_NOP"
      using Cons.prems(1,3) q by (cases ps) (auto simp: fdt_tokens)
    then have "skip_nops m (item_end p (DProp off v)) = Some (item_end p (DProp off v))"
      by (subst skip_nops.simps) simp
    then have "find_prop st m p prop_name dest sz = find_prop st m (item_end p (DProp off v)) prop_name dest sz"
      using h r sc(1) False by (subst find_prop.simps) (simp add: Let_def)
    also have "\<dots> = (case lookup_prop (item_end p (DProp off v)) nm ps of
         None \<Rightarrow> Some (0, m)
       | Some (a, v) \<Rightarrow> if sint sz < int (length v) then Some (- 1, m)
                       else map_option (Pair (int (length v))) (memcpy m dest a (of_nat (length v))))"
      by (rule Cons.IH) (use Cons.prems q in auto)
    finally show ?thesis using False q by simp
  qed
qed

lemma read_node_prop_flat:
  assumes "bte32 m p = FDT_BEGIN_NODE" "cstr m (p + 4) nm" "length nm < 128"
    and "cstr m prop_name pn"
    and "flat_items m (body_addr p nm) (map (\<lambda>((n, off), v). DProp off v) ps)"
    and "\<And>n off v. ((n, off), v) \<in> set ps \<Longrightarrow> name_at st m off n"
    and "bte32 m (items_end (body_addr p nm) (map (\<lambda>((n, off), v). DProp off v) ps)) \<notin> {FDT_PROP, FDT_NOP}"
  shows "read_node_prop st m p prop_name dest sz =
      (case lookup_prop (body_addr p nm) pn ps of
         None \<Rightarrow> Some (0, m)
       | Some (a, v) \<Rightarrow> if sint sz < int (length v) then Some (- 1, m)
                       else map_option (Pair (int (length v))) (memcpy m dest a (of_nat (length v))))"
proof -
  have l: "strlen m (p + 4) = Some (of_nat (length nm))"
    using assms(2) by (simp add: strlen_def strlen_loop_cstr)
  have u: "(ucast (of_nat (length nm) :: u64) :: u32) = of_nat (length nm)"
    using assms(3) by (simp add: word_unat_eq_iff unsigned_ucast_eq unat_of_nat take_bit_nat_eq_self)
  have s: "(scast (of_nat (length nm) + 1 :: u32) :: u64) = of_nat (length nm) + 1"
    using scast_small_u32 [of "Suc (length nm)"] assms(3) by (simp add: add.commute)
  have "unat (of_nat (length nm) :: u32) = length nm" using assms(3) by (simp add: unat_of_nat)
  then have g: "\<not> (127 :: u32) < of_nat (length nm)" using assms(3) by (simp add: word_less_nat_alt)
  have "read_node_prop st m p prop_name dest sz = find_prop st m (body_addr p nm) prop_name dest sz"
    using assms(1) g by (simp add: read_node_prop_def l u s CHAR_BUFF_SIZE_def Let_def body_addr_def)
  then show ?thesis using find_prop_flat [OF assms(4,5,6,7)] by simp
qed

section \<open>Properties\<close>

text \<open>
  (C14) On a well-formed blob \<open>fdt_walk_nodes\<close> returns, and it has called the callback on every
  node of every sibling tree, in preorder and with the node's depth, as long as the callback
  answers 0 and leaves the blob alone.
\<close>

theorem fdt_walk_preorder:
  assumes "\<And>nm d p st. I st \<Longrightarrow> \<exists>st'. cb nm d p st = Some (0, st') \<and> I st'"
    and "\<And>st. I st \<Longrightarrow> flat_nodes (fst st) p ts" and "I st"
  shows "\<exists>st'. fdt_walk_nodes cb p st = Some st' \<and> run_callback cb (preorder_nodes p ts) st = Some st'"
  using fdt_walk_nodes_flat [of I cb p ts, OF assms] by blast

text \<open>A blob with a node \<^verbatim>\<open>m\<close> that has one property and one child \<^verbatim>\<open>c\<close>.\<close>

definition demo_tree :: dtree where
  "demo_tree = DNode [109] [DProp 0 [1, 2, 3, 4], DNop, DChild (DNode [99] [])]"

definition demo_blob :: memory where
  "demo_blob = mem_of_list 0x1000
     [0,0,0,1, 109,0,0,0, 0,0,0,3, 0,0,0,4, 0,0,0,0, 1,2,3,4, 0,0,0,4, 0,0,0,1, 99,0,0,0, 0,0,0,2, 0,0,0,2, 0,0,0,9, 97,98,0]"

definition demo_cb :: "(nat \<times> u64) list callback" where
  "demo_cb nm d p st = Some (0, fst st, snd st @ [(d, p)])"

lemma demo_flat: "flat_nodes demo_blob 0x1000 [demo_tree]"
  by (simp add: demo_tree_def demo_blob_def mem_of_list_def bte32_def body_addr_def ALIGN_UP_def
      fdt_tokens bytes_def upt_rec push_bit_eq_mult)

theorem fdt_walk_preorder_witness:
  "fdt_walk_nodes demo_cb 0x1000 (demo_blob, []) = Some (demo_blob, [(0, 0x1000), (1, 0x101C)])"
proof -
  have r: "run_callback demo_cb (preorder_nodes 0x1000 [demo_tree]) (demo_blob, []) =
      Some (demo_blob, [(0, 0x1000), (1, 0x101C)])"
    by (simp add: demo_tree_def body_addr_def ALIGN_UP_def demo_cb_def)
  have "\<exists>st'. fdt_walk_nodes demo_cb 0x1000 (demo_blob, []) = Some st' \<and>
      run_callback demo_cb (preorder_nodes 0x1000 [demo_tree]) (demo_blob, []) = Some st'"
    by (rule fdt_walk_preorder [where I = "\<lambda>st. fst st = demo_blob"]) (simp_all add: demo_flat demo_cb_def del: flat_nodes.simps)
  then show ?thesis using r by simp
qed

text \<open>\<open>skip_subtree\<close> returns with the pointer right after the node's own end token.\<close>

theorem skip_subtree_end: "flat_node m p t \<Longrightarrow> skip_subtree m p = Some (node_end p t)"
  by (rule skip_flat)

theorem skip_subtree_end_witness: "skip_subtree demo_blob 0x1000 = Some 0x102C"
proof -
  have "flat_node demo_blob 0x1000 demo_tree" using demo_flat by simp
  then have "skip_subtree demo_blob 0x1000 = Some (node_end 0x1000 demo_tree)" by (rule skip_subtree_end)
  then show ?thesis by (simp add: demo_tree_def body_addr_def ALIGN_UP_def)
qed

text \<open>
  (C21) On a node whose properties come first, \<open>read_node_prop\<close> answers 0 and copies nothing when no
  property has the name, -1 when the value does not fit, and otherwise copies the value of the
  first property with that name to the buffer and answers its length.
\<close>

theorem read_node_prop_lookup:
  assumes "bte32 m p = FDT_BEGIN_NODE" "cstr m (p + 4) nm" "length nm < 128"
    and "cstr m prop_name pn"
    and "flat_items m (body_addr p nm) (map (\<lambda>((n, off), v). DProp off v) ps)"
    and "\<And>n off v. ((n, off), v) \<in> set ps \<Longrightarrow> name_at st m off n"
    and "bte32 m (items_end (body_addr p nm) (map (\<lambda>((n, off), v). DProp off v) ps)) \<notin> {FDT_PROP, FDT_NOP}"
  shows "case lookup_prop (body_addr p nm) pn ps of
      None \<Rightarrow> read_node_prop st m p prop_name dest sz = Some (0, m)
    | Some (a, v) \<Rightarrow>
        if sint sz < int (length v) then read_node_prop st m p prop_name dest sz = Some (- 1, m)
        else \<exists>m'. memcpy m dest a (of_nat (length v)) = Some m' \<and>
          read_node_prop st m p prop_name dest sz = Some (int (length v), m')"
proof (cases "lookup_prop (body_addr p nm) pn ps")
  case None
  then show ?thesis using read_node_prop_flat [OF assms, where dest = dest and sz = sz] by simp
next
  case (Some av)
  obtain a v where av: "av = (a, v)" by force
  have "length v < 2 ^ 31" using lookup_prop_length [OF assms(5)] Some av by blast
  then obtain m' where "memcpy m dest a (of_nat (length v)) = Some m'" using memcpy_returns by blast
  then show ?thesis using read_node_prop_flat [OF assms, where dest = dest and sz = sz] Some av by simp
qed

definition demo_blob2 :: memory where
  "demo_blob2 = mem_of_list 0x1000
     [0,0,0,1, 109,0,0,0, 0,0,0,3, 0,0,0,2, 0,0,0,0, 7,8,0,0, 0,0,0,3, 0,0,0,4, 0,0,0,3, 1,2,3,4,
      0,0,0,2, 0,0,0,9, 97,98,0,99,100,0]"

definition demo_fdt :: fdt_state where
  "demo_fdt = \<lparr>ft_base_addr = 0x1000, fh_struct = (read_header demo_blob2 0x1000)\<lparr>off_dt_strings := 0x30\<rparr>,
     fri_struct = \<lparr>compatible = 0, compatible_len = 0, model = 0, model_len = 0, address_cells = 0, size_cells = 0\<rparr>,
     sub_node_base_addr = 0x1000, fdt_init_status = 1\<rparr>"

theorem read_node_prop_lookup_witness:
  "\<exists>m'. memcpy demo_blob2 0x9000 0x1024 4 = Some m' \<and> read_node_prop demo_fdt demo_blob2 0x1000 0x1033 0x9000 128 = Some (4, m')"
proof -
  let ?ps = "[(([97, 98], 0), [7, 8]), (([99, 100], 3), [1, 2, 3, 4])] :: ((u8 list \<times> u32) \<times> u8 list) list"
  have "case lookup_prop (body_addr 0x1000 [109]) [99, 100] ?ps of
      None \<Rightarrow> read_node_prop demo_fdt demo_blob2 0x1000 0x1033 0x9000 128 = Some (0, demo_blob2)
    | Some (a, v) \<Rightarrow>
        if sint (128 :: i32) < int (length v) then read_node_prop demo_fdt demo_blob2 0x1000 0x1033 0x9000 128 = Some (- 1, demo_blob2)
        else \<exists>m'. memcpy demo_blob2 0x9000 a (of_nat (length v)) = Some m' \<and>
          read_node_prop demo_fdt demo_blob2 0x1000 0x1033 0x9000 128 = Some (int (length v), m')"
    by (rule read_node_prop_lookup)
      (auto simp: demo_blob2_def demo_fdt_def mem_of_list_def bte32_def body_addr_def ALIGN_UP_def
        fdt_tokens bytes_def upt_rec push_bit_eq_mult name_at_def GET_STR_OFFSET_def)
  then show ?thesis by (simp add: body_addr_def ALIGN_UP_def)
qed

end
