(* ===== verification/Memory.thy ===== *)
theory Memory
  imports Fdt
begin

text \<open>
  mm/memory.c: the physical page allocator.
\<close>

section \<open>State\<close>

text \<open>
  \<^verbatim>\<open>struct page\<close>. The descriptors form the array at \<^verbatim>\<open>_phy_start\<close>; a \<^verbatim>\<open>struct page *\<close> is the
  index of its descriptor, \<open>None\<close> the null pointer.
\<close>

record page =
  paddr :: u64
  refcount :: i32
  flags :: u64
  pg_slab :: u64
  pg_prev :: "nat option"
  pg_next :: "nat option"

record gloal_memory_descriptor =
  gmd_pg :: "nat option"
  kernel_head :: "nat option"
  kernel_tail :: "nat option"
  fdt_head :: "nat option"
  fdt_tail :: "nat option"
  dma_head :: "nat option"
  dma_tail :: "nat option"
  dma_start_at :: u64
  dma_end_at :: u64
  free_head :: "nat option"
  free_tail :: "nat option"
  free_start_at :: u64
  free_end_at :: u64
  page_length :: u64

record bank =
  base :: u64
  bank_size :: u64

record memory_info =
  banks :: "nat \<Rightarrow> bank"
  nr_banks :: nat

text \<open>
  The two locks. What runs under \<^verbatim>\<open>memory_lock\<close> or \<^verbatim>\<open>memory_init_lock\<close> is one step, so between steps a lock
  shows only whether some other CPU is inside.
\<close>

record mm_lock =
  lock_val :: u64
  lock_holder :: "nat option"

definition unlocked :: mm_lock where "unlocked = \<lparr>lock_val = 0, lock_holder = None\<rparr>"

text \<open>
  The globals of the allocator. The descriptors are kept beside the byte memory: nothing but
  mm/memory.c and the slab back-pointer of mm/slab.c touches them, and they lie in pages that
  the allocator never hands out.
\<close>

record mstate =
  ram :: memory
  page_array :: "nat \<Rightarrow> page"
  gmd :: gloal_memory_descriptor
  mem_info :: memory_info
  MEMORY_SIZE :: u64
  memory_init_status :: u8
  memory_init_lock :: mm_lock
  memory_lock :: mm_lock

definition MEMORY_START :: u64 where "MEMORY_START = 0x80000000"
definition PG_FLAG_FREE :: u64 where "PG_FLAG_FREE = 0"
definition PG_FLAG_RESERVED :: u64 where "PG_FLAG_RESERVED = push_bit 0 1"
definition PG_FLAG_USED :: u64 where "PG_FLAG_USED = push_bit 1 1"

definition PHY_TO_PAGE :: "u64 \<Rightarrow> nat" where
  "PHY_TO_PAGE phys = unat (drop_bit 12 (phys - MEMORY_START))"

definition set_next :: "nat \<Rightarrow> nat option \<Rightarrow> (nat \<Rightarrow> page) \<Rightarrow> nat \<Rightarrow> page" where
  "set_next i v pa = pa(i := (pa i)\<lparr>pg_next := v\<rparr>)"

definition set_prev :: "nat \<Rightarrow> nat option \<Rightarrow> (nat \<Rightarrow> page) \<Rightarrow> nat \<Rightarrow> page" where
  "set_prev i v pa = pa(i := (pa i)\<lparr>pg_prev := v\<rparr>)"

definition reserve :: "nat \<Rightarrow> (nat \<Rightarrow> page) \<Rightarrow> nat \<Rightarrow> page" where
  "reserve i pa = pa(i := (pa i)\<lparr>flags := flags (pa i) OR PG_FLAG_RESERVED\<rparr>)"

section \<open>Boot: detecting and carving up memory\<close>

text \<open>
  \<^verbatim>\<open>detect_memory_info\<close> is the callback of the device tree walk; its buffer \<open>data\<close> is an
  address, its string literals come from \<open>lit\<close>. The array of banks has room for 16 and is not
  checked for overflow; the model keeps writing to the next index.
\<close>

definition detect_memory_info :: "literals \<Rightarrow> fdt_state \<Rightarrow> u64 \<Rightarrow> memory_info callback" where
  "detect_memory_info lit fdt data name depth node_ptr st =
     (let m1 = memset (fst st) data 0 128; mi = snd st in
      Option.bind (read_node_prop fdt m1 node_ptr (lit ''device_type'') data 128) (\<lambda>(res, m2).
      if res \<le> 0 then Some (0, m2, mi)
      else Option.bind (strcmp m2 data (lit ''memory'')) (\<lambda>c.
      if c \<noteq> 0 then Some (0, m2, mi)
      else let m3 = memset m2 data 0 128 in
      Option.bind (read_node_prop fdt m3 node_ptr (lit ''reg'') data 128) (\<lambda>(res, m4).
      if res \<le> 0 then Some (0, m4, mi)
      else Some (0, m4, mi\<lparr>banks := (banks mi)(nr_banks mi :=
             \<lparr>base = bte64 m4 data, bank_size = bte64 m4 (data + 8)\<rparr>), nr_banks := nr_banks mi + 1\<rparr>)))))"

definition zero_page :: page where
  "zero_page = \<lparr>paddr = 0, refcount = 0, flags = 0, pg_slab = 0, pg_prev = None, pg_next = None\<rparr>"

text \<open>One descriptor per page of a bank, appended to the list of all pages.\<close>

partial_function (option) build_pages :: "u64 \<Rightarrow> u64 \<Rightarrow> nat \<Rightarrow> mstate \<Rightarrow> (nat \<times> mstate) option" where
  "build_pages start end pg s =
     (if start < end then
        let a0 = (page_array s)(pg := zero_page\<lparr>paddr := start, pg_prev := kernel_tail (gmd s)\<rparr>);
            (a1, g1) = (case kernel_tail (gmd s) of
               Some t \<Rightarrow> (set_next t (Some pg) a0, gmd s)
             | None \<Rightarrow> (a0, (gmd s)\<lparr>kernel_head := Some pg\<rparr>))
        in build_pages (start + PG_4K_SIZE) end (Suc pg)
             (s\<lparr>page_array := a1, gmd := g1\<lparr>kernel_tail := Some pg, page_length := page_length g1 + 1\<rparr>\<rparr>)
      else Some (pg, s))"

fun build_banks :: "bank list \<Rightarrow> nat \<Rightarrow> mstate \<Rightarrow> (nat \<times> mstate) option" where
  "build_banks [] pg s = Some (pg, s)"
| "build_banks (b # bs) pg s =
     Option.bind (build_pages (ALIGN_UP (base b) PG_4K_SIZE) (base b + bank_size b) pg s)
       (\<lambda>(pg', s'). build_banks bs pg' s')"

text \<open>Marking the pages of the firmware, the kernel image and the descriptors.\<close>

partial_function (option) reserve_pages ::
  "u64 \<Rightarrow> u64 \<Rightarrow> nat \<Rightarrow> (nat \<Rightarrow> page) \<Rightarrow> (u64 \<times> nat \<times> (nat \<Rightarrow> page)) option" where
  "reserve_pages start end pg a =
     (if start < end
      then reserve_pages (start + PG_4K_SIZE) end (PHY_TO_PAGE start) (reserve (PHY_TO_PAGE start) a)
      else Some (start, pg, a))"

definition DMA_PAGE_COUNT :: nat where "DMA_PAGE_COUNT = 4096"

fun reserve_dma :: "nat \<Rightarrow> nat \<Rightarrow> (nat \<Rightarrow> page) \<Rightarrow> nat \<Rightarrow> page" where
  "reserve_dma 0 p a = a"
| "reserve_dma (Suc n) p a = reserve_dma n (Suc p) (reserve p a)"

text \<open>Splitting the list of all pages into the kernel's, the DMA and the free pages.\<close>

definition split_zones :: "nat \<Rightarrow> u64 \<Rightarrow> mstate \<Rightarrow> mstate kres" where
  "split_zones pg start s =
     (let a1 = set_next pg None (page_array s);
          p = PHY_TO_PAGE start;
          t = p + DMA_PAGE_COUNT - 1;
          g1 = (gmd s)\<lparr>free_tail := kernel_tail (gmd s), kernel_tail := Some pg,
                        dma_head := Some p, dma_tail := Some t,
                        dma_start_at := paddr (a1 p), dma_end_at := paddr (a1 t)\<rparr>;
          a2 = reserve_dma DMA_PAGE_COUNT p a1
      in case pg_next (a2 t) of
           None \<Rightarrow> Inl Fault
         | Some f \<Rightarrow>
             let a3 = set_next t None (set_prev p None (set_prev f None a2)) in
             (case free_tail g1 of
                None \<Rightarrow> Inl Fault
              | Some e \<Rightarrow> Inr (s\<lparr>page_array := set_next e None (set_prev f None a3),
                   gmd := g1\<lparr>free_head := Some f, free_start_at := paddr (a3 f), free_end_at := paddr (a3 e)\<rparr>\<rparr>)))"

text \<open>Taking the pages of the device tree out of the free list.\<close>

definition unlink_fdt :: "u64 \<Rightarrow> u32 \<Rightarrow> mstate \<Rightarrow> mstate kres" where
  "unlink_fdt fdt_base tsize s =
     (let a = page_array s;
          pg = PHY_TO_PAGE fdt_base;
          tmp = PHY_TO_PAGE (PGROUNDDOWN (fdt_base + ucast tsize));
          a1 = (case pg_prev (a pg) of Some q \<Rightarrow> set_next q (pg_next (a tmp)) a | None \<Rightarrow> a);
          g = (gmd s)\<lparr>fdt_head := Some pg, fdt_tail := Some tmp\<rparr>;
          fin = (\<lambda>a2. s\<lparr>page_array := set_next tmp None (set_prev pg None a2), gmd := g\<rparr>)
      in if pg_next (a1 tmp) = None then Inr (fin a1)
         else case pg_next (a1 pg) of
                None \<Rightarrow> Inl Fault
              | Some r \<Rightarrow> Inr (fin (set_prev r (pg_prev (a1 pg)) a1)))"

partial_function (option) reserve_fdt ::
  "u64 \<Rightarrow> u64 \<Rightarrow> (nat \<Rightarrow> page) \<Rightarrow> (nat \<Rightarrow> page) option" where
  "reserve_fdt addr end a =
     (if addr < end then reserve_fdt (addr + PG_4K_SIZE) end (reserve (PHY_TO_PAGE addr) a) else Some a)"

text \<open>
  \<open>phy_start\<close> is the linker symbol \<^verbatim>\<open>_phy_start\<close> where the descriptor array begins; a descriptor
  takes 48 bytes. \<open>lay_out_pages\<close> is the part after the walk.
\<close>

definition page_struct_size :: u64 where "page_struct_size = 48"

definition lay_out_pages :: "u64 \<Rightarrow> fdt_state \<Rightarrow> mstate \<Rightarrow> mstate kres option" where
  "lay_out_pages phy_start fdt s =
     Option.bind (build_banks (map (banks (mem_info s)) [0..<nr_banks (mem_info s)]) 0 s) (\<lambda>(n, s1).
     Option.bind (reserve_pages MEMORY_START (phy_start + of_nat n * page_struct_size) n (page_array s1))
       (\<lambda>(start, pg, a).
     case split_zones pg start (s1\<lparr>page_array := a\<rparr>) of
       Inl e \<Rightarrow> Some (Inl e)
     | Inr s2 \<Rightarrow>
        (case unlink_fdt (ft_base_addr fdt) (totalsize (fh_struct fdt)) s2 of
           Inl e \<Rightarrow> Some (Inl e)
         | Inr s3 \<Rightarrow> map_option (\<lambda>a'. Inr (s3\<lparr>page_array := a', memory_init_status := 1\<rparr>))
             (reserve_fdt (PGROUNDDOWN (ft_base_addr fdt))
                (PGROUNDUP (ft_base_addr fdt + ucast (totalsize (fh_struct fdt)))) (page_array s3)))))"

fun sum_banks :: "bank list \<Rightarrow> u64 \<Rightarrow> u64" where
  "sum_banks [] acc = acc"
| "sum_banks (b # bs) acc = sum_banks bs (acc + bank_size b)"

text \<open>
  \<open>init_memory\<close> first sets both locks to the unlocked state, whoever holds them, and only then
  looks at the status under \<^verbatim>\<open>memory_init_lock\<close>.
\<close>

definition init_memory :: "literals \<Rightarrow> u64 \<Rightarrow> u64 \<Rightarrow> fdt_state \<Rightarrow> mstate \<Rightarrow> mstate kres option" where
  "init_memory lit mem_buff phy_start fdt s0 =
     (let s = s0\<lparr>memory_init_lock := unlocked, memory_lock := unlocked\<rparr> in
      if memory_init_status s = 1 then Some (Inr s)
      else Option.bind (fdt_walk_nodes (detect_memory_info lit fdt mem_buff) (sub_node_base_addr fdt)
                          (ram s, mem_info s))
        (\<lambda>(m, mi). let s' = s\<lparr>ram := m, mem_info := mi\<rparr> in
           lay_out_pages phy_start fdt
             (s'\<lparr>MEMORY_SIZE := sum_banks (map (banks mi) [0..<nr_banks mi]) (MEMORY_SIZE s')\<rparr>)))"

section \<open>Allocation and release\<close>

definition alloc_page :: "mstate \<Rightarrow> u64 \<times> mstate" where
  "alloc_page s =
     (case free_head (gmd s) of
        None \<Rightarrow> (0, s)
      | Some i \<Rightarrow>
          let pg = page_array s i;
              g1 = (gmd s)\<lparr>free_head := pg_next pg\<rparr>;
              g2 = (if free_head g1 = None then g1\<lparr>free_tail := None\<rparr> else g1);
              pg' = pg\<lparr>pg_next := None, pg_prev := None, flags := PG_FLAG_USED,
                       refcount := refcount pg + 1, pg_slab := 0\<rparr>
          in (paddr pg, s\<lparr>gmd := g2, page_array := (page_array s)(i := pg'),
                          ram := memset (ram s) (paddr pg) 0 PG_4K_SIZE\<rparr>))"

definition free_page :: "mstate \<Rightarrow> u64 \<Rightarrow> mstate kres" where
  "free_page s pa =
     (if pa = 0 then Inl (Panic ''free_page: NULL pointer!'')
      else if pa AND (PG_4K_SIZE - 1) \<noteq> 0 \<or> pa < free_start_at (gmd s) \<or> free_end_at (gmd s) < pa
        then Inl (Panic ''free_page: bad address'')
      else let i = PHY_TO_PAGE pa; pg = page_array s i in
        if flags pg AND PG_FLAG_RESERVED \<noteq> 0 then Inl (Panic ''free_page: freeing reserved page'')
        else if flags pg AND PG_FLAG_USED = 0 then Inl (Panic ''free_page: double free'')
        else let rc = (if 0 < sint (refcount pg) then refcount pg - 1 else refcount pg);
                 pg1 = pg\<lparr>refcount := rc\<rparr> in
          if 0 < sint rc then Inr (s\<lparr>page_array := (page_array s)(i := pg1)\<rparr>)
          else let pg2 = pg1\<lparr>flags := PG_FLAG_FREE, pg_next := None, pg_prev := free_tail (gmd s)\<rparr>;
                   a1 = (page_array s)(i := pg2);
                   (a2, g) = (case free_tail (gmd s) of
                      Some t \<Rightarrow> (set_next t (Some i) a1, gmd s)
                    | None \<Rightarrow> (a1, (gmd s)\<lparr>free_head := Some i\<rparr>))
               in Inr (s\<lparr>page_array := a2, gmd := g\<lparr>free_tail := Some i\<rparr>,
                         ram := memset (ram s) (paddr (a2 i)) 0 PG_4K_SIZE\<rparr>))"

definition kalloc :: "mstate \<Rightarrow> u64 \<times> mstate" where "kalloc s = alloc_page s"
definition kfree :: "mstate \<Rightarrow> u64 \<Rightarrow> mstate kres" where "kfree s pa = free_page s pa"

section \<open>The allocator's invariant\<close>

definition page_addr :: "nat \<Rightarrow> u64" where
  "page_addr i = MEMORY_START + 4096 * of_nat i"

text \<open>
  The allocator manages the pages \<open>lo..hi\<close>. Each is on the free list, allocated with a reference
  count, or withheld (reserved, or out of reach of \<open>free_page\<close>).
\<close>

definition page_bound :: nat where "page_bound = 2 ^ 40"

definition mem_inv :: "mstate \<Rightarrow> nat list \<Rightarrow> (nat \<rightharpoonup> nat) \<Rightarrow> bool" where
  "mem_inv s fl refs \<longleftrightarrow>
     (\<exists>lo hi. lo \<le> hi \<and> 0 < lo \<and> hi < page_bound \<and>
        free_start_at (gmd s) = page_addr lo \<and> free_end_at (gmd s) = page_addr hi \<and>
        set fl \<subseteq> {lo..hi} \<and> dom refs \<subseteq> {lo..hi} \<and>
        (\<forall>i \<in> {lo..hi}. paddr (page_array s i) = page_addr i \<and>
           (i \<notin> set fl \<union> dom refs \<longrightarrow>
              flags (page_array s i) AND PG_FLAG_RESERVED \<noteq> 0 \<or> flags (page_array s i) AND PG_FLAG_USED = 0))) \<and>
     chain (\<lambda>i. pg_next (page_array s i)) (free_head (gmd s)) fl \<and>
     free_tail (gmd s) = (if fl = [] then None else Some (last fl)) \<and>
     distinct fl \<and> set fl \<inter> dom refs = {} \<and>
     (\<forall>i \<in> set fl. flags (page_array s i) = PG_FLAG_FREE \<and> refcount (page_array s i) = 0) \<and>
     (\<forall>i n. refs i = Some n \<longrightarrow> flags (page_array s i) = PG_FLAG_USED \<and>
        0 < n \<and> sint (refcount (page_array s i)) = int n)"

lemma unat_page_off: "i < page_bound \<Longrightarrow> unat (4096 * of_nat i :: u64) = 4096 * i"
  using unat_of_nat_small [of "4096 * i"] by (simp add: page_bound_def)

lemma page_addr_unat:
  assumes "i < page_bound"
  shows "unat (page_addr i) = 0x80000000 + 4096 * i"
proof -
  have "unat (0x80000000 + 4096 * of_nat i :: u64) = unat (0x80000000 :: u64) + unat (4096 * of_nat i :: u64)"
    by (subst unat_add_lem [symmetric]) (use assms in \<open>simp add: unat_page_off page_bound_def\<close>)
  then show ?thesis using assms by (simp add: page_addr_def MEMORY_START_def unat_page_off)
qed

lemma page_addr_inj:
  assumes "i < page_bound" "j < page_bound"
  shows "page_addr i = page_addr j \<longleftrightarrow> i = j"
proof
  assume "page_addr i = page_addr j"
  then have "unat (page_addr i) = unat (page_addr j)" by simp
  then show "i = j" by (simp add: page_addr_unat assms)
qed simp

lemma page_addr_aligned [simp]: "i < page_bound \<Longrightarrow> page_aligned (page_addr i)"
  by (simp add: aligned_def page_addr_unat)

lemma page_addr_nz: "i < page_bound \<Longrightarrow> page_addr i \<noteq> 0"
  using page_addr_unat [of i] by auto

lemma PHY_TO_PAGE_addr [simp]:
  assumes "i < page_bound" "unat off < 4096"
  shows "PHY_TO_PAGE (page_addr i + off) = i"
proof -
  have "unat (4096 * of_nat i + off) = 4096 * i + unat off"
    using assms by (subst unat_add_lem [THEN iffD1]) (simp_all add: unat_page_off page_bound_def)
  moreover have "page_addr i + off - MEMORY_START = 4096 * of_nat i + off" by (simp add: page_addr_def)
  ultimately have "unat (page_addr i + off - MEMORY_START) = 4096 * i + unat off"
    by (simp only:)
  then have "unat (drop_bit 12 (page_addr i + off - MEMORY_START)) = (4096 * i + unat off) div 4096"
    by (simp add: drop_bit_eq_div unat_div)
  then show ?thesis using assms(2) by (simp add: PHY_TO_PAGE_def del: unat_drop_bit_eq)
qed

lemma PHY_TO_PAGE_addr0 [simp]: "i < page_bound \<Longrightarrow> PHY_TO_PAGE (page_addr i) = i"
  using PHY_TO_PAGE_addr [of i 0] by simp



text \<open>The invariant's parts: the managed range, the free list, the allocated pages.\<close>

lemma mem_invI:
  assumes "lo \<le> hi" "0 < lo" "hi < page_bound"
    "free_start_at (gmd s) = page_addr lo" "free_end_at (gmd s) = page_addr hi"
    "set fl \<subseteq> {lo..hi}" "dom refs \<subseteq> {lo..hi}"
    "\<And>i. lo \<le> i \<Longrightarrow> i \<le> hi \<Longrightarrow> paddr (page_array s i) = page_addr i"
    "\<And>i. lo \<le> i \<Longrightarrow> i \<le> hi \<Longrightarrow> i \<notin> set fl \<Longrightarrow> refs i = None \<Longrightarrow>
       flags (page_array s i) AND PG_FLAG_RESERVED \<noteq> 0 \<or> flags (page_array s i) AND PG_FLAG_USED = 0"
    "chain (\<lambda>i. pg_next (page_array s i)) (free_head (gmd s)) fl"
    "free_tail (gmd s) = (if fl = [] then None else Some (last fl))"
    "distinct fl" "\<And>i. i \<in> set fl \<Longrightarrow> refs i = None"
    "\<And>i. i \<in> set fl \<Longrightarrow> flags (page_array s i) = PG_FLAG_FREE \<and> refcount (page_array s i) = 0"
    "\<And>i n. refs i = Some n \<Longrightarrow> flags (page_array s i) = PG_FLAG_USED \<and>
        0 < n \<and> sint (refcount (page_array s i)) = int n"
  shows "mem_inv s fl refs"
  unfolding mem_inv_def
  apply (intro conjI)
        apply (rule exI [of _ lo], rule exI [of _ hi])
  using assms by (auto simp: domIff)

lemma mem_invE:
  assumes "mem_inv s fl refs"
  obtains lo hi where "lo \<le> hi" "0 < lo" "hi < page_bound"
    "free_start_at (gmd s) = page_addr lo" "free_end_at (gmd s) = page_addr hi"
    "set fl \<subseteq> {lo..hi}" "dom refs \<subseteq> {lo..hi}"
    "\<And>i. lo \<le> i \<Longrightarrow> i \<le> hi \<Longrightarrow> paddr (page_array s i) = page_addr i"
    "\<And>i. lo \<le> i \<Longrightarrow> i \<le> hi \<Longrightarrow> i \<notin> set fl \<Longrightarrow> refs i = None \<Longrightarrow>
       flags (page_array s i) AND PG_FLAG_RESERVED \<noteq> 0 \<or> flags (page_array s i) AND PG_FLAG_USED = 0"
    "chain (\<lambda>i. pg_next (page_array s i)) (free_head (gmd s)) fl"
    "free_tail (gmd s) = (if fl = [] then None else Some (last fl))"
    "distinct fl" "\<And>i. i \<in> set fl \<Longrightarrow> refs i = None"
    "\<And>i. i \<in> set fl \<Longrightarrow> flags (page_array s i) = PG_FLAG_FREE \<and> refcount (page_array s i) = 0"
    "\<And>i n. refs i = Some n \<Longrightarrow> flags (page_array s i) = PG_FLAG_USED \<and>
        0 < n \<and> sint (refcount (page_array s i)) = int n"
  using assms unfolding mem_inv_def
  apply (elim conjE exE)
  subgoal for lo hi
    by (rule that [of lo hi]) (auto simp: domIff)
  done

lemma mem_invD:
  assumes "mem_inv s fl refs" "i \<in> set fl \<union> dom refs"
  shows "i < page_bound" "paddr (page_array s i) = page_addr i"
    "free_start_at (gmd s) \<le> page_addr i" "page_addr i \<le> free_end_at (gmd s)"
proof -
  obtain lo hi where r: "lo \<le> hi" "hi < page_bound" "free_start_at (gmd s) = page_addr lo"
    "free_end_at (gmd s) = page_addr hi" "set fl \<subseteq> {lo..hi}" "dom refs \<subseteq> {lo..hi}"
    "\<And>i. lo \<le> i \<Longrightarrow> i \<le> hi \<Longrightarrow> paddr (page_array s i) = page_addr i"
    using mem_invE [OF assms(1)] by metis
  then have i: "lo \<le> i" "i \<le> hi" using assms(2) by auto
  then show "i < page_bound" using r(2) by simp
  show "paddr (page_array s i) = page_addr i" using r(7) i by simp
  show "free_start_at (gmd s) \<le> page_addr i" "page_addr i \<le> free_end_at (gmd s)"
    using r i by (simp_all add: word_le_nat_alt page_addr_unat)
qed

text \<open>
  An operation works on one page of the managed range: the invariant survives if that page ends
  up properly on the free list or properly allocated and every other page keeps its state.
\<close>

lemma mem_inv_step:
  assumes inv: "mem_inv s fl refs" and i: "i \<in> set fl \<union> dom refs"
    and ends: "free_start_at (gmd s') = free_start_at (gmd s)" "free_end_at (gmd s') = free_end_at (gmd s)"
    and addr: "\<And>j. paddr (page_array s' j) = paddr (page_array s j)"
    and others: "\<And>j. j \<noteq> i \<Longrightarrow> flags (page_array s' j) = flags (page_array s j)"
      "\<And>j. j \<noteq> i \<Longrightarrow> refcount (page_array s' j) = refcount (page_array s j)"
      "\<And>j. j \<noteq> i \<Longrightarrow> j \<in> set fl' \<longleftrightarrow> j \<in> set fl" "\<And>j. j \<noteq> i \<Longrightarrow> refs' j = refs j"
    and here: "i \<in> set fl' \<and> refs' i = None \<and> flags (page_array s' i) = PG_FLAG_FREE \<and> refcount (page_array s' i) = 0 \<or>
       i \<notin> set fl' \<and> (\<exists>n > 0. refs' i = Some n \<and> flags (page_array s' i) = PG_FLAG_USED \<and>
          sint (refcount (page_array s' i)) = int n)"
    and ch: "chain (\<lambda>j. pg_next (page_array s' j)) (free_head (gmd s')) fl'"
      "free_tail (gmd s') = (if fl' = [] then None else Some (last fl'))" "distinct fl'"
  shows "mem_inv s' fl' refs'"
  using inv
proof (rule mem_invE)
  fix lo hi
  assume r: "lo \<le> hi" "0 < lo" "hi < page_bound"
    "free_start_at (gmd s) = page_addr lo" "free_end_at (gmd s) = page_addr hi"
    "set fl \<subseteq> {lo..hi}" "dom refs \<subseteq> {lo..hi}"
    "\<And>j. lo \<le> j \<Longrightarrow> j \<le> hi \<Longrightarrow> paddr (page_array s j) = page_addr j"
    "\<And>j. lo \<le> j \<Longrightarrow> j \<le> hi \<Longrightarrow> j \<notin> set fl \<Longrightarrow> refs j = None \<Longrightarrow>
       flags (page_array s j) AND PG_FLAG_RESERVED \<noteq> 0 \<or> flags (page_array s j) AND PG_FLAG_USED = 0"
    and f: "\<And>j. j \<in> set fl \<Longrightarrow> refs j = None"
      "\<And>j. j \<in> set fl \<Longrightarrow> flags (page_array s j) = PG_FLAG_FREE \<and> refcount (page_array s j) = 0"
    and u: "\<And>j n. refs j = Some n \<Longrightarrow> flags (page_array s j) = PG_FLAG_USED \<and>
        0 < n \<and> sint (refcount (page_array s j)) = int n"
  have i': "lo \<le> i" "i \<le> hi" using i r(6,7) by auto
  show ?thesis
  proof (rule mem_invI [of lo hi, OF r(1-3)])
    show "set fl' \<subseteq> {lo..hi}" "dom refs' \<subseteq> {lo..hi}"
      using r(6,7) i' others(3,4) by (auto simp: domIff subset_iff, (metis option.distinct(1))+)
    fix j
    show "flags (page_array s' j) AND PG_FLAG_RESERVED \<noteq> 0 \<or> flags (page_array s' j) AND PG_FLAG_USED = 0"
      if "lo \<le> j" "j \<le> hi" "j \<notin> set fl'" "refs' j = None"
      using that r(9) [of j] here others [of j] by (cases "j = i") auto
    show "refs' j = None" if "j \<in> set fl'" using that f(1) [of j] here others [of j] by (cases "j = i") auto
    show "flags (page_array s' j) = PG_FLAG_FREE \<and> refcount (page_array s' j) = 0" if "j \<in> set fl'"
      using that f(2) [of j] here others [of j] by (cases "j = i") auto
    show "flags (page_array s' j) = PG_FLAG_USED \<and> 0 < n \<and> sint (refcount (page_array s' j)) = int n"
      if "refs' j = Some n" for n using that u [of j n] here others [of j] by (cases "j = i") auto
  qed (use r ends addr ch in auto)
qed

lemma memset_page [simp]: "memset m a 0 4096 = mem_fill m a 0 4096"
  by (simp add: memset_eq)

lemma memset_page_size: "memset m a 0 PG_4K_SIZE = mem_fill m a 0 4096"
  by simp

lemma alloc_page_empty: "mem_inv s [] refs \<Longrightarrow> alloc_page s = (0, s)"
  by (simp add: mem_inv_def alloc_page_def)

lemma alloc_page_take:
  assumes "mem_inv s (i # fl) refs"
  shows "\<exists>s'. alloc_page s = (page_addr i, s') \<and> mem_inv s' fl (refs(i \<mapsto> 1)) \<and>
    ram s' = mem_fill (ram s) (page_addr i) 0 4096 \<and>
    pg_slab (page_array s' i) = 0 \<and> (\<forall>j. j \<noteq> i \<longrightarrow> page_array s' j = page_array s j)"
proof -
  have c: "chain (\<lambda>j. pg_next (page_array s j)) (free_head (gmd s)) (i # fl)" "distinct (i # fl)"
    "free_tail (gmd s) = Some (last (i # fl))" "refcount (page_array s i) = 0"
    using assms by (auto simp: mem_inv_def)
  have p: "paddr (page_array s i) = page_addr i" using mem_invD [OF assms] by simp
  define pg' where "pg' = (page_array s i)\<lparr>pg_next := None, pg_prev := None, flags := PG_FLAG_USED,
     refcount := 1, pg_slab := 0\<rparr>"
  define g' where "g' = (if fl = [] then (gmd s)\<lparr>free_head := None, free_tail := None\<rparr>
     else (gmd s)\<lparr>free_head := pg_next (page_array s i)\<rparr>)"
  define s' where "s' = s\<lparr>gmd := g', page_array := (page_array s)(i := pg'),
     ram := mem_fill (ram s) (page_addr i) 0 4096\<rparr>"
  have nx: "pg_next (page_array s i) = None \<longleftrightarrow> fl = []" using c(1) by (cases fl) auto
  then have al: "alloc_page s = (page_addr i, s')"
    using c p by (auto simp: alloc_page_def Let_def s'_def g'_def pg'_def)
  have "chain (\<lambda>j. pg_next (page_array s' j)) (pg_next (page_array s i)) fl"
    using c(1,2) by (subst chain_cong [where nx' = "\<lambda>j. pg_next (page_array s j)"]) (auto simp: s'_def)
  then have ch: "chain (\<lambda>j. pg_next (page_array s' j)) (free_head (gmd s')) fl"
    using nx by (cases "fl = []") (auto simp: s'_def g'_def)
  have "mem_inv s' fl (refs(i \<mapsto> 1))"
    by (rule mem_inv_step [OF assms, of i])
      (use c nx ch in \<open>auto simp: s'_def g'_def pg'_def\<close>)
  then show ?thesis using al by (auto simp: s'_def pg'_def)
qed

lemma sint_pred:
  assumes "0 < sint (r::i32)"
  shows "sint (r - 1) = sint r - 1"
proof -
  have "sint (r - 1) = signed_take_bit 31 (sint r - 1)" by (simp add: sint_word_ariths)
  also have "\<dots> = sint r - 1"
    using assms sint_lt [of r] by (intro signed_take_bit_int_eq_self) auto
  finally show ?thesis .
qed

lemma and_low_page: "a AND 4095 = 0 \<longleftrightarrow> page_aligned a"
  using aligned_and [of 12 a] by (simp add: mask12)

lemma page_flag_simps [simp]:
  "PG_FLAG_USED AND PG_FLAG_RESERVED = 0" "PG_FLAG_USED \<noteq> 0" "PG_FLAG_FREE = 0"
  by (simp_all add: PG_FLAG_USED_def PG_FLAG_RESERVED_def PG_FLAG_FREE_def)

lemma free_page_guards:
  assumes "mem_inv s fl refs" "refs i = Some n"
  shows "page_addr i \<noteq> 0" "page_addr i AND (PG_4K_SIZE - 1) = 0"
    "\<not> page_addr i < free_start_at (gmd s)" "\<not> free_end_at (gmd s) < page_addr i"
    "PHY_TO_PAGE (page_addr i) = i" "flags (page_array s i) = PG_FLAG_USED"
    "0 < n" "sint (refcount (page_array s i)) = int n" "paddr (page_array s i) = page_addr i"
proof -
  have i: "i \<in> set fl \<union> dom refs" using assms(2) by auto
  note d = mem_invD [OF assms(1) i]
  show "page_addr i \<noteq> 0" using d by (simp add: page_addr_nz)
  show "page_addr i AND (PG_4K_SIZE - 1) = 0" using d by (simp add: and_low_page)
  show "\<not> page_addr i < free_start_at (gmd s)" "\<not> free_end_at (gmd s) < page_addr i"
    using d by (simp_all add: not_less)
  show "PHY_TO_PAGE (page_addr i) = i" using d by simp
  show "flags (page_array s i) = PG_FLAG_USED" "0 < n" "sint (refcount (page_array s i)) = int n"
    using assms by (auto simp: mem_inv_def)
  show "paddr (page_array s i) = page_addr i" using d by simp
qed


lemma free_page_last:
  assumes "mem_inv s fl refs" "refs i = Some 1"
  shows "\<exists>s'. free_page s (page_addr i) = Inr s' \<and> mem_inv s' (fl @ [i]) (refs(i := None)) \<and>
    ram s' = mem_fill (ram s) (page_addr i) 0 4096"
proof -
  note g = free_page_guards [OF assms(1,2)]
  have c: "chain (\<lambda>j. pg_next (page_array s j)) (free_head (gmd s)) fl" "distinct fl"
    "free_tail (gmd s) = (if fl = [] then None else Some (last fl))" "i \<notin> set fl"
    using assms by (auto simp: mem_inv_def)
  define pg2 where "pg2 = (page_array s i)\<lparr>refcount := refcount (page_array s i) - 1,
     flags := PG_FLAG_FREE, pg_next := None, pg_prev := free_tail (gmd s)\<rparr>"
  define a1 where "a1 = (page_array s)(i := pg2)"
  define a2 where "a2 = (if fl = [] then a1 else set_next (last fl) (Some i) a1)"
  define g' where "g' = (if fl = [] then (gmd s)\<lparr>free_head := Some i\<rparr> else gmd s)"
  define s' where "s' = s\<lparr>page_array := a2, gmd := g'\<lparr>free_tail := Some i\<rparr>,
     ram := mem_fill (ram s) (page_addr i) 0 4096\<rparr>"
  have rc: "sint (refcount (page_array s i) - 1) = 0" using g(8) by (simp add: sint_pred)
  then have rc0: "refcount (page_array s i) - 1 = 0" by (intro signed_word_eqI) simp
  have ne: "fl \<noteq> [] \<Longrightarrow> last fl \<noteq> i" using c(4) last_in_set [of fl] by auto
  have pa: "paddr (a2 i) = page_addr i" using g(9) ne by (auto simp: a2_def a1_def pg2_def set_next_def)
  have fr: "free_page s (page_addr i) = Inr s'"
    using g rc pa c(3) unfolding free_page_def
    by (auto simp: Let_def s'_def a2_def g'_def a1_def pg2_def memset_page_size simp del: PG_4K_SIZE_eq)
  have i': "i \<in> set fl \<union> dom refs" using assms(2) by auto
  have ch: "chain (\<lambda>j. pg_next (page_array s' j)) (free_head (gmd s')) (fl @ [i])"
  proof (cases "fl = []")
    case True
    then show ?thesis by (simp add: s'_def g'_def a2_def a1_def pg2_def)
  next
    case False
    have "chain (\<lambda>j. pg_next (page_array s' j)) (free_head (gmd s)) (fl @ [i])"
      by (rule chain_snoc [OF c(1) False c(2,4)])
        (use False ne c(4) in \<open>auto simp: s'_def a2_def a1_def pg2_def set_next_def\<close>)
    then show ?thesis using False by (simp add: s'_def g'_def)
  qed
  have "mem_inv s' (fl @ [i]) (refs(i := None))"
    by (rule mem_inv_step [OF assms(1) i' _ _ _ _ _ _ _ _ ch])
      (use c ne rc0 g(9) in \<open>auto simp: s'_def g'_def a2_def a1_def pg2_def set_next_def\<close>)
  then show ?thesis using fr by (auto simp: s'_def)
qed

lemma page_addr_cover:
  assumes "page_aligned pa" "page_addr lo \<le> pa" "pa \<le> page_addr hi" "lo \<le> hi" "hi < page_bound"
  obtains i where "pa = page_addr i" "lo \<le> i" "i \<le> hi"
proof -
  obtain q where q: "unat pa = 4096 * q" using assms(1) by (auto simp: aligned_def dvd_def)
  have "0x80000000 + 4096 * lo \<le> unat pa" "unat pa \<le> 0x80000000 + 4096 * hi"
    using assms by (simp_all add: word_le_nat_alt page_addr_unat)
  then have b: "lo \<le> q - 0x80000" "q - 0x80000 \<le> hi" "0x80000 \<le> q" using q by auto
  then have "unat (page_addr (q - 0x80000)) = unat pa" using q assms(5) by (simp add: page_addr_unat)
  then have "pa = page_addr (q - 0x80000)" by (simp add: word_unat_eq_iff)
  then show ?thesis using that b by blast
qed

lemma free_page_bad:
  assumes "mem_inv s fl refs"
    and "\<not> (\<exists>i n. pa = page_addr i \<and> refs i = Some n)"
  shows "\<exists>msg. free_page s pa = Inl (Panic msg)"
proof (rule ccontr)
  assume no: "\<nexists>msg. free_page s pa = Inl (Panic msg)"
  then have g: "pa \<noteq> 0" "pa AND (PG_4K_SIZE - 1) = 0" "free_start_at (gmd s) \<le> pa" "pa \<le> free_end_at (gmd s)"
    "flags (page_array s (PHY_TO_PAGE pa)) AND PG_FLAG_RESERVED = 0"
    "flags (page_array s (PHY_TO_PAGE pa)) AND PG_FLAG_USED \<noteq> 0"
    unfolding free_page_def Let_def by (auto simp del: PG_4K_SIZE_eq split: if_splits)
  have al: "page_aligned pa" using g(2) by (simp add: and_low_page)
  show False
    using assms(1)
  proof (rule mem_invE)
    fix lo hi
    assume r: "lo \<le> hi" "hi < page_bound"
      "free_start_at (gmd s) = page_addr lo" "free_end_at (gmd s) = page_addr hi"
      "\<And>j. lo \<le> j \<Longrightarrow> j \<le> hi \<Longrightarrow> j \<notin> set fl \<Longrightarrow> refs j = None \<Longrightarrow>
         flags (page_array s j) AND PG_FLAG_RESERVED \<noteq> 0 \<or> flags (page_array s j) AND PG_FLAG_USED = 0"
      and f: "\<And>j. j \<in> set fl \<Longrightarrow> flags (page_array s j) = PG_FLAG_FREE \<and> refcount (page_array s j) = 0"
    obtain i where i: "pa = page_addr i" "lo \<le> i" "i \<le> hi"
      using page_addr_cover [OF al] g(3,4) r(1-4) by metis
    then have "PHY_TO_PAGE pa = i" using r(2) by simp
    moreover have "refs i = None" using assms(2) i(1) by (cases "refs i") auto
    ultimately show False using g(5,6) r(5) [of i] i f [of i] by (cases "i \<in> set fl") auto
  qed
qed

section \<open>The interface to the rest of the kernel\<close>

text \<open>
  What the clients of the page allocator rely on: \<open>inv s L\<close> says that \<open>L\<close> is the set of live
  pages. A client also writes to memory (\<open>put\<close>), which the allocator does not notice.
\<close>

locale page_allocator =
  fixes inv :: "'s \<Rightarrow> u64 set \<Rightarrow> bool"
    and alloc :: "'s \<Rightarrow> u64 \<times> 's"
    and free :: "'s \<Rightarrow> u64 \<Rightarrow> 's kres"
    and mem :: "'s \<Rightarrow> memory"
    and put :: "memory \<Rightarrow> 's \<Rightarrow> 's"
  assumes alloc_null: "inv s L \<Longrightarrow> alloc s = (0, s') \<Longrightarrow> s' = s"
    and alloc_fresh: "inv s L \<Longrightarrow> alloc s = (p, s') \<Longrightarrow> p \<noteq> 0 \<Longrightarrow>
      page_aligned p \<and> p \<notin> L \<and> inv s' (insert p L) \<and> mem s' = mem_fill (mem s) p 0 4096"
    and live_page: "inv s L \<Longrightarrow> p \<in> L \<Longrightarrow> page_aligned p \<and> p \<noteq> 0"
    and free_live: "inv s L \<Longrightarrow> p \<in> L \<Longrightarrow>
      \<exists>s'. free s p = Inr s' \<and> inv s' (L - {p}) \<and> mem s' = mem_fill (mem s) p 0 4096"
    and free_dead: "inv s L \<Longrightarrow> p \<notin> L \<Longrightarrow> \<exists>msg. free s p = Inl (Panic msg)"
    and inv_put [simp]: "inv (put m s) L = inv s L"
    and mem_put [simp]: "mem (put m s) = m"

text \<open>A sequence of requests, and the answers it may get when \<open>L\<close> is live.\<close>

datatype page_op = PAlloc | PFree u64

fun run_page_ops :: "('s \<Rightarrow> u64 \<times> 's) \<Rightarrow> ('s \<Rightarrow> u64 \<Rightarrow> 's kres) \<Rightarrow> 's \<Rightarrow> page_op list \<Rightarrow> (u64 list \<times> 's) kres" where
  "run_page_ops alloc free s [] = Inr ([], s)"
| "run_page_ops alloc free s (PAlloc # ops) =
     (case alloc s of (p, s') \<Rightarrow>
        (case run_page_ops alloc free s' ops of Inl e \<Rightarrow> Inl e | Inr (rs, t) \<Rightarrow> Inr (p # rs, t)))"
| "run_page_ops alloc free s (PFree p # ops) =
     (case free s p of Inl e \<Rightarrow> Inl e
      | Inr s' \<Rightarrow>
        (case run_page_ops alloc free s' ops of Inl e \<Rightarrow> Inl e | Inr (rs, t) \<Rightarrow> Inr (p # rs, t)))"

fun answers_ok :: "u64 set \<Rightarrow> page_op list \<Rightarrow> u64 list \<Rightarrow> bool" where
  "answers_ok L [] rs \<longleftrightarrow> rs = []"
| "answers_ok L (PAlloc # ops) rs \<longleftrightarrow>
     (case rs of [] \<Rightarrow> False
      | p # rs' \<Rightarrow> if p = 0 then answers_ok L ops rs'
                  else page_aligned p \<and> p \<notin> L \<and> answers_ok (insert p L) ops rs')"
| "answers_ok L (PFree p # ops) rs \<longleftrightarrow>
     (case rs of [] \<Rightarrow> False | q # rs' \<Rightarrow> q = p \<and> p \<in> L \<and> answers_ok (L - {p}) ops rs')"

context page_allocator
begin

lemma alloc_cases:
  assumes "inv s L"
  obtains "alloc s = (0, s)"
  | p s' where "alloc s = (p, s')" "p \<noteq> 0" "page_aligned p" "p \<notin> L" "inv s' (insert p L)"
      "mem s' = mem_fill (mem s) p 0 4096"
proof (cases "alloc s")
  case (Pair p s')
  show ?thesis
  proof (cases "p = 0")
    case True
    then show ?thesis using that(1) alloc_null [OF assms] Pair by simp
  next
    case False
    then show ?thesis using that(2) alloc_fresh [OF assms Pair] Pair by blast
  qed
qed

lemma run_answers:
  "inv s L \<Longrightarrow> run_page_ops alloc free s ops = Inr (rs, s') \<Longrightarrow> answers_ok L ops rs"
proof (induction ops arbitrary: s L rs)
  case (Cons op ops)
  show ?case
  proof (cases op)
    case PAlloc
    from Cons.prems(1) show ?thesis
    proof (cases rule: alloc_cases)
      case 1
      then show ?thesis using Cons PAlloc by (auto split: sum.splits)
    next
      case (2 p t)
      then show ?thesis using Cons.IH [OF 2(5)] Cons.prems PAlloc by (auto split: sum.splits)
    qed
  next
    case (PFree p)
    have live: "p \<in> L" using free_dead [OF Cons.prems(1), of p] Cons.prems(2) PFree by (cases "p \<in> L") auto
    then obtain t where t: "free s p = Inr t" "inv t (L - {p})" using free_live [OF Cons.prems(1)] by blast
    then show ?thesis using Cons.IH [OF t(2)] Cons.prems(2) PFree live by (auto split: sum.splits)
  qed
qed simp

end

text \<open>The page allocator of mm/memory.c, where every allocated page has one reference.\<close>

definition page_inv :: "mstate \<Rightarrow> u64 set \<Rightarrow> bool" where
  "page_inv s L \<longleftrightarrow> (\<exists>fl refs. mem_inv s fl refs \<and> ran refs \<subseteq> {1} \<and> L = page_addr ` dom refs)"

definition put_ram :: "memory \<Rightarrow> mstate \<Rightarrow> mstate" where "put_ram m s = s\<lparr>ram := m\<rparr>"

lemma mem_inv_put [simp]: "mem_inv (put_ram m s) fl refs = mem_inv s fl refs"
  by (simp add: mem_inv_def put_ram_def)

lemma kalloc_cases:
  assumes "mem_inv s fl refs" "ran refs \<subseteq> {1}" "kalloc s = (p, s')"
  shows "(p = 0 \<and> s' = s) \<or> (page_aligned p \<and> p \<noteq> 0 \<and> p \<notin> page_addr ` dom refs \<and>
    page_inv s' (insert p (page_addr ` dom refs)) \<and> ram s' = mem_fill (ram s) p 0 4096)"
proof (cases fl)
  case Nil
  then show ?thesis using assms alloc_page_empty [of s refs] by (simp add: kalloc_def)
next
  case (Cons i fl')
  from alloc_page_take [of s i fl' refs] assms(1,3) Cons
  have p: "p = page_addr i" "mem_inv s' fl' (refs(i \<mapsto> 1))" "ram s' = mem_fill (ram s) (page_addr i) 0 4096"
    by (auto simp: kalloc_def)
  have b: "i < page_bound" "refs i = None" "\<And>j. j \<in> dom refs \<Longrightarrow> j < page_bound"
    using mem_invD(1) [OF assms(1)] assms(1) Cons by (auto simp: mem_inv_def)
  have "page_addr j \<noteq> page_addr i" if "j \<in> dom refs" for j
    using page_addr_inj [OF b(3) [OF that] b(1)] b(2) that by auto
  then have "p \<notin> page_addr ` dom refs" using p(1) by (metis imageE)
  moreover have "page_inv s' (insert p (page_addr ` dom refs))"
    unfolding page_inv_def
    by (intro exI [of _ fl'] exI [of _ "refs(i \<mapsto> 1)"]) (use p(1,2) assms(2) b(2) in \<open>auto simp: ran_def\<close>)
  ultimately show ?thesis using p b(1) by (simp add: page_addr_nz)
qed

interpretation pga: page_allocator page_inv kalloc kfree ram put_ram
proof
  fix s s' L p and m
  show "s' = s" if "page_inv s L" "kalloc s = (0, s')"
    using that kalloc_cases by (fastforce simp: page_inv_def)
  show "page_aligned p \<and> p \<notin> L \<and> page_inv s' (insert p L) \<and> ram s' = mem_fill (ram s) p 0 4096"
    if "page_inv s L" "kalloc s = (p, s')" "p \<noteq> 0"
    using that kalloc_cases unfolding page_inv_def [of s] by blast
  show "page_aligned p \<and> p \<noteq> 0" if i: "page_inv s L" "p \<in> L"
  proof -
    obtain fl refs i where r: "mem_inv s fl refs" "i \<in> dom refs" "p = page_addr i"
      using i by (auto simp: page_inv_def)
    then have "i < page_bound" using mem_invD(1) by blast
    then show ?thesis using r(3) by (simp add: page_addr_nz)
  qed
  show "\<exists>s'. kfree s p = Inr s' \<and> page_inv s' (L - {p}) \<and> ram s' = mem_fill (ram s) p 0 4096"
    if i: "page_inv s L" "p \<in> L"
  proof -
    obtain fl refs where r0: "mem_inv s fl refs" "ran refs \<subseteq> {1}" "L = page_addr ` dom refs"
      using i(1) unfolding page_inv_def by blast
    then obtain i n where i: "refs i = Some n" "p = page_addr i" using i(2) by auto
    then have "n = 1" using r0(2) ranI [of refs i n] by auto
    then have r: "mem_inv s fl refs" "ran refs \<subseteq> {1}" "L = page_addr ` dom refs" "refs i = Some 1" "p = page_addr i"
      using r0 i by simp_all
    obtain s' where s': "free_page s p = Inr s'" "mem_inv s' (fl @ [i]) (refs(i := None))"
        "ram s' = mem_fill (ram s) p 0 4096" using free_page_last [OF r(1,4)] r(5) by auto
    have "\<And>j. j \<in> dom refs \<Longrightarrow> j < page_bound" using mem_invD(1) [OF r(1)] by auto
    then have "page_addr j \<noteq> page_addr i" if "j \<in> dom refs" "j \<noteq> i" for j
      using page_addr_inj [of j i] r(4) that by blast
    then have "L - {p} = page_addr ` dom (refs(i := None))" using r(3,5) by auto
    then have "page_inv s' (L - {p})"
      unfolding page_inv_def by (intro exI [of _ "fl @ [i]"] exI [of _ "refs(i := None)"])
        (use s'(2) r(2) in \<open>auto simp: ran_def split: if_splits\<close>)
    then show ?thesis using s' by (auto simp: kfree_def)
  qed
  show "\<exists>msg. kfree s p = Inl (Panic msg)" if i: "page_inv s L" "p \<notin> L"
  proof -
    obtain fl refs where r: "mem_inv s fl refs" "L = page_addr ` dom refs" using i(1) by (auto simp: page_inv_def)
    then show ?thesis using free_page_bad [OF r(1), of p] i(2) by (auto simp: kfree_def)
  qed
  show "page_inv (put_ram m s) L = page_inv s L" by (simp add: page_inv_def)
  show "ram (put_ram m s) = m" by (simp add: put_ram_def)
qed

section \<open>Properties\<close>

text \<open>
  (C18) From a state that satisfies the invariant, \<open>alloc_page\<close> answers null and changes nothing when the
  free list is empty; otherwise it hands out the head of the free list with one reference, fills
  the page with zeros, leaves every other byte and every other descriptor alone, and the
  invariant holds for the shorter list.
\<close>

theorem alloc_page_spec:
  assumes "mem_inv s fl refs"
  shows "case fl of
      [] \<Rightarrow> alloc_page s = (0, s)
    | i # fl' \<Rightarrow> \<exists>s'. alloc_page s = (page_addr i, s') \<and> mem_inv s' fl' (refs(i \<mapsto> 1)) \<and>
        (\<forall>x. ram s' x = (if unat (x - page_addr i) < 4096 then 0 else ram s x)) \<and>
        (\<forall>j. j \<noteq> i \<longrightarrow> page_array s' j = page_array s j)"
proof (cases fl)
  case Nil
  then show ?thesis using assms by (simp add: alloc_page_empty)
next
  case (Cons i fl')
  then show ?thesis using alloc_page_take [of s i fl' refs] assms by (auto simp: mem_fill_def)
qed


text \<open>
  (C20) \<open>free_page\<close> panics on everything else: null, misaligned and out-of-range addresses, reserved
  pages and pages that are free already (double free).
\<close>

theorem free_page_rejects:
  assumes "mem_inv s fl refs" "\<not> (\<exists>i n. pa = page_addr i \<and> refs i = Some n)"
  shows "\<exists>msg. free_page s pa = Inl (Panic msg)"
  using assms by (rule free_page_bad)

text \<open>
  (C4) Whatever sequence of allocations and releases the kernel makes, if none of them panics then
  every page handed out is page aligned and was not live at that moment, and only live pages
  were released: the allocator never gives out a page twice.
\<close>

theorem kalloc_no_double_allocation:
  assumes "page_inv s L" "run_page_ops kalloc kfree s ops = Inr (rs, s')"
  shows "answers_ok L ops rs"
  using assms by (rule pga.run_answers)

text \<open>A small machine: three pages, the middle one allocated, the others free.\<close>

definition demo_mem :: mstate where
  "demo_mem = \<lparr>ram = (\<lambda>_. 7),
     page_array = (\<lambda>i. zero_page\<lparr>paddr := page_addr i, pg_next := (if i = 1 then Some 3 else None),
        flags := (if i = 2 then PG_FLAG_USED else 0), refcount := (if i = 2 then 1 else 0)\<rparr>),
     gmd = \<lparr>gmd_pg = None, kernel_head = None, kernel_tail = None, fdt_head = None, fdt_tail = None,
        dma_head = None, dma_tail = None, dma_start_at = 0, dma_end_at = 0, free_head = Some 1,
        free_tail = Some 3, free_start_at = page_addr 1, free_end_at = page_addr 3, page_length = 4\<rparr>,
     mem_info = \<lparr>banks = (\<lambda>_. \<lparr>base = 0, bank_size = 0\<rparr>), nr_banks = 0\<rparr>,
     MEMORY_SIZE = 0, memory_init_status = 1, memory_init_lock = unlocked, memory_lock = unlocked\<rparr>"

lemma demo_mem_inv: "mem_inv demo_mem [1, 3] [2 \<mapsto> 1]"
  by (rule mem_invI [of 1 3])
    (auto simp: demo_mem_def zero_page_def page_bound_def split: if_splits)

theorem alloc_page_spec_witness: "fst (alloc_page demo_mem) = page_addr 1 \<and> ram (snd (alloc_page demo_mem)) (page_addr 1) = 0"
  using alloc_page_spec [OF demo_mem_inv] by auto


theorem free_page_rejects_witness: "\<exists>msg. free_page demo_mem (page_addr 1) = Inl (Panic msg)"
proof (rule free_page_rejects [OF demo_mem_inv])
  show "\<not> (\<exists>i n. page_addr 1 = page_addr i \<and> [2 \<mapsto> 1] i = Some n)"
    using page_addr_inj [of 1 2] by (auto simp: page_bound_def split: if_splits)
qed

theorem kalloc_no_double_allocation_witness:
  "\<exists>rs s'. run_page_ops kalloc kfree demo_mem [PFree (page_addr 2), PAlloc, PAlloc] = Inr (rs, s') \<and>
     answers_ok {page_addr 2} [PFree (page_addr 2), PAlloc, PAlloc] rs"
proof -
  have i: "page_inv demo_mem {page_addr 2}"
    unfolding page_inv_def by (rule exI [of _ "[1, 3]"], rule exI [of _ "[2 \<mapsto> 1]"]) (use demo_mem_inv in simp)
  obtain s' where s': "kfree demo_mem (page_addr 2) = Inr s'"
    using free_page_last [OF demo_mem_inv, of 2] by (auto simp: kfree_def)
  moreover obtain p1 s1 where "kalloc s' = (p1, s1)" by (cases "kalloc s'")
  moreover obtain p2 s2 where "kalloc s1 = (p2, s2)" by (cases "kalloc s1")
  ultimately have "run_page_ops kalloc kfree demo_mem [PFree (page_addr 2), PAlloc, PAlloc] =
      Inr ([page_addr 2, p1, p2], s2)" by simp
  then show ?thesis using kalloc_no_double_allocation [OF i] by blast
qed

end
