(* ===== verification/MemoryDetect.thy ===== *)
theory MemoryDetect
  imports Memory
begin

text \<open>
  What \<open>init_memory\<close> of mm/memory.c learns from the device tree: the walk of kernel/fdt.c with the callback
  \<open>detect_memory_info\<close> records exactly the memory banks that the tree describes.
\<close>

section \<open>The banks of a tree\<close>

text \<open>The nodes of a tree in the order of the blob.\<close>

fun all_nodes :: "dtree \<Rightarrow> dtree list" and items_nodes :: "ditem list \<Rightarrow> dtree list"
  and item_nodes :: "ditem \<Rightarrow> dtree list" where
  "all_nodes (DNode nm its) = DNode nm its # items_nodes its"
| "items_nodes [] = []"
| "items_nodes (x # xs) = item_nodes x @ items_nodes xs"
| "item_nodes (DProp off v) = []"
| "item_nodes (DChild t) = all_nodes t"
| "item_nodes DNop = []"

text \<open>The properties at the start of a node, and what follows them.\<close>

fun node_props :: "ditem list \<Rightarrow> (u32 \<times> u8 list) list" where
  "node_props (DProp off v # xs) = (off, v) # node_props xs"
| "node_props xs = []"

fun after_props :: "ditem list \<Rightarrow> ditem list" where
  "after_props (DProp off v # xs) = after_props xs"
| "after_props xs = xs"

definition cbytes :: "string \<Rightarrow> u8 list" where "cbytes s = map (\<lambda>c. word_of_nat (of_char c)) s"

text \<open>\<open>names off\<close> is the property name at offset \<open>off\<close> of the strings block.\<close>

definition prop_value :: "(u32 \<Rightarrow> u8 list) \<Rightarrow> string \<Rightarrow> ditem list \<Rightarrow> u8 list option" where
  "prop_value names pn its = map_option snd (find (\<lambda>(off, v). names off = cbytes pn) (node_props its))"

text \<open>A big-endian number, and the 64-bit field at byte \<open>k\<close> of a value, which zeros follow.\<close>

definition be_nat :: "u8 list \<Rightarrow> nat" where "be_nat bs = foldl (\<lambda>a b. 256 * a + unat b) 0 bs"

definition be_field :: "u8 list \<Rightarrow> nat \<Rightarrow> nat" where
  "be_field v k = be_nat (take 8 (drop k (v @ replicate 16 0)))"

text \<open>A node with \<^verbatim>\<open>device_type = "memory"\<close> describes the bank of its \<^verbatim>\<open>reg\<close> property.\<close>

fun node_bank :: "(u32 \<Rightarrow> u8 list) \<Rightarrow> dtree \<Rightarrow> bank list" where
  "node_bank names (DNode nm its) =
     (case prop_value names ''device_type'' its of
        None \<Rightarrow> []
      | Some v \<Rightarrow>
          if v = [] \<or> 128 < length v \<or> takeWhile (\<lambda>b. b \<noteq> 0) v \<noteq> cbytes ''memory'' then []
          else case prop_value names ''reg'' its of
            None \<Rightarrow> []
          | Some r \<Rightarrow> if r = [] \<or> 128 < length r then []
              else [\<lparr>base = of_nat (be_field r 0), bank_size = of_nat (be_field r 8)\<rparr>])"

definition tree_banks :: "(u32 \<Rightarrow> u8 list) \<Rightarrow> dtree list \<Rightarrow> bank list" where
  "tree_banks names ts = concat (map (node_bank names) (concat (map all_nodes ts)))"

text \<open>
  A well-formed blob: the flattened trees, with properties before child nodes, short node names and a
  terminated device type, the strings block, and the literals of the kernel image.
\<close>

fun node_ok :: "fdt_state \<Rightarrow> (u32 \<Rightarrow> u8 list) \<Rightarrow> memory \<Rightarrow> dtree \<Rightarrow> bool" where
  "node_ok fdt names m (DNode nm its) \<longleftrightarrow>
     length nm < 128 \<and> (after_props its = [] \<or> hd (after_props its) \<noteq> DNop) \<and>
     list_all (\<lambda>(off, v). name_at fdt m off (names off)) (node_props its) \<and>
     prop_value names ''device_type'' its \<notin> Some ` {v. length v = 128}"

definition blob_ok :: "literals \<Rightarrow> fdt_state \<Rightarrow> (u32 \<Rightarrow> u8 list) \<Rightarrow> dtree list \<Rightarrow> memory \<Rightarrow> bool" where
  "blob_ok lit fdt names ts m \<longleftrightarrow>
     flat_nodes m (sub_node_base_addr fdt) ts \<and> list_all (node_ok fdt names m) (concat (map all_nodes ts)) \<and>
     list_all (\<lambda>s. cstr m (lit s) (cbytes s)) [''device_type'', ''memory'', ''reg'']"

text \<open>Two memories that differ at most in the 128 bytes of the callback's buffer.\<close>

definition same_outside :: "u64 \<Rightarrow> memory \<Rightarrow> memory \<Rightarrow> bool" where
  "same_outside buf m m' \<longleftrightarrow> (\<forall>x. 128 \<le> unat (x - buf) \<longrightarrow> m' x = m x)"

section \<open>Big-endian words\<close>

lemma or_shift:
  fixes a b :: "'a :: len word"
  assumes "drop_bit k b = 0"
  shows "push_bit k a OR b = push_bit k a + b"
proof -
  have "\<not> bit b n" if "k \<le> n" for n
    using assms that bit_drop_bit_eq [of k b] by (metis bit_0_eq bot_apply bot_bool_def comp_apply le_add_diff_inverse)
  then have "push_bit k a AND b = 0" by (intro bit_word_eqI) (auto simp: bit_simps)
  then show ?thesis by (simp add: disjunctive_add_eq_or)
qed

lemma bte32_be: "bte32 m p = of_nat (be_nat (bytes m p 4))"
proof -
  have z: "drop_bit 8 (ucast (b :: u8) :: u32) = 0" for b by (rule bit_word_eqI) (auto simp: bit_simps dest: bit_imp_le_length)
  have "bte32 m p = push_bit 8 (push_bit 8 (push_bit 8 (ucast (m p)) OR ucast (m (p + 1))) OR ucast (m (p + 2))) OR ucast (m (p + 3))"
    unfolding bte32_def by (rule bit_word_eqI) (auto simp: bit_simps)
  also have "\<dots> = of_nat (be_nat (bytes m p 4))"
    unfolding or_shift [OF z] by (simp add: push_bit_eq_mult be_nat_def bytes_def upt_rec algebra_simps)
  finally show ?thesis .
qed

lemma be_nat_snoc: "be_nat (bs @ [b]) = 256 * be_nat bs + unat b"
  by (simp add: be_nat_def)

lemma be_nat_append: "be_nat (xs @ ys) = be_nat xs * 256 ^ length ys + be_nat ys"
proof (induction ys rule: rev_induct)
  case Nil
  show ?case by (simp add: be_nat_def [of "[]"])
next
  case (snoc y ys)
  then show ?case using be_nat_snoc [of "xs @ ys" y] be_nat_snoc [of ys y] by (simp add: algebra_simps)
qed

lemma be_nat_bound: "be_nat bs < 256 ^ length bs"
proof (induction bs rule: rev_induct)
  case (snoc b bs)
  have "unat b < 256" using unsigned_less [of b] by simp
  then show ?case using snoc be_nat_snoc [of bs b] by simp
qed (simp add: be_nat_def)

lemma bytes_4_4: "bytes m p 8 = bytes m p 4 @ bytes m (p + 4) 4"
  by (simp add: bytes_def upt_rec add.commute)

lemma bte64_be: "bte64 m p = of_nat (be_nat (bytes m p 8))"
proof -
  have u: "(ucast (bte32 m q) :: u64) = of_nat (be_nat (bytes m q 4))" for q
    using be_nat_bound [of "bytes m q 4"] ucast_small_u32 [of "be_nat (bytes m q 4)"] by (simp add: bte32_be)
  have z: "drop_bit 32 (ucast (w :: u32) :: u64) = 0" for w by (rule bit_word_eqI) (auto simp: bit_simps dest: bit_imp_le_length)
  have "bte64 m p = push_bit 32 (ucast (bte32 m p)) + ucast (bte32 m (p + 4))" unfolding bte64_def by (rule or_shift [OF z])
  then show ?thesis unfolding u bytes_4_4 be_nat_append by (simp add: push_bit_eq_mult)
qed

section \<open>Reading one property\<close>

lemma items_split: "its = map (\<lambda>(off, v). DProp off v) (node_props its) @ after_props its"
  by (induction its rule: node_props.induct) auto

lemma after_props_hd: "after_props its = x # xs \<Longrightarrow> x = DNop \<or> (\<exists>t. x = DChild t)"
  by (induction its rule: after_props.induct) auto

lemma items_end_append: "items_end p (xs @ ys) = items_end (items_end p xs) ys"
  by (induction xs arbitrary: p) simp_all

lemma flat_items_append: "flat_items m p (xs @ ys) \<longleftrightarrow> flat_items m p xs \<and> flat_items m (items_end p xs) ys"
  by (induction xs arbitrary: p) auto

text \<open>The properties of a node as \<^verbatim>\<open>read_node_prop\<close> sees them.\<close>

definition named_props :: "(u32 \<Rightarrow> u8 list) \<Rightarrow> ditem list \<Rightarrow> ((u8 list \<times> u32) \<times> u8 list) list" where
  "named_props names its = map (\<lambda>(off, v). ((names off, off), v)) (node_props its)"

lemma named_props_items: "map (\<lambda>((n, off), v). DProp off v) (named_props names its) = map (\<lambda>(off, v). DProp off v) (node_props its)"
  by (simp add: named_props_def case_prod_unfold)

lemma node_props_flat:
  assumes "flat_node m p (DNode nm its)" "node_ok fdt names m (DNode nm its)"
  shows "flat_items m (body_addr p nm) (map (\<lambda>((n, off), v). DProp off v) (named_props names its))"
    "bte32 m (items_end (body_addr p nm) (map (\<lambda>((n, off), v). DProp off v) (named_props names its))) \<notin> {FDT_PROP, FDT_NOP}"
proof -
  let ?b = "body_addr p nm" and ?ps = "map (\<lambda>(off, v). DProp off v) (node_props its)"
  have f: "flat_items m ?b (?ps @ after_props its)" "bte32 m (items_end ?b (?ps @ after_props its)) = FDT_END_NODE"
    unfolding items_split [symmetric] using assms(1) by (simp_all add: Let_def)
  then show "flat_items m ?b (map (\<lambda>((n, off), v). DProp off v) (named_props names its))"
    unfolding named_props_items by (simp add: flat_items_append)
  show "bte32 m (items_end ?b (map (\<lambda>((n, off), v). DProp off v) (named_props names its))) \<notin> {FDT_PROP, FDT_NOP}"
    unfolding named_props_items
  proof (cases "after_props its")
    case Nil
    then show "bte32 m (items_end ?b ?ps) \<notin> {FDT_PROP, FDT_NOP}" using f(2) by (simp add: fdt_tokens)
  next
    case (Cons x xs)
    then obtain t where "x = DChild t" using after_props_hd [OF Cons] assms(2) by auto
    then have "flat_node m (items_end ?b ?ps) t" using f(1) Cons by (simp add: flat_items_append)
    then show "bte32 m (items_end ?b ?ps) \<notin> {FDT_PROP, FDT_NOP}" using flat_node_begin by (simp add: fdt_tokens)
  qed
qed

lemma lookup_prop_value:
  "case lookup_prop p nm (map (\<lambda>(off, v). ((names off, off), v)) ps) of
     None \<Rightarrow> find (\<lambda>(off, v). names off = nm) ps = None
   | Some (a, v) \<Rightarrow> map_option snd (find (\<lambda>(off, v). names off = nm) ps) = Some v \<and>
       (\<forall>m. flat_items m p (map (\<lambda>(off, v). DProp off v) ps) \<longrightarrow> bytes m a (length v) = v)"
proof (induction ps arbitrary: p)
  case (Cons q ps)
  obtain off v where q: "q = (off, v)" by (cases q)
  show ?case using Cons.IH [of "item_end p (DProp off v)"] by (auto simp: q split: option.splits)
qed simp

lemma prop_value_lookup:
  "case lookup_prop p (cbytes pn) (named_props names its) of
     None \<Rightarrow> prop_value names pn its = None
   | Some (a, v) \<Rightarrow> prop_value names pn its = Some v \<and>
       (\<forall>m. flat_items m p (map (\<lambda>((n, off), v). DProp off v) (named_props names its)) \<longrightarrow> bytes m a (length v) = v)"
  using lookup_prop_value [where p = p and nm = "cbytes pn" and names = names and ps = "node_props its"]
  unfolding named_props_items by (auto simp: named_props_def prop_value_def split: option.splits)

text \<open>Bytes that no change of the buffer can affect do not lie in the buffer.\<close>

lemma not_in_buffer:
  assumes "\<forall>m. same_outside buf m0 m \<longrightarrow> bytes m a n = v" "i < n"
  shows "128 \<le> unat (a + of_nat i - buf)"
proof (rule ccontr)
  assume b: "\<not> 128 \<le> unat (a + of_nat i - buf)"
  let ?m = "m0(a + of_nat i := m0 (a + of_nat i) + 1)"
  have "same_outside buf m0 ?m" "same_outside buf m0 m0" using b by (auto simp: same_outside_def)
  then have "bytes ?m a n ! i = bytes m0 a n ! i" using assms(1) by simp
  then show False using assms(2) by simp
qed

definition buffer_holds :: "u64 \<Rightarrow> u8 list \<Rightarrow> memory \<Rightarrow> bool" where
  "buffer_holds buf v m \<longleftrightarrow> (\<forall>i < 128. m (buf + of_nat i) = (if i < length v then v ! i else 0))"

lemma memset_buffer:
  "buffer_holds buf [] (memset m buf 0 128)" "same_outside buf m0 m \<Longrightarrow> same_outside buf m0 (memset m buf 0 128)"
  by (simp_all add: memset_eq mem_fill_def buffer_holds_def same_outside_def unat_of_nat_small)

lemma copy_to_buffer:
  assumes m: "same_outside buf m0 m" "buffer_holds buf [] m"
    and v: "\<forall>m. same_outside buf m0 m \<longrightarrow> bytes m a (length v) = v" "length v \<le> 128"
  shows "\<exists>m'. memcpy m buf a (of_nat (length v)) = Some m' \<and> same_outside buf m0 m' \<and> buffer_holds buf v m'"
proof -
  have u: "unat (of_nat (length v) :: u64) = length v" using v(2) by (simp add: unat_of_nat_small)
  have "fwd_ok buf a (length v)"
  proof (rule ccontr)
    assume "\<not> fwd_ok buf a (length v)"
    then have "unat (buf - a) < length v" by (simp add: fwd_ok_def)
    from not_in_buffer [OF v(1) this] show False by simp
  qed
  then have c: "memcpy m buf a (of_nat (length v)) = Some (mem_copy m buf a (length v))"
    using memcpy_eq [of buf a "of_nat (length v)" m] v(2) by (simp add: u)
  have "same_outside buf m0 (mem_copy m buf a (length v))" using m(1) v(2) by (simp add: same_outside_def mem_copy_def)
  moreover have "mem_copy m buf a (length v) (buf + of_nat i) = (if i < length v then v ! i else 0)" if "i < 128" for i
  proof -
    have "m (a + of_nat i) = v ! i" if "i < length v" using v(1) [rule_format, OF m(1)] nth_bytes [OF that, of m a] by simp
    then show ?thesis using m(2) that by (simp add: mem_copy_def buffer_holds_def unat_of_nat_small)
  qed
  ultimately show ?thesis using c by (auto simp: buffer_holds_def)
qed

lemma read_prop_value:
  assumes ok: "\<forall>m. same_outside buf m0 m \<longrightarrow> flat_node m p (DNode nm its) \<and> node_ok fdt names m (DNode nm its) \<and> cstr m pa (cbytes pn)"
    and m: "same_outside buf m0 m" "buffer_holds buf [] m"
  shows "case prop_value names pn its of
      None \<Rightarrow> read_node_prop fdt m p pa buf 128 = Some (0, m)
    | Some v \<Rightarrow> if 128 < length v then read_node_prop fdt m p pa buf 128 = Some (- 1, m)
        else \<exists>m'. read_node_prop fdt m p pa buf 128 = Some (int (length v), m') \<and> same_outside buf m0 m' \<and> buffer_holds buf v m'"
proof -
  have f: "flat_node m p (DNode nm its)" "node_ok fdt names m (DNode nm its)" "cstr m pa (cbytes pn)"
    using ok m(1) by blast+
  have n: "name_at fdt m off n" if "((n, off), v) \<in> set (named_props names its)" for n off v
    using f(2) that by (auto simp: named_props_def list_all_iff)
  have r: "read_node_prop fdt m p pa buf 128 =
      (case lookup_prop (body_addr p nm) (cbytes pn) (named_props names its) of
         None \<Rightarrow> Some (0, m)
       | Some (a, v) \<Rightarrow> if 128 < int (length v) then Some (- 1, m)
                       else map_option (Pair (int (length v))) (memcpy m buf a (of_nat (length v))))"
  proof -
    have s: "sint (128 :: i32) = 128" by (simp add: sint_uint)
    have h: "bte32 m p = FDT_BEGIN_NODE" "cstr m (p + 4) nm" "length nm < 128" using f(1,2) by (simp_all add: Let_def)
    show ?thesis
      using read_node_prop_flat [OF h f(3) node_props_flat(1) [OF f(1,2)] n node_props_flat(2) [OF f(1,2)], where dest = buf and sz = 128]
      unfolding s by simp
  qed
  show ?thesis
  proof (cases "lookup_prop (body_addr p nm) (cbytes pn) (named_props names its)")
    case None
    then show ?thesis using r prop_value_lookup [where p = "body_addr p nm" and pn = pn and names = names and its = its] by simp
  next
    case (Some av)
    obtain a v where av: "av = (a, v)" by (cases av)
    have pv: "prop_value names pn its = Some v" and
      b: "\<And>m. flat_items m (body_addr p nm) (map (\<lambda>((n, off), v). DProp off v) (named_props names its)) \<Longrightarrow> bytes m a (length v) = v"
      using prop_value_lookup [where p = "body_addr p nm" and pn = pn and names = names and its = its] Some av by simp_all
    have bs: "\<forall>m. same_outside buf m0 m \<longrightarrow> bytes m a (length v) = v"
    proof (intro allI impI)
      fix m1 assume "same_outside buf m0 m1"
      then have "flat_node m1 p (DNode nm its)" "node_ok fdt names m1 (DNode nm its)" using ok by blast+
      then show "bytes m1 a (length v) = v" by (rule b [OF node_props_flat(1)])
    qed
    show ?thesis
    proof (cases "128 < length v")
      case False
      then obtain m' where "memcpy m buf a (of_nat (length v)) = Some m'" "same_outside buf m0 m'" "buffer_holds buf v m'"
        using copy_to_buffer [OF m bs] by auto
      then show ?thesis using r pv Some av False by auto
    qed (use r pv Some av in simp)
  qed
qed

section \<open>The callback\<close>

lemma cstr_takeWhile:
  "(\<And>i. i < length v \<Longrightarrow> m (a + of_nat i) = v ! i) \<Longrightarrow> m (a + of_nat (length v)) = 0 \<Longrightarrow> cstr m a (takeWhile (\<lambda>b. b \<noteq> 0) v)"
proof (induction v arbitrary: a)
  case (Cons x v)
  have "m (a + 1 + of_nat i) = v ! i" if "i < length v" for i using Cons.prems(1) [of "Suc i"] that by (simp add: ac_simps)
  moreover have "m (a + 1 + of_nat (length v)) = 0" using Cons.prems(2) by (simp add: ac_simps)
  ultimately have "cstr m (a + 1) (takeWhile (\<lambda>b. b \<noteq> 0) v)" by (rule Cons.IH)
  then show ?case using Cons.prems(1) [of 0] by simp
qed simp

lemma buffer_cstr: "buffer_holds buf v m \<Longrightarrow> length v < 128 \<Longrightarrow> cstr m buf (takeWhile (\<lambda>b. b \<noteq> 0) v)"
  by (rule cstr_takeWhile) (simp_all add: buffer_holds_def)

lemma buffer_field:
  assumes "buffer_holds buf v m" "k \<le> 8"
  shows "bte64 m (buf + of_nat k) = of_nat (be_field v k)"
proof -
  have "bytes m (buf + of_nat k) 8 = take 8 (drop k (v @ replicate 16 0))"
  proof (rule nth_equalityI)
    fix i assume "i < length (bytes m (buf + of_nat k) 8)"
    then have i: "i < 8" by simp
    have "m (buf + of_nat k + of_nat i) = (if k + i < length v then v ! (k + i) else 0)"
      using assms(1) [unfolded buffer_holds_def, rule_format, of "k + i"] assms(2) i by (simp add: add.assoc)
    then show "bytes m (buf + of_nat k) 8 ! i = take 8 (drop k (v @ replicate 16 0)) ! i"
      using i assms(2) by (auto simp: nth_append)
  qed (use assms(2) in simp)
  then show ?thesis by (simp add: bte64_be be_field_def)
qed

definition add_bank :: "memory_info \<Rightarrow> bank \<Rightarrow> memory_info" where
  "add_bank mi b = mi\<lparr>banks := (banks mi)(nr_banks mi := b), nr_banks := nr_banks mi + 1\<rparr>"

definition literals_ok :: "literals \<Rightarrow> memory \<Rightarrow> bool" where
  "literals_ok lit m \<longleftrightarrow> list_all (\<lambda>s. cstr m (lit s) (cbytes s)) [''device_type'', ''memory'', ''reg'']"

lemma detect_node:
  assumes ok: "\<forall>m. same_outside buf m0 m \<longrightarrow> flat_node m p t \<and> node_ok fdt names m t \<and> literals_ok lit m"
    and m: "same_outside buf m0 m"
  shows "\<exists>m'. detect_memory_info lit fdt buf nm' d p (m, mi) = Some (0, m', foldl add_bank mi (node_bank names t)) \<and> same_outside buf m0 m'"
proof -
  obtain nm its where t: "t = DNode nm its" by (cases t)
  have rd: "\<forall>m. same_outside buf m0 m \<longrightarrow> flat_node m p (DNode nm its) \<and> node_ok fdt names m (DNode nm its) \<and> cstr m (lit s) (cbytes s)"
    if "s \<in> {''device_type'', ''reg''}" for s
    using ok that unfolding t literals_ok_def by auto
  define m1 where "m1 = memset m buf 0 128"
  have m1: "same_outside buf m0 m1" "buffer_holds buf [] m1" using memset_buffer m by (simp_all add: m1_def)
  have dt: "\<forall>m. same_outside buf m0 m \<longrightarrow> flat_node m p (DNode nm its) \<and> node_ok fdt names m (DNode nm its) \<and> cstr m (lit ''device_type'') (cbytes ''device_type'')"
    by (rule rd) simp
  note r1 = read_prop_value [OF dt m1]
  show ?thesis
  proof (cases "prop_value names ''device_type'' its")
    case None
    then show ?thesis using r1 m1(1) by (simp add: detect_memory_info_def Let_def t flip: m1_def)
  next
    case (Some v)
    show ?thesis
    proof (cases "128 < length v")
      case True
      then show ?thesis using r1 m1(1) Some by (simp add: detect_memory_info_def Let_def t flip: m1_def)
    next
      case False
      then obtain m2 where m2: "read_node_prop fdt m1 p (lit ''device_type'') buf 128 = Some (int (length v), m2)"
        "same_outside buf m0 m2" "buffer_holds buf v m2" using r1 Some by auto
      have "node_ok fdt names m (DNode nm its)" using ok m t by blast
      then have lv: "length v < 128" using False Some by auto
      have "cstr m2 (lit ''memory'') (cbytes ''memory'')" using ok m2(2) by (simp add: literals_ok_def)
      then obtain c where c: "strcmp m2 buf (lit ''memory'') = Some c" "c = 0 \<longleftrightarrow> takeWhile (\<lambda>b. b \<noteq> 0) v = cbytes ''memory''"
        using strcmp_cstr_eq [OF buffer_cstr [OF m2(3) lv]] by blast
      define m3 where "m3 = memset m2 buf 0 128"
      have m3: "same_outside buf m0 m3" "buffer_holds buf [] m3" using memset_buffer m2(2) by (simp_all add: m3_def)
      have rg: "\<forall>m. same_outside buf m0 m \<longrightarrow> flat_node m p (DNode nm its) \<and> node_ok fdt names m (DNode nm its) \<and> cstr m (lit ''reg'') (cbytes ''reg'')"
        by (rule rd) simp
      note r2 = read_prop_value [OF rg m3]
      have step: "detect_memory_info lit fdt buf nm' d p (m, mi) =
        (if v = [] \<or> c \<noteq> 0 then Some (0, m2, mi)
         else Option.bind (read_node_prop fdt m3 p (lit ''reg'') buf 128) (\<lambda>(res, m4).
           if res \<le> 0 then Some (0, m4, mi)
           else Some (0, m4, add_bank mi \<lparr>base = bte64 m4 buf, bank_size = bte64 m4 (buf + 8)\<rparr>)))"
        unfolding add_bank_def using m2(1) c(1) by (simp add: detect_memory_info_def Let_def flip: m1_def m3_def)
      show ?thesis
      proof (cases "v = [] \<or> c \<noteq> 0")
        case True
        then have "node_bank names t = []" using Some c(2) by (auto simp: t)
        then show ?thesis using step True m2(2) by simp
      next
        case hit: False
        then have nb: "node_bank names t = (case prop_value names ''reg'' its of None \<Rightarrow> []
            | Some r \<Rightarrow> if r = [] \<or> 128 < length r then [] else [\<lparr>base = of_nat (be_field r 0), bank_size = of_nat (be_field r 8)\<rparr>])"
          using Some c(2) False by (simp add: t)
        show ?thesis
        proof (cases "prop_value names ''reg'' its")
          case None
          then show ?thesis using r2 step nb hit m3(1) by simp
        next
          case r: (Some r)
          show ?thesis
          proof (cases "128 < length r")
            case True
            then show ?thesis using r2 step nb r hit m3(1) by simp
          next
            case False
            then obtain m4 where m4: "read_node_prop fdt m3 p (lit ''reg'') buf 128 = Some (int (length r), m4)"
              "same_outside buf m0 m4" "buffer_holds buf r m4" using r2 r by auto
            have "bte64 m4 buf = of_nat (be_field r 0)" "bte64 m4 (buf + 8) = of_nat (be_field r 8)"
              using buffer_field [OF m4(3), of 0] buffer_field [OF m4(3), of 8] by simp_all
            then show ?thesis using m4(1,2) step nb r False hit by simp
          qed
        qed
      qed
    qed
  qed
qed

text \<open>The walk visits the nodes of the trees, each at its place.\<close>

lemma preorder_flat:
  "list_all2 (\<lambda>(d', p') t'. \<forall>m. flat_node m p t \<longrightarrow> flat_node m p' t') (preorder d p t) (all_nodes t)"
  "list_all2 (\<lambda>(d', p') t'. \<forall>m. flat_items m p its \<longrightarrow> flat_node m p' t') (preorder_items d p its) (items_nodes its)"
  "list_all2 (\<lambda>(d', p') t'. \<forall>m. flat_item m p x \<longrightarrow> flat_node m p' t') (preorder_item d p x) (item_nodes x)"
proof (induction p t and p its and p x arbitrary: d and d and d rule: node_end_items_end_item_end.induct)
  case (1 p nm its)
  show ?case using list_all2_mono [OF 1 [of d]] by (auto simp: Let_def elim!: list_all2_mono)
next
  case (3 p x xs)
  have "list_all2 (\<lambda>(d', p') t'. \<forall>m. flat_items m p (x # xs) \<longrightarrow> flat_node m p' t') (preorder_item d p x) (item_nodes x)"
    using 3(1) [of d] by (rule list_all2_mono) auto
  moreover have "list_all2 (\<lambda>(d', p') t'. \<forall>m. flat_items m p (x # xs) \<longrightarrow> flat_node m p' t') (preorder_items d (item_end p x) xs) (items_nodes xs)"
    using 3(2) [of d] by (rule list_all2_mono) auto
  ultimately show ?case by (simp add: list_all2_appendI)
qed auto

lemma preorder_nodes_flat:
  "list_all2 (\<lambda>(d', p') t'. \<forall>m. flat_nodes m p ts \<longrightarrow> flat_node m p' t') (preorder_nodes p ts) (concat (map all_nodes ts))"
proof (induction ts arbitrary: p)
  case (Cons t ts)
  have "list_all2 (\<lambda>(d', p') t'. \<forall>m. flat_nodes m p (t # ts) \<longrightarrow> flat_node m p' t') (preorder 0 p t) (all_nodes t)"
    using preorder_flat(1) [of p t 0] by (rule list_all2_mono) auto
  moreover have "list_all2 (\<lambda>(d', p') t'. \<forall>m. flat_nodes m p (t # ts) \<longrightarrow> flat_node m p' t')
      (preorder_nodes (node_end p t) ts) (concat (map all_nodes ts))"
    using Cons.IH [of "node_end p t"] by (rule list_all2_mono) auto
  ultimately show ?case by (simp add: list_all2_appendI)
qed simp

lemma detect_run:
  assumes "list_all2 (\<lambda>(d, p) t. \<forall>m. same_outside buf m0 m \<longrightarrow> flat_node m p t \<and> node_ok fdt names m t \<and> literals_ok lit m) ps ns"
    and "same_outside buf m0 m"
  shows "\<exists>m'. run_callback (detect_memory_info lit fdt buf) ps (m, mi) = Some (m', foldl add_bank mi (concat (map (node_bank names) ns))) \<and>
    same_outside buf m0 m'"
  using assms
proof (induction arbitrary: m mi rule: list_all2_induct)
  case (Cons q ps t ns)
  obtain d p where q: "q = (d, p)" by (cases q)
  have ok: "\<forall>m. same_outside buf m0 m \<longrightarrow> flat_node m p t \<and> node_ok fdt names m t \<and> literals_ok lit m" using Cons.hyps(1) q by simp
  obtain m1 where m1: "detect_memory_info lit fdt buf (p + 4) d p (m, mi) = Some (0, m1, foldl add_bank mi (node_bank names t))" "same_outside buf m0 m1"
    using detect_node [OF ok Cons.prems] by blast
  show ?case using Cons.IH [OF m1(2), of "foldl add_bank mi (node_bank names t)"] m1(1) by (simp add: q)
qed simp

lemma detect_walk:
  assumes ok: "\<forall>m. same_outside buf m0 m \<longrightarrow> blob_ok lit fdt names ts m"
  shows "\<exists>m'. fdt_walk_nodes (detect_memory_info lit fdt buf) (sub_node_base_addr fdt) (m0, mi) =
      Some (m', foldl add_bank mi (tree_banks names ts)) \<and> same_outside buf m0 m'"
proof -
  let ?p = "sub_node_base_addr fdt" and ?ns = "concat (map all_nodes ts)"
  have same: "same_outside buf m0 m0" by (simp add: same_outside_def)
  have all: "list_all2 (\<lambda>(d, p) t. \<forall>m. same_outside buf m0 m \<longrightarrow> flat_node m p t \<and> node_ok fdt names m t \<and> literals_ok lit m) (preorder_nodes ?p ts) ?ns"
    (is "list_all2 ?R _ _")
  proof (rule list_all2_all_nthI)
    show len: "length (preorder_nodes ?p ts) = length ?ns" using preorder_nodes_flat list_all2_lengthD by blast
    fix i assume i: "i < length (preorder_nodes ?p ts)"
    have "?ns ! i \<in> set ?ns" by (rule nth_mem) (use i len in simp)
    then show "?R (preorder_nodes ?p ts ! i) (?ns ! i)"
      using list_all2_nthD [OF preorder_nodes_flat i] ok unfolding blob_ok_def literals_ok_def list_all_iff [of "node_ok fdt names _"] by fastforce
  qed
  have cb: "\<exists>st'. detect_memory_info lit fdt buf (p + 4) d p st = Some (0, st') \<and> same_outside buf m0 (fst st')"
    if v: "(d, p) \<in> set (preorder_nodes ?p ts)" and st: "same_outside buf m0 (fst st)" for d p st
  proof -
    obtain i where i: "i < length (preorder_nodes ?p ts)" "preorder_nodes ?p ts ! i = (d, p)" using v by (meson in_set_conv_nth)
    have "\<forall>m. same_outside buf m0 m \<longrightarrow> flat_node m p (?ns ! i) \<and> node_ok fdt names m (?ns ! i) \<and> literals_ok lit m"
      using list_all2_nthD [OF all i(1)] i(2) by simp
    from detect_node [OF this st, of "p + 4" d "snd st"] show ?thesis by auto
  qed
  have "\<exists>st'. fdt_walk_nodes (detect_memory_info lit fdt buf) ?p (m0, mi) = Some st' \<and>
      run_callback (detect_memory_info lit fdt buf) (preorder_nodes ?p ts) (m0, mi) = Some st' \<and> same_outside buf m0 (fst st')"
    by (rule fdt_walk_nodes_visited [of "set (preorder_nodes ?p ts)" "\<lambda>st. same_outside buf m0 (fst st)"])
      (use cb ok same in \<open>auto simp: blob_ok_def\<close>)
  then show ?thesis using detect_run [OF all same, of mi] by (auto simp: tree_banks_def)
qed

end
