(* ===== verification/MemoryBoot.thy ===== *)
theory MemoryBoot
  imports MemoryDetect
begin

text \<open>
  mm/memory.c: the layout that \<open>init_memory\<close> leaves behind.
\<close>


lemma set_link_fields [simp]:
  "paddr (set_next i v a j) = paddr (a j)" "paddr (set_prev i v a j) = paddr (a j)"
  "flags (set_next i v a j) = flags (a j)" "flags (set_prev i v a j) = flags (a j)"
  "refcount (set_next i v a j) = refcount (a j)" "refcount (set_prev i v a j) = refcount (a j)"
  "pg_next (set_prev i v a j) = pg_next (a j)" "pg_prev (set_next i v a j) = pg_prev (a j)"
  "pg_next (set_next i v a j) = (if j = i then v else pg_next (a j))"
  "pg_prev (set_prev i v a j) = (if j = i then v else pg_prev (a j))"
  by (simp_all add: set_next_def set_prev_def)




text \<open>The three marking loops all set the reserved flag on a range of pages.\<close>

definition reserve_range :: "nat \<Rightarrow> nat \<Rightarrow> (nat \<Rightarrow> page) \<Rightarrow> nat \<Rightarrow> page" where
  "reserve_range i k a = (\<lambda>j. if i \<le> j \<and> j < k then (a j)\<lparr>flags := flags (a j) OR PG_FLAG_RESERVED\<rparr> else a j)"

lemma reserve_range_empty [simp]: "reserve_range i i a = a"
  by (rule ext) (auto simp: reserve_range_def)


lemma reserve_range_fields [simp]:
  "paddr (reserve_range i k a j) = paddr (a j)" "refcount (reserve_range i k a j) = refcount (a j)"
  "pg_next (reserve_range i k a j) = pg_next (a j)" "pg_prev (reserve_range i k a j) = pg_prev (a j)"
  "\<not> (i \<le> j \<and> j < k) \<Longrightarrow> flags (reserve_range i k a j) = flags (a j)"
  "flags (a j) AND PG_FLAG_USED = 0 \<Longrightarrow> flags (reserve_range i k a j) AND PG_FLAG_USED = 0"
  by (auto simp: reserve_range_def bit.conj_disj_distrib2 PG_FLAG_RESERVED_def PG_FLAG_USED_def)












section \<open>Properties\<close>











end
