(* ===== verification/Slab.thy ===== *)
theory Slab
  imports Memory
begin

text \<open>
  mm/slab.c: the allocator of small objects. The metadata \<^verbatim>\<open>slab_t\<close> and the free lists threaded
  through the objects live in byte memory, at the offsets of the C structs.
\<close>

section \<open>State\<close>

text \<open>
  The globals \<^verbatim>\<open>slab_global_cache.slabs\<close> and \<^verbatim>\<open>slab_meta_pool\<close>, on top of the state of the page
  allocator. The critical sections under the slab locks are atomic.
\<close>

record slab_state =
  pages :: mstate
  slabs :: "nat \<Rightarrow> u64"
  pool_freelist :: u64
  pool_end :: u64
  pool_total :: u64
  pool_free :: u64

text \<open>Fields of \<^verbatim>\<open>struct slab\<close>: lock at 0, freelist 16, next 24, object\_size 32, total 40, free 48.\<close>

definition slab_t_size :: u64 where "slab_t_size = 64"

definition slab_count :: nat where "slab_count = 64"

definition rd :: "slab_state \<Rightarrow> u64 \<Rightarrow> u64" where
  "rd st a = load64 (ram (pages st)) a"

definition wr :: "u64 \<Rightarrow> u64 \<Rightarrow> slab_state \<Rightarrow> slab_state" where
  "wr a v st = st\<lparr>pages := put_ram (store64 (ram (pages st)) a v) (pages st)\<rparr>"

definition slab_alloc_page :: "slab_state \<Rightarrow> u64 \<times> slab_state" where
  "slab_alloc_page st = (case alloc_page (pages st) of (p, ms) \<Rightarrow> (p, st\<lparr>pages := ms\<rparr>))"

text \<open>The loop that threads \<open>n\<close> links through blocks of size \<open>sz\<close>, from block \<open>i\<close> on.\<close>

fun link_blocks :: "u64 \<Rightarrow> u64 \<Rightarrow> nat \<Rightarrow> nat \<Rightarrow> slab_state \<Rightarrow> slab_state" where
  "link_blocks blk sz i 0 st = st"
| "link_blocks blk sz i (Suc n) st =
     link_blocks blk sz (Suc i) n (wr (blk + of_nat i * sz) (blk + of_nat (i + 1) * sz) st)"

section \<open>The pool of slab metadata\<close>

fun inflate_loop :: "nat \<Rightarrow> u64 \<Rightarrow> u64 \<Rightarrow> slab_state \<Rightarrow> (u64 \<times> slab_state) kres" where
  "inflate_loop 0 current lst st = Inr (lst, st)"
| "inflate_loop (Suc n) current lst st =
     (case slab_alloc_page st of (mem_page, st1) \<Rightarrow>
        if mem_page = 0 then Inl (Panic ''memory out of space!'')
        else let st2 = (if current \<noteq> 0 then wr current mem_page st1 else st1\<lparr>pool_freelist := mem_page\<rparr>);
                 st3 = link_blocks mem_page slab_t_size 0 (slab_count - 1) st2;
                 lst' = mem_page + of_nat (slab_count - 1) * slab_t_size
             in inflate_loop n lst' lst' st3)"

definition inflate_slab_meta_pool :: "nat \<Rightarrow> slab_state \<Rightarrow> slab_state kres" where
  "inflate_slab_meta_pool page_size st =
     (if page_size = 0 then Inr st
      else case inflate_loop page_size (pool_end st) 0 st of
             Inl e \<Rightarrow> Inl e
           | Inr (lst, st') \<Rightarrow>
               let added = of_nat page_size * of_nat slab_count; st2 = wr lst 0 st' in
               Inr (st2\<lparr>pool_end := lst, pool_total := pool_total st2 + added, pool_free := pool_free st2 + added\<rparr>))"

definition SLAB_META_POOL_INIT_PAGE_SIZE :: nat where "SLAB_META_POOL_INIT_PAGE_SIZE = 3"

definition init_slab_meta_pool :: "slab_state \<Rightarrow> slab_state kres" where
  "init_slab_meta_pool st =
     (case slab_alloc_page st of (mem_page, st1) \<Rightarrow>
        if mem_page = 0 then Inl (Panic ''slab meta pool init failed'')
        else let st2 = st1\<lparr>pool_freelist := mem_page, pool_total := of_nat slab_count, pool_free := of_nat slab_count\<rparr>;
                 st3 = link_blocks mem_page slab_t_size 0 (slab_count - 1) st2;
                 lst = mem_page + of_nat (slab_count - 1) * slab_t_size;
                 st4 = (wr lst 0 st3)\<lparr>pool_end := lst\<rparr>
             in if 1 < SLAB_META_POOL_INIT_PAGE_SIZE
                then inflate_slab_meta_pool (SLAB_META_POOL_INIT_PAGE_SIZE - 1) st4 else Inr st4)"

definition slab_free_meta :: "u64 \<Rightarrow> slab_state \<Rightarrow> slab_state" where
  "slab_free_meta slab st =
     (wr slab (pool_freelist st) st)\<lparr>pool_freelist := slab, pool_free := pool_free st + 1\<rparr>"

definition slab_alloc_meta :: "slab_state \<Rightarrow> (u64 \<times> slab_state) kres" where
  "slab_alloc_meta st =
     (case (if pool_free st = 1 then inflate_slab_meta_pool 2 st else Inr st) of
        Inl e \<Rightarrow> Inl e
      | Inr st1 \<Rightarrow>
          let slab = pool_freelist st1 in
          if slab = 0 then Inl Fault
          else Inr (slab, st1\<lparr>pool_freelist := rd st1 slab, pool_free := pool_free st1 - 1\<rparr>))"

section \<open>Slabs\<close>

definition set_page_slab :: "u64 \<Rightarrow> u64 \<Rightarrow> slab_state \<Rightarrow> slab_state" where
  "set_page_slab p s st =
     (let i = PHY_TO_PAGE p; ms = pages st in
      st\<lparr>pages := ms\<lparr>page_array := (page_array ms)(i := (page_array ms i)\<lparr>pg_slab := s\<rparr>)\<rparr>\<rparr>)"

definition do_create_slab_object_storage :: "u64 \<Rightarrow> slab_state \<Rightarrow> int \<times> slab_state" where
  "do_create_slab_object_storage s st =
     (case slab_alloc_page st of (mem_page, st1) \<Rightarrow>
        if mem_page = 0 then (- 1, st1)
        else let st2 = wr (s + 16) mem_page (set_page_slab mem_page s st1);
                 n = unat (rd st2 (s + 40) - 1);
                 sz = rd st2 (s + 32);
                 st3 = link_blocks mem_page sz 0 n st2
             in (0, wr (mem_page + of_nat n * sz) 0 st3))"

definition init_slab_lock :: "u64 \<Rightarrow> slab_state \<Rightarrow> slab_state" where
  "init_slab_lock s st = wr (s + 8) 0 (wr s 0 st)"

definition do_create_new_slab :: "u64 \<Rightarrow> slab_state \<Rightarrow> (u64 \<times> slab_state) kres" where
  "do_create_new_slab father st =
     (case slab_alloc_meta st of
        Inl e \<Rightarrow> Inl e
      | Inr (s, st1) \<Rightarrow>
          let st2 = wr (s + 32) (rd st1 (father + 32)) st1;
              st3 = wr (s + 40) (rd st2 (father + 40)) st2;
              st4 = wr (s + 48) (rd st3 (s + 40)) st3;
              st5 = init_slab_lock s (wr (s + 24) 0 st4)
          in case do_create_slab_object_storage s st5 of
               (r, st6) \<Rightarrow> Inr (if r \<noteq> 0 then (0, slab_free_meta s st6) else (s, st6)))"

fun init_slab_loop :: "nat \<Rightarrow> nat \<Rightarrow> slab_state \<Rightarrow> slab_state kres" where
  "init_slab_loop i 0 st = Inr st"
| "init_slab_loop i (Suc n) st =
     (case slab_alloc_meta st of
        Inl e \<Rightarrow> Inl e
      | Inr (s, st1) \<Rightarrow>
          let st2 = st1\<lparr>slabs := (slabs st1)(i := s)\<rparr>;
              st3 = wr (s + 24) 0 (wr (s + 32) (push_bit i 8) st2);
              st4 = wr (s + 40) (PG_4K_SIZE div rd st3 (s + 32)) st3;
              st5 = init_slab_lock s (wr (s + 48) (rd st4 (s + 40)) st4)
          in case do_create_slab_object_storage s st5 of
               (r, st6) \<Rightarrow> if r \<noteq> 0 then Inl (Panic ''slab init object storage failed'')
                           else init_slab_loop (Suc i) n st6)"

definition init_slab :: "slab_state \<Rightarrow> slab_state kres" where
  "init_slab st =
     (case init_slab_meta_pool st of Inl e \<Rightarrow> Inl e | Inr st1 \<Rightarrow> init_slab_loop 0 10 st1)"

section \<open>Size classes\<close>

definition slab_round_up :: "u32 \<Rightarrow> u32" where
  "slab_round_up sz =
     (if sz = 0 \<or> 4096 < sz then 0
      else if sz \<le> 8 then 8
      else let s0 = sz - 1;
               s1 = s0 OR drop_bit 1 s0;
               s2 = s1 OR drop_bit 2 s1;
               s3 = s2 OR drop_bit 4 s2;
               s4 = s3 OR drop_bit 8 s3;
               s5 = s4 OR drop_bit 16 s4
           in s5 + 1)"

definition ctz_step :: "nat \<Rightarrow> u64 \<times> u32 \<Rightarrow> u64 \<times> u32" where
  "ctz_step k xr = (case xr of (x, ret) \<Rightarrow>
     if x AND mask k = 0 then (drop_bit k x, ret OR of_nat k) else (x, ret))"

definition ctzdi2 :: "u64 \<Rightarrow> u32" where
  "ctzdi2 x = (if x = 0 then 64
     else snd (ctz_step 1 (ctz_step 2 (ctz_step 4 (ctz_step 8 (ctz_step 16 (ctz_step 32 (x, 0))))))))"

definition POW2_SHIFT_COUNT :: "u32 \<Rightarrow> i32" where
  "POW2_SHIFT_COUNT x = ctzdi2 (ucast x)"

section \<open>Allocation and release of objects\<close>

partial_function (option) slab_alloc_loop :: "u64 \<Rightarrow> slab_state \<Rightarrow> (u64 \<times> slab_state) kres option" where
  "slab_alloc_loop s st =
     (if rd st (s + 48) \<noteq> 0 then
        let mem_block = rd st (s + 16) in
        Some (Inr (mem_block, wr (s + 48) (rd st (s + 48) - 1) (wr (s + 16) (rd st mem_block) st)))
      else if rd st (s + 24) \<noteq> 0 then slab_alloc_loop (rd st (s + 24)) st
      else case do_create_new_slab s st of
             Inl e \<Rightarrow> Some (Inl e)
           | Inr (new_slab, st1) \<Rightarrow>
               if new_slab = 0 then Some (Inr (0, st1))
               else slab_alloc_loop new_slab (wr (s + 24) new_slab st1))"

definition slab_alloc :: "u32 \<Rightarrow> slab_state \<Rightarrow> (u64 \<times> slab_state) kres option" where
  "slab_alloc sz st =
     (let round_size = slab_round_up sz in
      if round_size = 0 then Some (Inr (0, st))
      else let idx = sint (POW2_SHIFT_COUNT round_size - 3) in
        if idx < 0 \<or> 9 < idx then Some (Inr (0, st))
        else slab_alloc_loop (slabs st (nat idx)) st)"

definition do_free_slab_object_from_out :: "u64 \<Rightarrow> u64 \<Rightarrow> slab_state \<Rightarrow> slab_state" where
  "do_free_slab_object_from_out s ptr st =
     (let st1 = wr ptr (rd st (s + 16)) st; st2 = wr (s + 16) ptr st1
      in wr (s + 48) (rd st2 (s + 48) + 1) st2)"

definition slab_free :: "u64 \<Rightarrow> slab_state \<Rightarrow> slab_state kres" where
  "slab_free ptr st =
     (if ptr = 0 then Inl (Panic ''slab_free: invalid ptr'')
      else let pg = page_array (pages st) (PHY_TO_PAGE ptr); s = pg_slab pg in
        if s = 0 then Inl (Panic ''slab_free: ptr is not a slab object'')
        else let offset = ptr - paddr pg in
          if PG_4K_SIZE \<le> offset \<or> offset mod rd st (s + 32) \<noteq> 0
          then Inl (Panic ''slab_free: invalid slab object'')
          else Inr (do_free_slab_object_from_out s ptr st))"

end
