(* ===== verification/Pages.thy ===== *)
theory Pages
  imports Memory
begin

text \<open>
  Facts shared by the clients of the page allocator: pages cut into equal blocks, and what an
  allocation leaves alone.
\<close>

section \<open>Blocks in pages\<close>

lemma unat_pow2:
  assumes "k < 64"
  shows "unat (2 ^ k :: u64) = 2 ^ k"
proof -
  have "(2::nat) ^ k < 2 ^ 64" using assms by (intro power_strict_increasing) simp_all
  then show ?thesis using unat_of_nat_small [of "2 ^ k"] by simp
qed

lemma PGROUNDDOWN_block:
  assumes "aligned k a" "unat i < 2 ^ k" "k \<le> 12"
  shows "PGROUNDDOWN (a + i) = PGROUNDDOWN a"
proof -
  have s: "unat (a + i) = unat a + unat i" using unat_aligned_plus assms by simp
  have "2 ^ k dvd unat a" using assms(1) by (simp add: aligned_def)
  then obtain q where q: "unat a = 2 ^ k * q" by (elim dvdE)
  have "(2::nat) ^ k dvd 2 ^ 12" using assms(3) by (rule le_imp_power_dvd)
  then obtain d where d: "(2::nat) ^ 12 = 2 ^ k * d" by (elim dvdE)
  have m: "unat a mod 2 ^ 12 = 2 ^ k * (q mod d)" by (simp only: q d mod_mult_mult1)
  have "0 < d" using d by (cases d) simp_all
  then have "2 ^ k * Suc (q mod d) \<le> 2 ^ k * d" by (intro mult_le_mono2) (simp add: Suc_le_eq)
  then have "unat a mod 2 ^ 12 + 2 ^ k \<le> 2 ^ 12" unfolding m using d by (simp only: mult_Suc_right add.commute)
  then have "unat a mod 4096 + unat i < 4096" using assms(2) by simp
  then have "(unat a + unat i) mod 4096 = unat a mod 4096 + unat i"
    using mod_add_left_eq [of "unat a" 4096 "unat i"] by (simp only: mod_less)
  then have "unat (PGROUNDDOWN (a + i)) = unat (PGROUNDDOWN a)" by (simp add: unat_PGROUNDDOWN s)
  then show ?thesis by (simp add: word_unat_eq_iff)
qed

lemma field_eq:
  assumes "aligned k s" "aligned k s'" "unat i < 2 ^ k" "unat j < 2 ^ k" "k \<le> 64"
  shows "s + i = s' + j \<longleftrightarrow> s = s' \<and> i = j"
proof
  assume eq: "s + i = s' + j"
  have "s = s'"
  proof (rule ccontr)
    assume "s \<noteq> s'"
    then have "2 ^ k \<le> unat (s' + j - s)" using aligned_block_ge assms by blast
    moreover have "s' + j - s = i" using eq by (simp add: algebra_simps)
    ultimately show False using assms(3) by simp
  qed
  then show "s = s' \<and> i = j" using eq by simp
qed simp

lemma in_page: "page_aligned p \<Longrightarrow> unat (x - p) < 4096 \<longleftrightarrow> PGROUNDDOWN x = p"
  using PGROUNDDOWN_plus [of p "x - p"] page_offset_less [of x] by auto

definition blk :: "u64 \<Rightarrow> nat \<Rightarrow> nat \<Rightarrow> u64" where "blk p k j = p + of_nat j * 2 ^ k"

lemma blk_off:
  assumes "j < 2 ^ (12 - k)" "k \<le> 12"
  shows "unat (of_nat j * 2 ^ k :: u64) = j * 2 ^ k" "j * 2 ^ k < 4096"
proof -
  have "j * 2 ^ k < 2 ^ (12 - k) * 2 ^ k" using assms(1) by simp
  also have "\<dots> = 2 ^ 12" using assms(2) by (simp flip: power_add)
  finally show "j * 2 ^ k < 4096" by simp
  then show "unat (of_nat j * 2 ^ k :: u64) = j * 2 ^ k" using unat_of_nat_small [of "j * 2 ^ k"] by simp
qed

lemma blk_props:
  assumes "page_aligned p" "j < 2 ^ (12 - k)" "k \<le> 12"
  shows "PGROUNDDOWN (blk p k j) = p" "aligned k (blk p k j)"
proof -
  note b = blk_off [OF assms(2,3)]
  show "PGROUNDDOWN (blk p k j) = p" unfolding blk_def by (rule PGROUNDDOWN_plus) (use assms b in simp_all)
  have "aligned k (of_nat j * 2 ^ k)" using b(1) by (simp add: aligned_def)
  then show "aligned k (blk p k j)" unfolding blk_def using assms by (intro aligned_add) (auto intro: aligned_mono)
qed

lemma blk_inj:
  assumes "i < 2 ^ (12 - k)" "j < 2 ^ (12 - k)" "k \<le> 12"
  shows "blk p k i = blk p k j \<longleftrightarrow> i = j"
proof
  assume "blk p k i = blk p k j"
  then have "(of_nat i * 2 ^ k :: u64) = of_nat j * 2 ^ k" by (simp add: blk_def)
  then have "i * 2 ^ k = j * 2 ^ k" using blk_off(1) assms by metis
  then show "i = j" by simp
qed simp

lemma blk_Suc: "blk p k j + 2 ^ k = blk p k (Suc j)"
  by (simp add: blk_def algebra_simps)

section \<open>Live pages\<close>

lemma page_inv_live:
  assumes "page_inv s L" "p \<in> L"
  obtains i where "p = page_addr i" "i < page_bound" "PHY_TO_PAGE p = i" "paddr (page_array s i) = p"
    "\<And>x. PGROUNDDOWN x = p \<Longrightarrow> PHY_TO_PAGE x = i"
proof -
  obtain fl refs i where r: "mem_inv s fl refs" "i \<in> dom refs" "p = page_addr i"
    using assms by (auto simp: page_inv_def)
  then have i: "i < page_bound" "paddr (page_array s i) = page_addr i" using mem_invD(1,2) by blast+
  have "PHY_TO_PAGE x = i" if "PGROUNDDOWN x = p" for x
  proof -
    have "unat (x - p) < 4096" using in_page [of p x] that by auto
    then show ?thesis using PHY_TO_PAGE_addr [OF i(1), of "x - p"] r(3) by simp
  qed
  then show ?thesis using that r(3) i by auto
qed

lemma PHY_TO_PAGE_live: "page_inv s L \<Longrightarrow> p \<in> L \<Longrightarrow> q \<in> L \<Longrightarrow> PHY_TO_PAGE p = PHY_TO_PAGE q \<longleftrightarrow> p = q"
  by (metis page_inv_live)

lemma load64_fill_page:
  assumes "page_aligned p" "aligned 3 a"
  shows "load64 (mem_fill m p 0 4096) a = (if PGROUNDDOWN a = p then 0 else load64 m a)"
proof -
  have pg: "PGROUNDDOWN (a + of_nat i) = PGROUNDDOWN a" if "i < 8" for i
    using PGROUNDDOWN_block [of 3 a "of_nat i"] assms(2) that by (simp add: unat_of_nat_small)
  have f: "mem_fill m p 0 4096 (a + of_nat i) = (if PGROUNDDOWN a = p then 0 else m (a + of_nat i))" if "i < 8" for i
    using in_page [OF assms(1), of "a + of_nat i"] pg [OF that] by (simp add: mem_fill_def)
  show ?thesis
  proof (cases "PGROUNDDOWN a = p")
    case True
    have "load64 (mem_fill m p 0 4096) a = 0"
    proof (rule bit_word_eqI)
      fix n assume "n < LENGTH(64)"
      then have "n < 64" "n div 8 < 8" by auto
      then show "bit (load64 (mem_fill m p 0 4096) a) n = bit (0 :: u64) n" using f True by (simp add: bit_load64)
    qed
    then show ?thesis using True by simp
  next
    case False
    then show ?thesis using f by (simp add: load64_cong [of "mem_fill m p 0 4096" a m])
  qed
qed

lemma alloc_page_others:
  assumes "page_inv s L" "alloc_page s = (p, s')" "q \<in> L"
  shows "page_array s' (PHY_TO_PAGE q) = page_array s (PHY_TO_PAGE q)"
proof -
  obtain fl refs k where r: "mem_inv s fl refs" "k \<in> dom refs" "q = page_addr k"
    using assms(1,3) by (auto simp: page_inv_def)
  have k: "PHY_TO_PAGE q = k" using mem_invD(1) [OF r(1)] r by simp
  show ?thesis
  proof (cases fl)
    case Nil
    then show ?thesis using alloc_page_empty r(1) assms(2) by auto
  next
    case (Cons i fl')
    then have "k \<noteq> i" using r by (auto simp: mem_inv_def)
    then show ?thesis using alloc_page_take [of s i fl' refs] Cons r(1) assms(2) k by auto
  qed
qed

section \<open>Concrete states\<close>

text \<open>Memory given by its aligned words, and a machine whose pages 1 to \<open>n\<close> are allocated and the next two free.\<close>

definition mem_of_words :: "(u64 \<Rightarrow> u64) \<Rightarrow> memory" where
  "mem_of_words f x = (let i = unat x mod 8 in ucast (drop_bit (8 * i) (f (x - of_nat i))))"

lemma load64_mem_of_words: "aligned 3 a \<Longrightarrow> load64 (mem_of_words f) a = f a"
proof -
  assume a: "aligned 3 a"
  have "load64 (mem_of_words f) a = load64 (store64 (\<lambda>_. 0) a (f a)) a"
  proof (rule load64_cong)
    fix i :: nat assume i: "i < 8"
    then have u: "unat (of_nat i :: u64) = i" by (intro unat_of_nat_small) simp
    then have "unat (a + of_nat i) = unat a + i" using unat_aligned_plus [OF a, of "of_nat i"] i by simp
    moreover have "8 dvd unat a" using a by (simp add: aligned_def)
    ultimately have "unat (a + of_nat i) mod 8 = i" using i by auto
    then show "mem_of_words f (a + of_nat i) = store64 (\<lambda>_. 0) a (f a) (a + of_nat i)"
      using i u by (simp add: mem_of_words_def store64_def)
  qed
  then show ?thesis by simp
qed

definition used_pages :: "nat \<Rightarrow> memory \<Rightarrow> mstate" where
  "used_pages n m = demo_mem\<lparr>ram := m,
     page_array := (\<lambda>i. zero_page\<lparr>paddr := page_addr i, pg_next := (if i = n + 1 then Some (n + 2) else None),
        flags := (if i \<le> n then PG_FLAG_USED else 0), refcount := (if i \<le> n then 1 else 0)\<rparr>),
     gmd := (gmd demo_mem)\<lparr>free_head := Some (n + 1), free_tail := Some (n + 2), free_start_at := page_addr 1,
        free_end_at := page_addr (n + 2)\<rparr>\<rparr>"

lemma used_pages_inv:
  assumes "n < 100"
  shows "page_inv (used_pages n m) (page_addr ` {1..n})"
proof -
  have "mem_inv (used_pages n m) [n + 1, n + 2] (\<lambda>i. if i \<in> {1..n} then Some 1 else None)"
    by (rule mem_invI [of 1 "n + 2"])
      (use assms in \<open>auto simp: used_pages_def demo_mem_def zero_page_def page_bound_def split: if_splits\<close>)
  then show ?thesis unfolding page_inv_def
    by (intro exI [of _ "[n + 1, n + 2]"] exI [of _ "\<lambda>i. if i \<in> {1..n} then Some 1 else None"])
      (auto simp: ran_def dom_def split: if_splits)
qed

lemma ram_used_pages [simp]: "ram (used_pages n m) = m"
  by (simp add: used_pages_def)

end
