(* ===== verification/SlabInv.thy ===== *)
theory SlabInv
  imports Slab Pages
begin

text \<open>
  The invariant of the slab allocator and what its operations do.
\<close>

section \<open>Size classes\<close>

lemma smear_step:
  assumes "\<And>n. bit s n \<longleftrightarrow> (\<exists>j < d. bit x (n + j))"
  shows "bit (s OR drop_bit d s :: u32) n \<longleftrightarrow> (\<exists>j < 2 * d. bit x (n + j))"
proof -
  have "bit (s OR drop_bit d s) n \<longleftrightarrow> (\<exists>j < d. bit x (n + j)) \<or> (\<exists>j < d. bit x (n + (d + j)))"
    using assms by (simp add: bit_or_iff bit_drop_bit_eq algebra_simps)
  also have "\<dots> \<longleftrightarrow> (\<exists>j < 2 * d. bit x (n + j))"
  proof
    assume "\<exists>j < 2 * d. bit x (n + j)"
    then obtain j where j: "j < 2 * d" "bit x (n + j)" by blast
    show "(\<exists>j < d. bit x (n + j)) \<or> (\<exists>j < d. bit x (n + (d + j)))"
    proof (cases "j < d")
      case False
      then have "j - d < d" "d + (j - d) = j" using j(1) by auto
      then show ?thesis using j(2) by metis
    qed (use j in blast)
  next
    assume "(\<exists>j < d. bit x (n + j)) \<or> (\<exists>j < d. bit x (n + (d + j)))"
    then show "\<exists>j < 2 * d. bit x (n + j)"
    proof
      assume "\<exists>j < d. bit x (n + j)"
      then obtain j where "j < d" "bit x (n + j)" by blast
      then show ?thesis by (intro exI [of _ j]) simp
    next
      assume "\<exists>j < d. bit x (n + (d + j))"
      then obtain j where "j < d" "bit x (n + (d + j))" by blast
      then show ?thesis by (intro exI [of _ "d + j"]) simp
    qed
  qed
  finally show ?thesis .
qed

lemma top_bit:
  assumes "2 ^ h \<le> unat (x::u32)" "unat x < 2 ^ Suc h"
  shows "bit x h" "\<And>n. h < n \<Longrightarrow> \<not> bit x n"
proof -
  have b: "bit x n \<longleftrightarrow> odd (unat x div 2 ^ n)" for n
    using bit_unsigned_iff [where ?'a = nat, of x n] by (simp add: bit_iff_odd [of "unat x"])
  have "unat x div 2 ^ h = 1" using assms by (intro div_nat_eqI) simp_all
  then show "bit x h" using b by simp
  fix n assume "h < n"
  then have "(2::nat) ^ Suc h \<le> 2 ^ n" by (intro power_increasing) simp_all
  then have "unat x div 2 ^ n = 0" using assms(2) by simp
  then show "\<not> bit x n" using b by simp
qed

lemma slab_round_up_pow2:
  assumes "8 < sz" "sz \<le> 4096" "2 ^ h \<le> unat (sz - 1)" "unat (sz - 1) < 2 ^ Suc h"
  shows "slab_round_up sz = 2 ^ Suc h"
proof -
  define s0 where "s0 = sz - 1"
  define s1 where "s1 = s0 OR drop_bit 1 s0"
  define s2 where "s2 = s1 OR drop_bit 2 s1"
  define s3 where "s3 = s2 OR drop_bit 4 s2"
  define s4 where "s4 = s3 OR drop_bit 8 s3"
  define s5 where "s5 = s4 OR drop_bit 16 s4"
  have "unat (sz - 1) < 2 ^ LENGTH(32)" by (rule unsigned_less)
  then have "(2::nat) ^ h < 2 ^ LENGTH(32)" by (rule le_less_trans [OF assms(3)])
  then have h: "h < 32" using power_less_imp_less_exp [of "2::nat" h "LENGTH(32)"] by simp
  have b1: "bit s1 n \<longleftrightarrow> (\<exists>j < 2. bit s0 (n + j))" for n
    unfolding s1_def using smear_step [of s0 1 s0 n] by simp
  have b2: "bit s2 n \<longleftrightarrow> (\<exists>j < 4. bit s0 (n + j))" for n
    unfolding s2_def using smear_step [of s1 2 s0 n] b1 by simp
  have b3: "bit s3 n \<longleftrightarrow> (\<exists>j < 8. bit s0 (n + j))" for n
    unfolding s3_def using smear_step [of s2 4 s0 n] b2 by simp
  have b4: "bit s4 n \<longleftrightarrow> (\<exists>j < 16. bit s0 (n + j))" for n
    unfolding s4_def using smear_step [of s3 8 s0 n] b3 by simp
  have b5: "bit s5 n \<longleftrightarrow> (\<exists>j < 32. bit s0 (n + j))" for n
    unfolding s5_def using smear_step [of s4 16 s0 n] b4 by simp
  have t: "bit s0 h" "\<And>n. h < n \<Longrightarrow> \<not> bit s0 n" 
    using top_bit [OF assms(3,4)] unfolding s0_def by simp_all
  have bits: "bit s5 n \<longleftrightarrow> n \<le> h" for n
  proof
    assume "bit s5 n"
    then obtain j where "bit s0 (n + j)" using b5 by blast
    then show "n \<le> h" using t(2) [of "n + j"] by (cases "h < n + j") auto
  next
    assume "n \<le> h"
    then have "h - n < 32" "bit s0 (n + (h - n))" using h t(1) by auto
    then show "bit s5 n" using b5 by blast
  qed
  have "s5 = mask (Suc h)"
  proof (rule bit_word_eqI)
    fix n assume "n < LENGTH(32)"
    then show "bit s5 n = bit (mask (Suc h) :: u32) n"
      unfolding bits bit_mask_iff by (simp add: less_Suc_eq_le)
  qed
  then have "s5 + 1 = 2 ^ Suc h" by (simp add: mask_eq_exp_minus_1)
  moreover have c: "\<not> (sz = 0 \<or> 4096 < sz)" "\<not> sz \<le> 8" using assms(1,2) by auto
  have "slab_round_up sz = s5 + 1"
    by (simp only: slab_round_up_def c if_False Let_def s5_def s4_def s3_def s2_def s1_def s0_def)
  ultimately show ?thesis by simp
qed

lemma pow2_bracket: "0 < (n::nat) \<Longrightarrow> \<exists>h. 2 ^ h \<le> n \<and> n < 2 ^ Suc h"
proof (induction n rule: less_induct)
  case (less n)
  show ?case
  proof (cases "n = 1")
    case True
    then show ?thesis by (intro exI [of _ 0]) simp
  next
    case False
    then have "0 < n div 2" "n div 2 < n" using less.prems by auto
    then obtain h where "2 ^ h \<le> n div 2" "n div 2 < 2 ^ Suc h" using less.IH by blast
    then show ?thesis by (intro exI [of _ "Suc h"]) (auto simp: less_mult_imp_div_less)
  qed
qed

text \<open>Every size up to a page has a class: the least power of two that holds it, from 8 on.\<close>

lemma slab_class:
  assumes "0 < sz" "sz \<le> 4096"
  obtains c where "c < 10" "slab_round_up sz = 2 ^ (c + 3)" "unat sz \<le> 2 ^ (c + 3)"
    "c = 0 \<or> 2 ^ (c + 2) < unat sz"
proof (cases "sz \<le> 8")
  case True
  have "slab_round_up sz = 2 ^ (0 + 3)" using True assms by (auto simp: slab_round_up_def)
  then show ?thesis using that [of 0] True by (simp add: word_le_nat_alt)
next
  case False
  then have gt: "8 < sz" by simp
  then have u: "unat (sz - 1) = unat sz - 1" "8 < unat sz" "unat sz \<le> 4096"
    using assms(2) by (auto simp: word_less_nat_alt word_le_nat_alt unat_sub)
  obtain h where h: "2 ^ h \<le> unat (sz - 1)" "unat (sz - 1) < 2 ^ Suc h"
    using pow2_bracket [of "unat (sz - 1)"] u by auto
  have "(2::nat) ^ h < 2 ^ 12" using h(1) u by simp
  then have h12: "h < 12" by (rule power_less_imp_less_exp [rotated]) simp
  have "(2::nat) ^ 3 < 2 ^ Suc h" using h(2) u by simp
  then have "3 < Suc h" by (rule power_less_imp_less_exp [rotated]) simp
  then obtain c where c: "h = c + 2" using le_Suc_ex [of 2 h] by (auto simp: add.commute)
  have r: "slab_round_up sz = 2 ^ Suc h" by (rule slab_round_up_pow2 [OF gt assms(2) h])
  show ?thesis
    by (rule that [of c]) (use r c h h12 u in \<open>auto simp: power_add\<close>)
qed

lemma ctz_pow2:
  assumes "c < 10"
  shows "POW2_SHIFT_COUNT (2 ^ (c + 3)) = of_nat c + 3"
proof -
  have "c \<in> {0, 1, 2, 3, 4, 5, 6, 7, 8, 9}" using assms by auto
  then show ?thesis
    by (elim insertE emptyE)
      (simp_all add: POW2_SHIFT_COUNT_def ctzdi2_def ctz_step_def mask_eq_exp_minus_1)
qed

definition objs :: "nat \<Rightarrow> u64 \<Rightarrow> u64 set" where
  "objs c p = {x. PGROUNDDOWN x = p \<and> aligned (c + 3) x}"

definition slots :: "u64 set \<Rightarrow> u64 set" where
  "slots P = {x. PGROUNDDOWN x \<in> P \<and> aligned 6 x}"

lemma distinct_ptrs_length:
  assumes "distinct xs" "0 \<notin> set xs"
  shows "length (xs :: u64 list) < 18446744073709551616"
proof -
  have "length xs = card (set xs)" using assms(1) by (simp add: distinct_card)
  also have "\<dots> < card (UNIV :: u64 set)" by (rule psubset_card_mono) (use assms(2) in auto)
  finally show ?thesis by (simp add: card_word)
qed

section \<open>The invariant\<close>

text \<open>
  What the memory stands for: the pages of the metadata pool, its free list, the slabs of each
  size class in order, and for each slab its page and its free objects.
\<close>

record slab_view =
  v_meta :: "u64 set"
  v_pool :: "u64 list"
  v_cls :: "nat \<Rightarrow> u64 list"
  v_page :: "u64 \<Rightarrow> u64"
  v_free :: "u64 \<Rightarrow> u64 list"

definition all_slabs :: "slab_view \<Rightarrow> u64 set" where
  "all_slabs g = (\<Union>c < 10. set (v_cls g c))"

definition view_ok :: "slab_view \<Rightarrow> u64 set \<Rightarrow> bool" where
  "view_ok g L \<longleftrightarrow>
     v_meta g \<union> v_page g ` all_slabs g \<subseteq> L \<and> v_meta g \<inter> v_page g ` all_slabs g = {} \<and>
     inj_on (v_page g) (all_slabs g) \<and> all_slabs g \<union> set (v_pool g) \<subseteq> slots (v_meta g) \<and>
     all_slabs g \<inter> set (v_pool g) = {} \<and> distinct (v_pool g) \<and> v_pool g \<noteq> [] \<and>
     (\<forall>c < 10. distinct (v_cls g c)) \<and>
     (\<forall>c < 10. \<forall>d < 10. c \<noteq> d \<longrightarrow> set (v_cls g c) \<inter> set (v_cls g d) = {})"

definition links :: "(u64 \<Rightarrow> u64) \<Rightarrow> u64 \<Rightarrow> u64 list \<Rightarrow> bool" where
  "links r p xs \<longleftrightarrow> chain (\<lambda>a. opt_ptr (r a)) (opt_ptr p) xs"

definition slab_ok :: "(u64 \<Rightarrow> u64) \<Rightarrow> nat \<Rightarrow> u64 \<Rightarrow> u64 \<Rightarrow> u64 list \<Rightarrow> bool" where
  "slab_ok r c s p fo \<longleftrightarrow>
     r (s + 32) = 2 ^ (c + 3) \<and> r (s + 40) = 2 ^ (9 - c) \<and> r (s + 48) = of_nat (length fo) \<and>
     links r (r (s + 16)) fo \<and> distinct fo \<and> set fo \<subseteq> objs c p"

definition slabs_ok :: "nat \<Rightarrow> (u64 \<Rightarrow> u64) \<Rightarrow> (nat \<Rightarrow> u64) \<Rightarrow> slab_view \<Rightarrow> bool" where
  "slabs_ok n r heads g \<longleftrightarrow>
     (\<forall>c < 10. chain (\<lambda>s. opt_ptr (r (s + 24))) (if c < n then Some (heads c) else None) (v_cls g c) \<and>
        (\<forall>s \<in> set (v_cls g c). slab_ok r c s (v_page g s) (v_free g s)))"

definition pool_ok :: "(u64 \<Rightarrow> u64) \<Rightarrow> slab_state \<Rightarrow> slab_view \<Rightarrow> bool" where
  "pool_ok r st g \<longleftrightarrow> links r (pool_freelist st) (v_pool g) \<and> pool_end st = last (v_pool g) \<and>
     pool_free st = of_nat (length (v_pool g))"

text \<open>The first \<open>n\<close> size classes are set up; after boot \<open>n\<close> is 10.\<close>

definition slab_inv :: "nat \<Rightarrow> slab_state \<Rightarrow> slab_view \<Rightarrow> u64 set \<Rightarrow> bool" where
  "slab_inv n st g L \<longleftrightarrow> page_inv (pages st) L \<and> view_ok g L \<and> slabs_ok n (rd st) (slabs st) g \<and>
     pool_ok (rd st) st g \<and>
     (\<forall>s \<in> all_slabs g. pg_slab (page_array (pages st) (PHY_TO_PAGE (v_page g s))) = s)"

text \<open>The addresses of the words the invariant depends on.\<close>

definition slab_words :: "slab_view \<Rightarrow> u64 set" where
  "slab_words g = {s + k | s k. s \<in> all_slabs g \<and> k \<in> {16, 24, 32, 40, 48}} \<union> (\<Union>s \<in> all_slabs g. set (v_free g s))"

lemma links_cong: "(\<And>x. x \<in> set xs \<Longrightarrow> r' x = r x) \<Longrightarrow> links r' p xs = links r p xs"
  unfolding links_def by (rule chain_cong) simp

lemma slab_ok_cong:
  assumes "\<And>k. k \<in> {16, 32, 40, 48} \<Longrightarrow> r' (s + k) = r (s + k)" "\<And>x. x \<in> set fo \<Longrightarrow> r' x = r x"
  shows "slab_ok r' c s p fo = slab_ok r c s p fo"
  using assms links_cong [of fo r' r] by (simp add: slab_ok_def)

lemma slabs_ok_cong:
  assumes "\<And>a. a \<in> slab_words g \<Longrightarrow> r' a = r a"
  shows "slabs_ok n r' heads g = slabs_ok n r heads g"
proof -
  have "s \<in> all_slabs g" if "s \<in> set (v_cls g c)" "c < 10" for s c
    using that by (auto simp: all_slabs_def)
  then have w: "r' (s + k) = r (s + k)" if "s \<in> set (v_cls g c)" "c < 10" "k \<in> {16, 24, 32, 40, 48}" for s c k
    using that assms by (fastforce simp: slab_words_def)
  have f: "r' x = r x" if "s \<in> set (v_cls g c)" "c < 10" "x \<in> set (v_free g s)" for s c x
    using that assms by (fastforce simp: slab_words_def all_slabs_def)
  have "slab_ok r' c s (v_page g s) (v_free g s) = slab_ok r c s (v_page g s) (v_free g s)"
    if "s \<in> set (v_cls g c)" "c < 10" for s c
    by (rule slab_ok_cong) (use w [OF that] f [OF that] in auto)
  moreover have "chain (\<lambda>s. opt_ptr (r' (s + 24))) p (v_cls g c) = chain (\<lambda>s. opt_ptr (r (s + 24))) p (v_cls g c)"
    if "c < 10" for c p by (rule chain_cong) (use w that in auto)
  ultimately show ?thesis unfolding slabs_ok_def by blast
qed

section \<open>Words and the rest of the state\<close>

lemma rd_wr: "aligned 3 a \<Longrightarrow> aligned 3 b \<Longrightarrow> rd (wr a v st) b = (if b = a then v else rd st b)"
  by (auto simp: rd_def wr_def put_ram_def load64_store64)

lemma rd_wr_same [simp]: "rd (wr a v st) a = v"
  by (simp add: rd_def wr_def put_ram_def)

lemma wr_fields [simp]:
  "slabs (wr a v st) = slabs st" "pool_freelist (wr a v st) = pool_freelist st"
  "pool_end (wr a v st) = pool_end st" "pool_total (wr a v st) = pool_total st" "pool_free (wr a v st) = pool_free st"
  "page_array (pages (wr a v st)) = page_array (pages st)" "page_inv (pages (wr a v st)) L = page_inv (pages st) L"
  by (simp_all add: wr_def) (simp add: put_ram_def)

definition offs :: "u64 set" where "offs = {0, 8, 16, 24, 32, 40, 48}"

lemma offs_less: "k \<in> offs \<Longrightarrow> unat k < 64"
  by (auto simp: offs_def)

lemma offs_aligned: "k \<in> offs \<Longrightarrow> aligned 3 k"
  by (auto simp: offs_def aligned_def)

lemma slot_aligned: "s \<in> slots P \<Longrightarrow> aligned 6 s"
  by (simp add: slots_def)

lemma slot_word_aligned: "s \<in> slots P \<Longrightarrow> k \<in> offs \<Longrightarrow> aligned 3 (s + k)"
  using aligned_add [of 3 s k] aligned_mono [of 6 s 3] slot_aligned [of s P] offs_aligned [of k] by simp

lemma slot_word_page: "s \<in> slots P \<Longrightarrow> k \<in> offs \<Longrightarrow> PGROUNDDOWN (s + k) \<in> P"
  using PGROUNDDOWN_block [of 6 s k] offs_less [of k] by (simp add: slots_def)

lemma slot_word_eq:
  "s \<in> slots P \<Longrightarrow> s' \<in> slots P' \<Longrightarrow> k \<in> offs \<Longrightarrow> k' \<in> offs \<Longrightarrow> s + k = s' + k' \<longleftrightarrow> s = s' \<and> k = k'"
  using field_eq [of 6 s s' k k'] offs_less [of k] offs_less [of k'] by (simp add: slot_aligned)

lemma obj_aligned: "x \<in> objs c p \<Longrightarrow> aligned 3 x"
  by (auto simp: objs_def intro: aligned_mono)

lemma obj_not_slot_word: "x \<in> objs c p \<Longrightarrow> s \<in> slots P \<Longrightarrow> k \<in> offs \<Longrightarrow> p \<notin> P \<Longrightarrow> x \<noteq> s + k"
  using slot_word_page by (auto simp: objs_def)

lemma slot_word_not_obj: "s \<in> slots P \<Longrightarrow> k \<in> offs \<Longrightarrow> p \<notin> P \<Longrightarrow> s + k \<notin> objs c p"
  using obj_not_slot_word by blast

lemma view_slot: "view_ok g L \<Longrightarrow> s \<in> all_slabs g \<Longrightarrow> s \<in> slots (v_meta g)"
  by (auto simp: view_ok_def)

lemma view_pool: "view_ok g L \<Longrightarrow> s \<in> set (v_pool g) \<Longrightarrow> s \<in> slots (v_meta g)"
  by (auto simp: view_ok_def)

lemma view_page: "view_ok g L \<Longrightarrow> s \<in> all_slabs g \<Longrightarrow> v_page g s \<notin> v_meta g"
  by (auto simp: view_ok_def)

lemma view_pages_eq: "view_ok g L \<Longrightarrow> s \<in> all_slabs g \<Longrightarrow> s' \<in> all_slabs g \<Longrightarrow> v_page g s = v_page g s' \<longleftrightarrow> s = s'"
  by (auto simp: view_ok_def inj_on_eq_iff)

lemma cls_all: "s \<in> set (v_cls g c) \<Longrightarrow> c < 10 \<Longrightarrow> s \<in> all_slabs g"
  by (auto simp: all_slabs_def)

lemma all_slabsE: "s \<in> all_slabs g \<Longrightarrow> (\<And>c. c < 10 \<Longrightarrow> s \<in> set (v_cls g c) \<Longrightarrow> thesis) \<Longrightarrow> thesis"
  by (auto simp: all_slabs_def)

lemma slab_free_objs:
  "slabs_ok n r heads g \<Longrightarrow> s \<in> set (v_cls g c) \<Longrightarrow> c < 10 \<Longrightarrow> set (v_free g s) \<subseteq> objs c (v_page g s)"
  by (auto simp: slabs_ok_def slab_ok_def)

lemma view_cls: "view_ok g L \<Longrightarrow> s \<in> set (v_cls g c) \<Longrightarrow> s \<in> set (v_cls g d) \<Longrightarrow> c < 10 \<Longrightarrow> d < 10 \<Longrightarrow> c = d"
  unfolding view_ok_def by blast

lemma slabs_okD:
  "slabs_ok n r heads g \<Longrightarrow> s \<in> set (v_cls g c) \<Longrightarrow> c < 10 \<Longrightarrow> slab_ok r c s (v_page g s) (v_free g s)"
  by (simp add: slabs_ok_def)

lemma slab_invD:
  assumes "slab_inv n st g L"
  shows "page_inv (pages st) L" "view_ok g L" "slabs_ok n (rd st) (slabs st) g" "pool_ok (rd st) st g"
  using assms by (simp_all add: slab_inv_def)

lemma offs_mem [simp]: "0 \<in> offs" "8 \<in> offs" "16 \<in> offs" "24 \<in> offs" "32 \<in> offs" "40 \<in> offs" "48 \<in> offs"
  by (simp_all add: offs_def)

text \<open>Changing the free list of one slab leaves the rest of the invariant alone.\<close>

lemma slab_inv_update:
  assumes inv: "slab_inv n st g L" and s: "s \<in> set (v_cls g c)" "c < 10"
    and st': "page_inv (pages st') L" "slabs st' = slabs st" "pool_freelist st' = pool_freelist st"
      "pool_end st' = pool_end st" "pool_free st' = pool_free st"
      "\<And>i. pg_slab (page_array (pages st') i) = pg_slab (page_array (pages st) i)"
    and r: "\<And>a. aligned 3 a \<Longrightarrow> a \<notin> {s + 16, s + 48} \<union> objs c (v_page g s) \<Longrightarrow> rd st' a = rd st a"
    and ok: "slab_ok (rd st') c s (v_page g s) fo"
  shows "slab_inv n st' (g\<lparr>v_free := (v_free g)(s := fo)\<rparr>) L"
proof -
  note V = slab_invD(2) [OF inv] and S = slab_invD(3) [OF inv] and P = slab_invD(4) [OF inv]
  have sA: "s \<in> all_slabs g" using s by (rule cls_all)
  have ss: "s \<in> slots (v_meta g)" and pn: "v_page g s \<notin> v_meta g"
    using view_slot view_page V sA by auto
  have fld: "rd st' (t + k) = rd st (t + k)" if "t \<in> slots (v_meta g)" "k \<in> offs" "t \<noteq> s \<or> k \<notin> {16, 48}" for t k
  proof (rule r)
    show "aligned 3 (t + k)" using that slot_word_aligned by blast
    have "t + k \<notin> objs c (v_page g s)" using that(1,2) pn by (rule slot_word_not_obj)
    moreover have "t + k \<noteq> s + 16" "t + k \<noteq> s + 48"
      using slot_word_eq [OF that(1) ss that(2)] that(3) by auto
    ultimately show "t + k \<notin> {s + 16, s + 48} \<union> objs c (v_page g s)" by simp
  qed
  have obj: "rd st' x = rd st x" if x: "x \<in> objs d (v_page g t)" "t \<in> all_slabs g" "t \<noteq> s" for x d t
  proof (rule r)
    show "aligned 3 x" using x(1) by (rule obj_aligned)
    have "v_page g t \<noteq> v_page g s" using view_pages_eq [OF V x(2) sA] x(3) by simp
    moreover have "x \<noteq> s + 16" "x \<noteq> s + 48"
      using obj_not_slot_word [OF x(1) ss _ view_page [OF V x(2)]] by auto
    ultimately show "x \<notin> {s + 16, s + 48} \<union> objs c (v_page g s)" using x(1) by (auto simp: objs_def)
  qed
  let ?g = "g\<lparr>v_free := (v_free g)(s := fo)\<rparr>"
  have "slabs_ok n (rd st') (slabs st') ?g"
    unfolding slabs_ok_def
  proof (intro allI impI conjI ballI)
    fix d :: nat assume d: "d < 10"
    have nx: "rd st' (t + 24) = rd st (t + 24)" if "t \<in> set (v_cls g d)" for t
      using fld [OF view_slot [OF V cls_all [OF that d]], of 24] by simp
    have "chain (\<lambda>t. opt_ptr (rd st' (t + 24))) (if d < n then Some (slabs st d) else None) (v_cls g d)"
      using S d by (subst chain_cong [where nx' = "\<lambda>t. opt_ptr (rd st (t + 24))"]) (auto simp: slabs_ok_def nx)
    then show "chain (\<lambda>t. opt_ptr (rd st' (t + 24))) (if d < n then Some (slabs st' d) else None) (v_cls ?g d)"
      using st'(2) by (auto split: if_splits)
    fix t assume t: "t \<in> set (v_cls ?g d)"
    show "slab_ok (rd st') d t (v_page ?g t) (v_free ?g t)"
    proof (cases "t = s")
      case True
      then have "d = c" using view_cls [OF V, of s d c] t s d by simp
      then show ?thesis using True ok by simp
    next
      case False
      have tA: "t \<in> all_slabs g" using t d cls_all by simp
      have "slab_ok (rd st) d t (v_page g t) (v_free g t)" using S t d by (simp add: slabs_ok_def)
      moreover have "rd st' (t + k) = rd st (t + k)" if "k \<in> {16, 32, 40, 48}" for k
        using fld [OF view_slot [OF V tA], of k] False that by auto
      moreover have "rd st' y = rd st y" if "y \<in> set (v_free g t)" for y
        using obj [OF _ tA False] slab_free_objs [OF S, of t d] t d that by auto
      ultimately have "slab_ok (rd st') d t (v_page g t) (v_free g t)"
        using slab_ok_cong [of "rd st'" t "rd st" "v_free g t"] by blast
      then show ?thesis using False by simp
    qed
  qed
  moreover have "pool_ok (rd st') st' ?g"
    using P st'(3-5) fld [of _ 0, simplified] view_pool [OF V] V sA
    unfolding pool_ok_def by (subst links_cong [where r = "rd st"]) (auto simp: view_ok_def)
  moreover have "view_ok ?g L" "all_slabs ?g = all_slabs g" using V by (auto simp: view_ok_def all_slabs_def)
  ultimately show ?thesis using inv st' by (simp add: slab_inv_def)
qed

section \<open>Taking and returning an object\<close>

lemma linksD:
  assumes "links r p (x # xs)"
  shows "p = x" "x \<noteq> 0" "links r (r x) xs"
  using assms by (auto simp: links_def)

lemma slab_pop:
  assumes inv: "slab_inv n st g L" and s: "s \<in> set (v_cls g c)" "c < 10" and f: "v_free g s = x # xs"
  shows "rd st (s + 48) \<noteq> 0" "rd st (s + 16) = x" "x \<in> objs c (v_page g s)" "x \<notin> set xs"
    "slab_inv n (wr (s + 48) (rd st (s + 48) - 1) (wr (s + 16) (rd st x) st)) (g\<lparr>v_free := (v_free g)(s := xs)\<rparr>) L"
proof -
  note I = slab_invD(1) [OF inv] and V = slab_invD(2) [OF inv]
  have ok: "slab_ok (rd st) c s (v_page g s) (x # xs)" using slabs_okD [OF slab_invD(3) [OF inv] s] f by simp
  have sA: "s \<in> all_slabs g" using s by (rule cls_all)
  have ss: "s \<in> slots (v_meta g)" and pn: "v_page g s \<notin> v_meta g" using view_slot view_page V sA by auto
  have o: "links (rd st) (rd st (s + 16)) (x # xs)" "distinct (x # xs)" "set (x # xs) \<subseteq> objs c (v_page g s)"
    "rd st (s + 32) = 2 ^ (c + 3)" "rd st (s + 40) = 2 ^ (9 - c)" "rd st (s + 48) = of_nat (length (x # xs))"
    using ok by (auto simp: slab_ok_def)
  have p0: "v_page g s \<noteq> 0" using pga.live_page [OF I] V sA by (auto simp: view_ok_def)
  have "0 \<notin> set (x # xs)" using o(3) p0 by (auto simp: objs_def)
  then have "length (x # xs) < 18446744073709551616" using o(2) by (intro distinct_ptrs_length)
  then show "rd st (s + 48) \<noteq> 0" using o(6) by (simp add: unat_of_nat_small word_unat_eq_iff del: of_nat_Suc)
  show h: "rd st (s + 16) = x" "x \<in> objs c (v_page g s)" "x \<notin> set xs" using linksD [OF o(1)] o(2,3) by auto
  define st' where "st' = wr (s + 48) (rd st (s + 48) - 1) (wr (s + 16) (rd st x) st)"
  have al: "aligned 3 (s + 16)" "aligned 3 (s + 48)" using slot_word_aligned [OF ss] by auto
  have r: "rd st' a = rd st a" if "aligned 3 a" "a \<notin> {s + 16, s + 48}" for a
    using that al by (simp add: st'_def rd_wr)
  have w: "aligned 3 (s + k) \<and> s + k \<notin> objs c (v_page g s)" if "k \<in> offs" for k
    using that slot_word_aligned [OF ss] slot_word_not_obj [OF ss _ pn] by blast
  have fo: "rd st' y = rd st y" if "y \<in> set xs" for y
  proof (rule r)
    have y: "y \<in> objs c (v_page g s)" using that o(3) by auto
    then show "aligned 3 y" by (rule obj_aligned)
    show "y \<notin> {s + 16, s + 48}" using y w [of 16] w [of 48] by auto
  qed
  have "links (rd st') (rd st x) xs" using linksD(3) [OF o(1)] fo by (subst links_cong [where r = "rd st"]) auto
  then have "slab_ok (rd st') c s (v_page g s) xs"
    using o r [of "s + 32"] r [of "s + 40"] w [of 32] w [of 40] al
    by (simp add: slab_ok_def) (simp add: st'_def rd_wr)
  then have "slab_inv n st' (g\<lparr>v_free := (v_free g)(s := xs)\<rparr>) L"
    by (intro slab_inv_update [OF inv s]) (use I r in \<open>auto simp: st'_def\<close>)
  then show "slab_inv n (wr (s + 48) (rd st (s + 48) - 1) (wr (s + 16) (rd st x) st)) (g\<lparr>v_free := (v_free g)(s := xs)\<rparr>) L"
    by (simp add: st'_def)
qed

lemma obj_size_mod:
  assumes "x \<in> objs c p" "page_aligned p" "c < 10"
  shows "(x - p) mod 2 ^ (c + 3) = 0"
proof -
  have "aligned (c + 3) (x - p)"
    using assms by (intro aligned_sub) (auto simp: objs_def intro: aligned_mono)
  then have "unat (x - p) mod 2 ^ (c + 3) = 0" by (simp add: aligned_def)
  moreover have "unat (2 ^ (c + 3) :: u64) = 2 ^ (c + 3)"
    using assms(3) by (intro unat_pow2) simp
  ultimately show ?thesis by (simp add: word_unat_eq_iff unat_mod)
qed

lemma slab_push:
  assumes inv: "slab_inv n st g L" and s: "s \<in> set (v_cls g c)" "c < 10"
    and x: "x \<in> objs c (v_page g s)" "x \<notin> set (v_free g s)"
  shows "slab_inv n (do_free_slab_object_from_out s x st) (g\<lparr>v_free := (v_free g)(s := x # v_free g s)\<rparr>) L"
    "\<And>a. aligned 3 a \<Longrightarrow> a \<notin> {x, s + 16, s + 48} \<Longrightarrow> rd (do_free_slab_object_from_out s x st) a = rd st a"
proof -
  note I = slab_invD(1) [OF inv] and V = slab_invD(2) [OF inv]
  have sA: "s \<in> all_slabs g" using s by (rule cls_all)
  have ss: "s \<in> slots (v_meta g)" and pn: "v_page g s \<notin> v_meta g" using view_slot view_page V sA by auto
  have o: "links (rd st) (rd st (s + 16)) (v_free g s)" "distinct (v_free g s)" "set (v_free g s) \<subseteq> objs c (v_page g s)"
    "rd st (s + 32) = 2 ^ (c + 3)" "rd st (s + 40) = 2 ^ (9 - c)" "rd st (s + 48) = of_nat (length (v_free g s))"
    using slabs_okD [OF slab_invD(3) [OF inv] s] by (auto simp: slab_ok_def)
  have p0: "v_page g s \<noteq> 0" using pga.live_page [OF I] V sA by (auto simp: view_ok_def)
  then have x0: "x \<noteq> 0" using x(1) by (auto simp: objs_def)
  have w: "aligned 3 (s + k) \<and> s + k \<noteq> y \<and> y \<noteq> s + k" if "k \<in> offs" "y \<in> objs c (v_page g s)" for k y
    using that slot_word_aligned [OF ss] slot_word_not_obj [OF ss _ pn] by blast
  have al: "aligned 3 x" using x(1) by (rule obj_aligned)
  define st' where "st' = do_free_slab_object_from_out s x st"
  have eq: "st' = wr (s + 48) (rd st (s + 48) + 1) (wr (s + 16) x (wr x (rd st (s + 16)) st))"
    using w [of 48 x] w [of 16 x] x(1) al by (simp add: st'_def do_free_slab_object_from_out_def Let_def rd_wr)
  have r: "rd st' a = rd st a" if "aligned 3 a" "a \<notin> {x, s + 16, s + 48}" for a
    using that w [of 16 x] w [of 48 x] x(1) al by (simp add: eq rd_wr)
  have f: "rd st' (s + 16) = x" "rd st' (s + 48) = rd st (s + 48) + 1" "rd st' x = rd st (s + 16)"
    using w [of 16 x] w [of 48 x] x(1) al by (simp_all add: eq rd_wr)
  have "rd st' y = rd st y" if "y \<in> set (v_free g s)" for y
  proof (rule r)
    have y: "y \<in> objs c (v_page g s)" using that o(3) by auto
    then show "aligned 3 y" by (rule obj_aligned)
    show "y \<notin> {x, s + 16, s + 48}" using w [OF _ y, of 16] w [OF _ y, of 48] that x(2) by auto
  qed
  then have "links (rd st') (rd st (s + 16)) (v_free g s)"
    using o(1) links_cong [of "v_free g s" "rd st'" "rd st"] by simp
  then have "links (rd st') x (x # v_free g s)" using f x0 by (simp add: links_def)
  then have "slab_ok (rd st') c s (v_page g s) (x # v_free g s)"
    using o x f r [of "s + 32"] r [of "s + 40"] w [of 32 x] w [of 40 x] by (simp add: slab_ok_def)
  then have "slab_inv n st' (g\<lparr>v_free := (v_free g)(s := x # v_free g s)\<rparr>) L"
    by (intro slab_inv_update [OF inv s]) (use I r x(1) in \<open>auto simp: eq\<close>)
  then show "slab_inv n (do_free_slab_object_from_out s x st) (g\<lparr>v_free := (v_free g)(s := x # v_free g s)\<rparr>) L"
    by (simp add: st'_def)
  show "\<And>a. aligned 3 a \<Longrightarrow> a \<notin> {x, s + 16, s + 48} \<Longrightarrow> rd (do_free_slab_object_from_out s x st) a = rd st a"
    using r by (simp add: st'_def)
qed

section \<open>A fresh page, cut into blocks\<close>

lemma slab_alloc_page_null: "page_inv (pages st) L \<Longrightarrow> slab_alloc_page st = (0, st') \<Longrightarrow> st' = st"
  using pga.alloc_null [of "pages st" L] by (auto simp: slab_alloc_page_def kalloc_def split: prod.splits)

lemma slab_alloc_page_new:
  assumes "page_inv (pages st) L" "slab_alloc_page st = (p, st')" "p \<noteq> 0"
  shows "page_aligned p" "p \<notin> L" "page_inv (pages st') (insert p L)"
    "\<And>a. aligned 3 a \<Longrightarrow> rd st' a = (if PGROUNDDOWN a = p then 0 else rd st a)"
    "slabs st' = slabs st" "pool_freelist st' = pool_freelist st" "pool_end st' = pool_end st"
    "pool_total st' = pool_total st" "pool_free st' = pool_free st"
    "\<And>q. q \<in> L \<Longrightarrow> page_array (pages st') (PHY_TO_PAGE q) = page_array (pages st) (PHY_TO_PAGE q)"
proof -
  obtain ms where ms: "alloc_page (pages st) = (p, ms)" "st' = st\<lparr>pages := ms\<rparr>"
    using assms(2) by (auto simp: slab_alloc_page_def split: prod.splits)
  note a = pga.alloc_fresh [OF assms(1), of p ms, unfolded kalloc_def, OF ms(1) assms(3)]
  show "page_aligned p" "p \<notin> L" "page_inv (pages st') (insert p L)" using a ms(2) by auto
  show "slabs st' = slabs st" "pool_freelist st' = pool_freelist st" "pool_end st' = pool_end st"
    "pool_total st' = pool_total st" "pool_free st' = pool_free st" using ms(2) by auto
  show "\<And>a. aligned 3 a \<Longrightarrow> rd st' a = (if PGROUNDDOWN a = p then 0 else rd st a)"
    using a ms(2) load64_fill_page by (simp add: rd_def)
  show "\<And>q. q \<in> L \<Longrightarrow> page_array (pages st') (PHY_TO_PAGE q) = page_array (pages st) (PHY_TO_PAGE q)"
    using alloc_page_others [OF assms(1) ms(1)] ms(2) by simp
qed

lemma rd_link_blocks:
  assumes "page_aligned p" "3 \<le> k" "k \<le> 12" "aligned 3 a"
  shows "i + n \<le> 2 ^ (12 - k) \<Longrightarrow>
    rd (link_blocks p (2 ^ k) i n st) a = (if a \<in> blk p k ` {i..<i + n} then a + 2 ^ k else rd st a)"
proof (induction n arbitrary: i st)
  case (Suc n)
  have i: "i < 2 ^ (12 - k)" using Suc.prems by simp
  have al: "aligned 3 (blk p k i)" using blk_props(2) [OF assms(1) i assms(3)] assms(2) aligned_mono by blast
  have "rd (link_blocks p (2 ^ k) i (Suc n) st) a =
      (if a \<in> blk p k ` {Suc i..<Suc i + n} then a + 2 ^ k else rd (wr (blk p k i) (blk p k (Suc i)) st) a)"
    using Suc.IH [of "Suc i"] Suc.prems by (simp add: blk_def algebra_simps)
  also have "\<dots> = (if a \<in> blk p k ` {i..<i + Suc n} then a + 2 ^ k else rd st a)"
  proof -
    have "{i..<i + Suc n} = insert i {Suc i..<Suc i + n}" by auto
    then show ?thesis using rd_wr [OF al assms(4)] blk_Suc [of p k i] by auto
  qed
  finally show ?case .
qed simp

end
