(* ===== verification/SlabOps.thy ===== *)
theory SlabOps
  imports SlabInv
begin

text \<open>
  The operations of mm/slab.c keep the invariant: growing the metadata pool, creating slabs,
  allocating and releasing objects, and setting everything up at boot.
\<close>

section \<open>What stays the same\<close>

text \<open>The bytes of the pages \<open>K\<close> are untouched.\<close>

definition keeps :: "u64 set \<Rightarrow> slab_state \<Rightarrow> slab_state \<Rightarrow> bool" where
  "keeps K st st' \<longleftrightarrow> (\<forall>x. PGROUNDDOWN x \<in> K \<longrightarrow> ram (pages st') x = ram (pages st) x)"

lemma keeps_refl [simp]: "keeps K st st"
  by (simp add: keeps_def)

lemma keeps_trans: "keeps K st st1 \<Longrightarrow> keeps K st1 st2 \<Longrightarrow> keeps K st st2"
  by (simp add: keeps_def)

lemma keeps_mono: "keeps K st st' \<Longrightarrow> K' \<subseteq> K \<Longrightarrow> keeps K' st st'"
  by (auto simp: keeps_def)

lemma keeps_fields [simp]:
  "keeps K st (st'\<lparr>pool_freelist := a\<rparr>) = keeps K st st'" "keeps K st (st'\<lparr>pool_end := b\<rparr>) = keeps K st st'"
  "keeps K st (st'\<lparr>pool_free := d\<rparr>) = keeps K st st'" "keeps K st (st'\<lparr>pool_total := d\<rparr>) = keeps K st st'"
  "keeps K st (st'\<lparr>slabs := h\<rparr>) = keeps K st st'"
  by (simp_all add: keeps_def)

lemma keeps_wr:
  assumes "aligned 3 a" "PGROUNDDOWN a \<notin> K"
  shows "keeps K st (wr a v st)"
  unfolding keeps_def
proof (intro allI impI)
  fix x assume x: "PGROUNDDOWN x \<in> K"
  have "\<not> unat (x - a) < 8"
  proof
    assume "unat (x - a) < 8"
    then have "PGROUNDDOWN (a + (x - a)) = PGROUNDDOWN a" using assms(1) by (intro PGROUNDDOWN_block [of 3]) simp_all
    then show False using x assms(2) by simp
  qed
  then show "ram (pages (wr a v st)) x = ram (pages st) x" by (simp add: wr_def put_ram_def store64_def)
qed

lemma keeps_alloc:
  assumes "page_inv (pages st) L" "slab_alloc_page st = (p, st')" "p \<noteq> 0" "p \<notin> K"
  shows "keeps K st st'"
proof -
  obtain ms where ms: "alloc_page (pages st) = (p, ms)" "st' = st\<lparr>pages := ms\<rparr>"
    using assms(2) by (auto simp: slab_alloc_page_def split: prod.splits)
  have a: "page_aligned p" "ram ms = mem_fill (ram (pages st)) p 0 4096"
    using pga.alloc_fresh [OF assms(1), of p ms] ms(1) assms(3) by (auto simp: kalloc_def)
  show ?thesis using a(2) ms(2) assms(4) by (auto simp: keeps_def mem_fill_def in_page [OF a(1)])
qed

lemma link_blocks_fields [simp]:
  "slabs (link_blocks p sz i n st) = slabs st" "pool_freelist (link_blocks p sz i n st) = pool_freelist st"
  "pool_end (link_blocks p sz i n st) = pool_end st" "pool_total (link_blocks p sz i n st) = pool_total st"
  "pool_free (link_blocks p sz i n st) = pool_free st"
  "page_array (pages (link_blocks p sz i n st)) = page_array (pages st)"
  "page_inv (pages (link_blocks p sz i n st)) L = page_inv (pages st) L"
  by (induction p sz i n st rule: link_blocks.induct) simp_all

lemma keeps_link_blocks:
  assumes "page_aligned p" "3 \<le> k" "k \<le> 12" "p \<notin> K"
  shows "i + n \<le> 2 ^ (12 - k) \<Longrightarrow> keeps K st (link_blocks p (2 ^ k) i n st)"
proof (induction n arbitrary: i st)
  case (Suc n)
  have i: "i < 2 ^ (12 - k)" using Suc.prems by simp
  have al: "aligned 3 (blk p k i)" using blk_props(2) [OF assms(1) i assms(3)] assms(2) aligned_mono by blast
  have "keeps K st (wr (blk p k i) (blk p k (Suc i)) st)"
    using al blk_props(1) [OF assms(1) i assms(3)] assms(4) by (intro keeps_wr) simp_all
  moreover have "keeps K (wr (blk p k i) (blk p k (Suc i)) st)
      (link_blocks p (2 ^ k) (Suc i) n (wr (blk p k i) (blk p k (Suc i)) st))"
    by (rule Suc.IH) (use Suc.prems in simp)
  ultimately show ?case by (auto simp: blk_def algebra_simps intro: keeps_trans)
qed simp

lemma rd_upd [simp]:
  "rd (st\<lparr>pool_freelist := a\<rparr>) = rd st" "rd (st\<lparr>pool_end := a\<rparr>) = rd st"
  "rd (st\<lparr>pool_free := a\<rparr>) = rd st" "rd (st\<lparr>pool_total := a\<rparr>) = rd st" "rd (st\<lparr>slabs := h\<rparr>) = rd st"
  by (simp_all add: rd_def fun_eq_iff)

section \<open>Growing the metadata pool\<close>

text \<open>The invariant without the pool's counter and end pointer.\<close>

definition slab_core :: "nat \<Rightarrow> slab_state \<Rightarrow> slab_view \<Rightarrow> u64 set \<Rightarrow> bool" where
  "slab_core n st g L \<longleftrightarrow> page_inv (pages st) L \<and> view_ok g L \<and> slabs_ok n (rd st) (slabs st) g \<and>
     links (rd st) (pool_freelist st) (v_pool g) \<and>
     (\<forall>s \<in> all_slabs g. pg_slab (page_array (pages st) (PHY_TO_PAGE (v_page g s))) = s)"

lemma slab_inv_core:
  "slab_inv n st g L \<longleftrightarrow> slab_core n st g L \<and> pool_end st = last (v_pool g) \<and> pool_free st = of_nat (length (v_pool g))"
  by (auto simp: slab_inv_def slab_core_def pool_ok_def)

lemma slab_words_sep:
  assumes "view_ok g L" "slabs_ok n r heads g" "a \<in> slab_words g"
  shows "aligned 3 a" "PGROUNDDOWN a \<in> L" "\<And>t. t \<in> set (v_pool g) \<Longrightarrow> a \<noteq> t"
proof -
  have "aligned 3 a \<and> PGROUNDDOWN a \<in> L \<and> (\<forall>t \<in> set (v_pool g). a \<noteq> t)"
    using assms(3) unfolding slab_words_def
  proof (elim UnE)
    assume "a \<in> {s + k | s k. s \<in> all_slabs g \<and> k \<in> {16, 24, 32, 40, 48}}"
    then obtain s k where sk: "a = s + k" "s \<in> all_slabs g" "k \<in> offs" by (auto simp: offs_def)
    have ss: "s \<in> slots (v_meta g)" using view_slot assms(1) sk(2) by blast
    have "a \<noteq> t" if "t \<in> set (v_pool g)" for t
      using slot_word_eq [OF ss view_pool [OF assms(1) that] sk(3), of 0] sk(1,2) assms(1) that
      by (auto simp: view_ok_def)
    then show ?thesis
      using slot_word_aligned [OF ss sk(3)] slot_word_page [OF ss sk(3)] sk(1) assms(1) by (auto simp: view_ok_def)
  next
    assume "a \<in> (\<Union>s \<in> all_slabs g. set (v_free g s))"
    then obtain s where s: "s \<in> all_slabs g" "a \<in> set (v_free g s)" by blast
    then obtain c where c: "c < 10" "s \<in> set (v_cls g c)" by (auto elim: all_slabsE)
    have o: "a \<in> objs c (v_page g s)" using slab_free_objs [OF assms(2) c(2,1)] s(2) by blast
    have "a \<noteq> t" if "t \<in> set (v_pool g)" for t
      using obj_not_slot_word [OF o view_pool [OF assms(1) that], of 0] view_page [OF assms(1) s(1)] by simp
    then show ?thesis using o obj_aligned [OF o] assms(1) s(1) by (auto simp: objs_def view_ok_def)
  qed
  then show "aligned 3 a" "PGROUNDDOWN a \<in> L" "\<And>t. t \<in> set (v_pool g) \<Longrightarrow> a \<noteq> t" by auto
qed

definition blocks :: "u64 \<Rightarrow> nat \<Rightarrow> u64 list" where
  "blocks p k = map (blk p k) [0..<2 ^ (12 - k)]"

lemma blocks_props:
  assumes "page_aligned p" "k \<le> 12"
  shows "distinct (blocks p k)" "length (blocks p k) = 2 ^ (12 - k)" "blocks p k \<noteq> []"
    "last (blocks p k) = blk p k (2 ^ (12 - k) - 1)"
    "set (blocks p k) = {x. PGROUNDDOWN x = p \<and> aligned k x}"
proof -
  show "distinct (blocks p k)" using assms(2) by (auto simp: blocks_def distinct_map inj_on_def blk_inj)
  show "length (blocks p k) = 2 ^ (12 - k)" "blocks p k \<noteq> []" by (simp_all add: blocks_def)
  show "last (blocks p k) = blk p k (2 ^ (12 - k) - 1)" by (simp add: blocks_def last_map)
  have "x \<in> blk p k ` {0..<2 ^ (12 - k)}" if x: "PGROUNDDOWN x = p" "aligned k x" for x
  proof -
    have "aligned k (x - p)" using assms x by (intro aligned_sub) (auto intro: aligned_mono)
    then obtain j where j: "unat (x - p) = 2 ^ k * j" by (auto simp: aligned_def dvd_def)
    have "2 ^ k * j < 2 ^ 12" using in_page [OF assms(1), of x] x(1) j by simp
    also have "(2::nat) ^ 12 = 2 ^ k * 2 ^ (12 - k)" using assms(2) by (simp flip: power_add)
    finally have jl: "j < 2 ^ (12 - k)" by simp
    have "unat (x - p) = unat (of_nat j * 2 ^ k :: u64)" using j blk_off(1) [OF jl assms(2)] by (simp add: mult.commute)
    then have "x - p = of_nat j * 2 ^ k" by (simp add: word_unat_eq_iff)
    then have "x = blk p k j" by (simp add: blk_def diff_eq_eq add.commute)
    then show ?thesis using jl by auto
  qed
  then show "set (blocks p k) = {x. PGROUNDDOWN x = p \<and> aligned k x}"
    using blk_props [OF assms(1) _ assms(2)] by (auto simp: blocks_def)
qed

lemma slots_insert: "slots (insert p P) = slots P \<union> {x. PGROUNDDOWN x = p \<and> aligned 6 x}"
  by (auto simp: slots_def)

lemma links_blocks:
  assumes "page_aligned p" "p \<noteq> 0" "k \<le> 12"
    and "\<And>j. Suc j < 2 ^ (12 - k) \<Longrightarrow> r (blk p k j) = blk p k (Suc j)" "r (blk p k (2 ^ (12 - k) - 1)) = 0"
  shows "links r p (blocks p k)"
proof -
  have nz: "blk p k j \<noteq> 0" if "j < 2 ^ (12 - k)" for j
    using blk_props(1) [OF assms(1) that assms(3)] assms(2) by auto
  have "chain (\<lambda>a. opt_ptr (r a)) (Some (blk p k 0)) (map (blk p k) [0..<2 ^ (12 - k)])"
    by (rule chain_map_upt) (use assms(4,5) nz in auto)
  then show ?thesis using assms(2) by (simp add: links_def blocks_def blk_def [of p k 0] opt_ptr_def)
qed

lemma links_last: "links r p xs \<Longrightarrow> xs \<noteq> [] \<Longrightarrow> r (last xs) = 0"
  unfolding links_def by (induction xs arbitrary: p) (auto split: if_splits)

lemma chain_last: "chain nx p xs \<Longrightarrow> xs \<noteq> [] \<Longrightarrow> nx (last xs) = None"
  by (induction xs arbitrary: p) (auto split: if_splits)

lemma chain_next: "chain nx p (pre @ s # t # post) \<Longrightarrow> nx s = Some t"
  by (induction pre arbitrary: p) auto

definition grow_pool :: "u64 \<Rightarrow> slab_view \<Rightarrow> slab_view" where
  "grow_pool p g = g\<lparr>v_meta := insert p (v_meta g), v_pool := v_pool g @ blocks p 6\<rparr>"

lemma all_slabs_grow [simp]: "all_slabs (grow_pool p g) = all_slabs g"
  "v_cls (grow_pool p g) = v_cls g" "v_page (grow_pool p g) = v_page g" "v_free (grow_pool p g) = v_free g"
  "v_pool (grow_pool p g) = v_pool g @ blocks p 6" "v_meta (grow_pool p g) = insert p (v_meta g)"
  by (simp_all add: all_slabs_def grow_pool_def)

lemma view_ok_grow:
  assumes "view_ok g L" "page_aligned p" "p \<notin> L"
  shows "view_ok (grow_pool p g) (insert p L)"
proof -
  have m: "v_meta g \<subseteq> L" "v_page g ` all_slabs g \<subseteq> L" "set (v_pool g) \<subseteq> slots (v_meta g)" "all_slabs g \<subseteq> slots (v_meta g)"
    using assms(1) by (auto simp: view_ok_def)
  have b: "set (blocks p 6) = {x. PGROUNDDOWN x = p \<and> aligned 6 x}" using blocks_props(5) [OF assms(2), of 6] by simp
  have "set (blocks p 6) \<inter> slots (v_meta g) = {}" using b m(1) assms(3) by (auto simp: slots_def)
  then show ?thesis
    using assms(1,3) m b blocks_props(1,3) [OF assms(2), of 6]
    unfolding view_ok_def all_slabs_grow by (auto simp: grow_pool_def slots_insert)
qed

lemma inflate_step:
  assumes core: "slab_core n st g L" and al: "slab_alloc_page st = (p, st1)" "p \<noteq> 0"
  defines "st3 \<equiv> link_blocks p 64 0 63 (wr (last (v_pool g)) p st1)"
  shows "slab_core n st3 (grow_pool p g) (insert p L)" "keeps (L - v_meta g) st st3" "p \<notin> L"
    "blk p 6 63 = last (v_pool (grow_pool p g))" "last (v_pool g) \<noteq> 0" "page_aligned p"
    "pool_end st3 = pool_end st" "pool_free st3 = pool_free st" "slabs st3 = slabs st"
proof -
  have I: "page_inv (pages st) L" and V: "view_ok g L" and S: "slabs_ok n (rd st) (slabs st) g"
    and P: "links (rd st) (pool_freelist st) (v_pool g)"
    and B: "\<forall>s \<in> all_slabs g. pg_slab (page_array (pages st) (PHY_TO_PAGE (v_page g s))) = s"
    using core by (auto simp: slab_core_def)
  note a = slab_alloc_page_new [OF I al]
  show "p \<notin> L" "page_aligned p" by (fact a)+
  have ne: "v_pool g \<noteq> []" "distinct (v_pool g)" using V by (auto simp: view_ok_def)
  have ls: "last (v_pool g) \<in> set (v_pool g)" using ne by simp
  then have lst: "last (v_pool g) \<in> slots (v_meta g)" using view_pool V by blast
  have lal: "aligned 3 (last (v_pool g))" using slot_aligned [OF lst] aligned_mono by fastforce
  have mL: "v_meta g \<subseteq> L" using V by (auto simp: view_ok_def)
  have lpg: "PGROUNDDOWN (last (v_pool g)) \<in> v_meta g" using lst by (simp add: slots_def)
  then have lp: "PGROUNDDOWN (last (v_pool g)) \<noteq> p" using mL a(2) by auto
  show "last (v_pool g) \<noteq> 0" using lpg mL pga.live_page [OF I] by fastforce
  show "blk p 6 63 = last (v_pool (grow_pool p g))"
    using blocks_props(3,4) [OF a(1), of 6] by (simp add: grow_pool_def)
  have k6: "2 ^ 6 = (64 :: u64)" "(2::nat) ^ (12 - 6) = 64" by simp_all
  have r: "rd st3 x = (if x \<in> blk p 6 ` {0..<63} then x + 64 else if x = last (v_pool g) then p
      else if PGROUNDDOWN x = p then 0 else rd st x)" if "aligned 3 x" for x
    using rd_link_blocks [OF a(1), of 6 x 0 63 "wr (last (v_pool g)) p st1"] that rd_wr [OF lal that] a(4) [OF that]
    unfolding st3_def k6 by simp
  have out: "x \<notin> blk p 6 ` {0..<63}" if "PGROUNDDOWN x \<noteq> p" for x
    using that blk_props(1) [OF a(1), of _ 6] by auto
  have wd: "rd st3 x = rd st x" if "x \<in> slab_words g" for x
  proof -
    note w = slab_words_sep [OF V S that]
    have "PGROUNDDOWN x \<noteq> p" using w(2) a(2) by auto
    then show ?thesis using r [OF w(1)] out w(3) [OF ls] by auto
  qed
  have pool: "rd st3 x = rd st x" if "x \<in> set (v_pool g)" "x \<noteq> last (v_pool g)" for x
  proof -
    have x: "x \<in> slots (v_meta g)" using view_pool V that by blast
    then have "aligned 3 x" "PGROUNDDOWN x \<noteq> p"
      using aligned_mono [of 6 x 3] mL a(2) by (auto simp: slots_def)
    then show ?thesis using r out that(2) by auto
  qed
  have "links (rd st3) p (blocks p 6)"
  proof (rule links_blocks [OF a(1) al(2)])
    fix j :: nat assume j: "Suc j < 2 ^ (12 - 6)"
    have "aligned 3 (blk p 6 j)" using blk_props(2) [OF a(1), of j 6] j aligned_mono by fastforce
    then show "rd st3 (blk p 6 j) = blk p 6 (Suc j)" using r j blk_Suc [of p 6 j] by auto
  next
    have "aligned 3 (blk p 6 63)" "PGROUNDDOWN (blk p 6 63) = p"
      using blk_props [OF a(1), of 63 6] aligned_mono by fastforce+
    moreover have "blk p 6 63 \<notin> blk p 6 ` {0..<63}"
    proof
      assume "blk p 6 63 \<in> blk p 6 ` {0..<63}"
      then obtain i where "i < 63" "blk p 6 63 = blk p 6 i" by auto
      then show False using blk_inj [of 63 6 i p] by simp
    qed
    moreover have "blk p 6 63 \<noteq> last (v_pool g)" using lp calculation(2) by auto
    ultimately show "rd st3 (blk p 6 (2 ^ (12 - 6) - 1)) = 0" using r by simp
  qed simp
  moreover have "rd st3 (last (v_pool g)) = p" using r [OF lal] out [OF lp] by simp
  ultimately have "links (rd st3) (pool_freelist st) (v_pool g @ blocks p 6)"
    using P ne pool unfolding links_def by (intro chain_append [where nx = "\<lambda>a. opt_ptr (rd st a)"]) simp_all
  moreover have "slabs_ok n (rd st3) (slabs st3) (grow_pool p g)"
    using S slabs_ok_cong [of g "rd st3" "rd st", OF wd] a(5) by (simp add: slabs_ok_def st3_def)
  moreover have "pg_slab (page_array (pages st3) (PHY_TO_PAGE (v_page g s))) = s" if "s \<in> all_slabs g" for s
    using B a(10) [of "v_page g s"] that V by (auto simp: st3_def view_ok_def)
  ultimately show "slab_core n st3 (grow_pool p g) (insert p L)"
    using view_ok_grow [OF V a(1,2)] a(3,6) by (simp add: slab_core_def st3_def)
  have "keeps (L - v_meta g) st st1" by (rule keeps_alloc [OF I al]) (use a(2) in simp)
  moreover have "keeps (L - v_meta g) st1 (wr (last (v_pool g)) p st1)" by (rule keeps_wr [OF lal]) (use lpg in simp)
  moreover have "keeps (L - v_meta g) (wr (last (v_pool g)) p st1) st3"
    unfolding st3_def k6(1) [symmetric] by (rule keeps_link_blocks [OF a(1)]) (use a(2) in simp_all)
  ultimately show "keeps (L - v_meta g) st st3" by (blast intro: keeps_trans)
  show "pool_end st3 = pool_end st" "pool_free st3 = pool_free st" "slabs st3 = slabs st"
    using a by (simp_all add: st3_def)
qed

text \<open>The slabs and their objects are the same in both views.\<close>

definition same_slabs :: "slab_view \<Rightarrow> slab_view \<Rightarrow> bool" where
  "same_slabs g g' \<longleftrightarrow> v_cls g' = v_cls g \<and> v_page g' = v_page g \<and> v_free g' = v_free g"

lemma same_slabs_refl [simp]: "same_slabs g g"
  by (simp add: same_slabs_def)

lemma same_slabs_grow [simp]: "same_slabs g (grow_pool p g)"
  by (simp add: same_slabs_def)

lemma same_slabs_trans: "same_slabs g g1 \<Longrightarrow> same_slabs g1 g2 \<Longrightarrow> same_slabs g g2"
  by (simp add: same_slabs_def)

text \<open>How a state may evolve: more pages, the same slabs, object pages untouched.\<close>

definition evolves :: "slab_state \<times> slab_view \<times> u64 set \<Rightarrow> slab_state \<times> slab_view \<times> u64 set \<Rightarrow> bool" where
  "evolves a b = (case (a, b) of ((st, g, L), (st', g', L')) \<Rightarrow>
     L \<subseteq> L' \<and> v_meta g \<subseteq> v_meta g' \<and> v_meta g' \<inter> (L - v_meta g) = {} \<and> same_slabs g g' \<and>
     keeps (L - v_meta g) st st')"

lemma evolves_trans:
  assumes "evolves (st, g, L) (st1, g1, L1)" "evolves (st1, g1, L1) (st2, g2, L2)"
  shows "evolves (st, g, L) (st2, g2, L2)"
proof -
  have "L - v_meta g \<subseteq> L1 - v_meta g1" using assms(1) by (auto simp: evolves_def)
  then show ?thesis
    using assms unfolding evolves_def
    by (auto intro: keeps_trans same_slabs_trans elim: keeps_mono)
qed

lemma inflate_loop_ok:
  "slab_core n st g L \<Longrightarrow> k \<noteq> 0 \<Longrightarrow>
   (case inflate_loop k (last (v_pool g)) lst st of
      Inl e \<Rightarrow> e = Panic ''memory out of space!''
    | Inr (l, st') \<Rightarrow> \<exists>g' L'. slab_core n st' g' L' \<and> l = last (v_pool g') \<and> evolves (st, g, L) (st', g', L') \<and>
        length (v_pool g') = length (v_pool g) + 64 * k \<and> rd st' l = 0 \<and> pool_end st' = pool_end st \<and> pool_free st' = pool_free st)"
proof (induction k arbitrary: st g L lst)
  case (Suc k)
  obtain p st1 where al: "slab_alloc_page st = (p, st1)" by (cases "slab_alloc_page st")
  show ?case
  proof (cases "p = 0")
    case True
    then show ?thesis using al by simp
  next
    case False
    define st3 where "st3 = link_blocks p 64 0 63 (wr (last (v_pool g)) p st1)"
    note i = inflate_step [OF Suc.prems(1) al False, folded st3_def]
    have V: "view_ok g L" using Suc.prems(1) by (simp add: slab_core_def)
    have e: "evolves (st, g, L) (st3, grow_pool p g, insert p L)"
      using i(2,3) V by (auto simp: evolves_def grow_pool_def view_ok_def same_slabs_def)
    have eq: "inflate_loop (Suc k) (last (v_pool g)) lst st = inflate_loop k (blk p 6 63) (blk p 6 63) st3"
      using al False i(5) by (simp add: st3_def slab_t_size_def slab_count_def blk_def Let_def)
    have len: "length (v_pool (grow_pool p g)) = length (v_pool g) + 64"
      using blocks_props(2) [OF i(6), of 6] by (simp add: grow_pool_def)
    show ?thesis
    proof (cases "k = 0")
      case True
      have "links (rd st3) (pool_freelist st3) (v_pool (grow_pool p g))" "v_pool (grow_pool p g) \<noteq> []"
        using i(1) by (auto simp: slab_core_def view_ok_def)
      then have "rd st3 (last (v_pool (grow_pool p g))) = 0" by (rule links_last)
      then show ?thesis
        unfolding eq using True i(1,4,7,8) e len
        by (auto intro!: exI [of _ "grow_pool p g"] exI [of _ "insert p L"])
    next
      case nz: False
      have "\<exists>g' L'. slab_core n st' g' L' \<and> l = last (v_pool g') \<and> evolves (st, g, L) (st', g', L') \<and>
          length (v_pool g') = length (v_pool g) + 64 * Suc k \<and> rd st' l = 0 \<and> pool_end st' = pool_end st \<and> pool_free st' = pool_free st"
        if l: "inflate_loop k (blk p 6 63) (blk p 6 63) st3 = Inr (l, st')" for l st'
      proof -
        obtain g' L' where "slab_core n st' g' L'" "l = last (v_pool g')" "evolves (st3, grow_pool p g, insert p L) (st', g', L')"
          "length (v_pool g') = length (v_pool (grow_pool p g)) + 64 * k" "rd st' l = 0"
          "pool_end st' = pool_end st3" "pool_free st' = pool_free st3"
          using Suc.IH [OF i(1) nz, of "blk p 6 63"] l i(4) by auto
        then show ?thesis using evolves_trans [OF e] len i(7,8) by (intro exI [of _ g'] exI [of _ L']) simp
      qed
      moreover have "e = Panic ''memory out of space!''"
        if "inflate_loop k (blk p 6 63) (blk p 6 63) st3 = Inl e" for e
        using Suc.IH [OF i(1) nz, of "blk p 6 63"] i(4) that by auto
      ultimately show ?thesis
        unfolding eq by (cases "inflate_loop k (blk p 6 63) (blk p 6 63) st3") auto
    qed
  qed
qed simp

lemma wr_same: "rd st a = v \<Longrightarrow> wr a v st = st"
  by (auto simp: rd_def wr_def put_ram_def)

lemma inflate_ok:
  assumes inv: "slab_inv n st g L" and k: "k \<noteq> 0"
    and res: "inflate_slab_meta_pool k st = r"
  shows "(case r of Inl e \<Rightarrow> e = Panic ''memory out of space!''
    | Inr st' \<Rightarrow> \<exists>g' L'. slab_inv n st' g' L' \<and> evolves (st, g, L) (st', g', L') \<and>
        length (v_pool g') = length (v_pool g) + 64 * k)"
proof -
  have core: "slab_core n st g L" and pe: "pool_end st = last (v_pool g)" "pool_free st = of_nat (length (v_pool g))"
    using inv by (auto simp: slab_inv_core)
  note i = inflate_loop_ok [OF core k, of 0, folded pe(1)]
  show ?thesis
  proof (cases "inflate_loop k (pool_end st) 0 st")
    case (Inl e)
    then show ?thesis using i res k by (auto simp: inflate_slab_meta_pool_def)
  next
    case (Inr ls)
    obtain l st1 where ls: "ls = (l, st1)" by (cases ls)
    obtain g' L' where g': "slab_core n st1 g' L'" "l = last (v_pool g')" "evolves (st, g, L) (st1, g', L')"
        "length (v_pool g') = length (v_pool g) + 64 * k" "rd st1 l = 0" "pool_free st1 = pool_free st"
      using i Inr ls by auto
    define st' where "st' = st1\<lparr>pool_end := l, pool_total := pool_total st1 + of_nat k * 64, pool_free := pool_free st1 + of_nat k * 64\<rparr>"
    have r: "r = Inr st'"
      using res k Inr ls g'(5) by (simp add: inflate_slab_meta_pool_def Let_def wr_same st'_def slab_count_def)
    have "rd st' = rd st1" "pages st' = pages st1" by (simp_all add: st'_def rd_def fun_eq_iff)
    then have "slab_inv n st' g' L'" "evolves (st, g, L) (st', g', L')"
      using g' pe(2) by (auto simp: slab_inv_core slab_core_def st'_def evolves_def algebra_simps)
    then show ?thesis using r g'(4) by auto
  qed
qed

section \<open>Metadata\<close>

lemma pool_nonzero: "slab_inv n st g L \<Longrightarrow> s \<in> set (v_pool g) \<Longrightarrow> s \<noteq> 0"
proof -
  assume i: "slab_inv n st g L" "s \<in> set (v_pool g)"
  then have "PGROUNDDOWN s \<in> L"
    using view_pool [OF slab_invD(2) [OF i(1)] i(2)] slab_invD(2) [OF i(1)] by (auto simp: slots_def view_ok_def)
  then have "PGROUNDDOWN s \<noteq> 0" using pga.live_page [OF slab_invD(1) [OF i(1)]] by blast
  then show "s \<noteq> 0" by auto
qed

definition take_meta :: "slab_view \<Rightarrow> slab_view" where
  "take_meta g = g\<lparr>v_pool := tl (v_pool g)\<rparr>"

text \<open>
  Taking a metadata block never exhausts the pool: at one free block it is first grown.
\<close>

lemma slab_alloc_meta_ok:
  assumes inv: "slab_inv n st g L" and res: "slab_alloc_meta st = r"
  shows "(case r of Inl e \<Rightarrow> e = Panic ''memory out of space!''
    | Inr (s, st') \<Rightarrow> \<exists>g' L' st1. slab_inv n st1 g' L' \<and> evolves (st, g, L) (st1, g', L') \<and>
        v_pool g' = s # tl (v_pool g') \<and> tl (v_pool g') \<noteq> [] \<and> s \<noteq> 0 \<and>
        st' = st1\<lparr>pool_freelist := rd st1 s, pool_free := pool_free st1 - 1\<rparr>)"
proof -
  let ?P = "\<lambda>st1. \<exists>g' L'. slab_inv n st1 g' L' \<and> evolves (st, g, L) (st1, g', L') \<and> 2 \<le> length (v_pool g')"
  define r0 where "r0 = (if pool_free st = 1 then inflate_slab_meta_pool 2 st else Inr st)"
  have ev: "evolves (st, g, L) (st, g, L)" by (auto simp: evolves_def)
  have r0: "case r0 of Inl e \<Rightarrow> e = Panic ''memory out of space!'' | Inr st1 \<Rightarrow> ?P st1"
  proof (cases "pool_free st = 1")
    case True
    show ?thesis
    proof (cases r0)
      case (Inl e)
      then show ?thesis using True inflate_ok [OF inv, of 2 r0] by (simp add: r0_def)
    next
      case (Inr st1)
      then obtain g' L' where "slab_inv n st1 g' L'" "evolves (st, g, L) (st1, g', L')"
          "length (v_pool g') = length (v_pool g) + 64 * 2"
        using True inflate_ok [OF inv, of 2 r0] by (auto simp: r0_def)
      then have "?P st1" by (intro exI [of _ g'] exI [of _ L']) simp
      then show ?thesis using Inr by simp
    qed
  next
    case False
    have "distinct (v_pool g)" "v_pool g \<noteq> []" using slab_invD(2) [OF inv] by (auto simp: view_ok_def)
    moreover have "pool_free st = of_nat (length (v_pool g))" using inv by (simp add: slab_inv_core)
    ultimately have "length (v_pool g) \<noteq> 1" "length (v_pool g) \<noteq> 0" using False by auto
    then have "2 \<le> length (v_pool g)" by linarith
    then show ?thesis using False inv ev by (auto simp: r0_def)
  qed
  show ?thesis
  proof (cases r0)
    case (Inl e)
    then show ?thesis using r0 res by (auto simp: slab_alloc_meta_def r0_def [symmetric])
  next
    case (Inr st1)
    then obtain g' L' where g': "slab_inv n st1 g' L'" "evolves (st, g, L) (st1, g', L')" "2 \<le> length (v_pool g')"
      using r0 by auto
    obtain s ps where ps: "v_pool g' = s # ps" "ps \<noteq> []" using g'(3) by (cases "v_pool g'") (auto simp: Suc_le_length_iff)
    have "pool_freelist st1 = s" using g'(1) linksD [of "rd st1" "pool_freelist st1" s ps] ps
      by (auto simp: slab_inv_core slab_core_def)
    moreover have "s \<noteq> 0" using pool_nonzero [OF g'(1), of s] ps by simp
    ultimately have "r = Inr (s, st1\<lparr>pool_freelist := rd st1 s, pool_free := pool_free st1 - 1\<rparr>)"
      using res Inr by (simp add: slab_alloc_meta_def r0_def [symmetric] Let_def)
    then show ?thesis using g'(1,2) ps \<open>s \<noteq> 0\<close> by (auto intro!: exI [of _ g'] exI [of _ L'])
  qed
qed

section \<open>Writes the invariant does not see\<close>

lemma slab_inv_rd:
  assumes "slab_inv n st g L" "page_inv (pages st') L'" "L \<subseteq> L'"
    and "\<And>a. a \<in> slab_words g \<union> set (v_pool g) \<Longrightarrow> rd st' a = rd st a"
    and "slabs st' = slabs st" "pool_freelist st' = pool_freelist st" "pool_end st' = pool_end st" "pool_free st' = pool_free st"
    and "\<And>s. s \<in> all_slabs g \<Longrightarrow>
      pg_slab (page_array (pages st') (PHY_TO_PAGE (v_page g s))) = pg_slab (page_array (pages st) (PHY_TO_PAGE (v_page g s)))"
  shows "slab_inv n st' g L'"
proof -
  have "slabs_ok n (rd st') (slabs st) g = slabs_ok n (rd st) (slabs st) g"
    by (rule slabs_ok_cong) (use assms(4) in blast)
  moreover have "links (rd st') q (v_pool g) = links (rd st) q (v_pool g)" for q
    by (rule links_cong) (use assms(4) in blast)
  moreover have "view_ok g L'" using slab_invD(2) [OF assms(1)] assms(3) by (auto simp: view_ok_def)
  ultimately show ?thesis
    using assms by (auto simp: slab_inv_def pool_ok_def)
qed

text \<open>A metadata block outside the pool and not yet a slab; a page nobody uses yet.\<close>

definition spare_slot :: "slab_view \<Rightarrow> u64 \<Rightarrow> bool" where
  "spare_slot g s \<longleftrightarrow> s \<in> slots (v_meta g) \<and> s \<notin> all_slabs g \<and> s \<notin> set (v_pool g)"

definition spare_page :: "slab_view \<Rightarrow> u64 \<Rightarrow> bool" where
  "spare_page g p \<longleftrightarrow> p \<notin> v_meta g \<and> p \<notin> v_page g ` all_slabs g"

lemma pool_aligned: "view_ok g L \<Longrightarrow> x \<in> set (v_pool g) \<Longrightarrow> aligned 3 x"
  using slot_word_aligned [OF view_pool, of g L x 0] by simp

lemma slab_inv_wr:
  assumes inv: "slab_inv n st g L" and a: "aligned 3 a" "a \<notin> slab_words g" "a \<notin> set (v_pool g)"
  shows "slab_inv n (wr a v st) g L"
proof (rule slab_inv_rd [OF inv])
  fix b assume "b \<in> slab_words g \<union> set (v_pool g)"
  then have "aligned 3 b" "b \<noteq> a"
    using slab_words_sep(1) [OF slab_invD(2,3) [OF inv]] pool_aligned [OF slab_invD(2) [OF inv]] a by auto
  then show "rd (wr a v st) b = rd st b" using a(1) by (simp add: rd_wr)
qed (use slab_invD(1) [OF inv] in auto)

lemma spare_slot_word:
  assumes inv: "slab_inv n st g L" and s: "spare_slot g s" and k: "k \<in> offs"
  shows "aligned 3 (s + k)" "s + k \<notin> slab_words g" "s + k \<notin> set (v_pool g)" "PGROUNDDOWN (s + k) \<in> v_meta g"
proof -
  note V = slab_invD(2) [OF inv] and S = slab_invD(3) [OF inv]
  have ss: "s \<in> slots (v_meta g)" using s by (simp add: spare_slot_def)
  show "aligned 3 (s + k)" "PGROUNDDOWN (s + k) \<in> v_meta g" using slot_word_aligned slot_word_page ss k by auto
  show "s + k \<notin> set (v_pool g)"
    using slot_word_eq [OF ss view_pool [OF V] k, of "s + k" 0] s by (auto simp: spare_slot_def)
  show "s + k \<notin> slab_words g"
  proof
    assume "s + k \<in> slab_words g"
    then consider t j where "s + k = t + j" "t \<in> all_slabs g" "j \<in> offs" | t where "t \<in> all_slabs g" "s + k \<in> set (v_free g t)"
      by (auto simp: slab_words_def offs_def)
    then show False
    proof cases
      case 1
      then show False using slot_word_eq [OF ss view_slot [OF V 1(2)] k 1(3)] s by (auto simp: spare_slot_def)
    next
      case 2
      then obtain c where c: "c < 10" "t \<in> set (v_cls g c)" by (auto elim: all_slabsE)
      then show False using slab_free_objs [OF S c(2,1)] 2 slot_word_not_obj [OF ss k view_page [OF V 2(1)]] by blast
    qed
  qed
qed

lemma spare_slot_wr:
  assumes "slab_inv n st g L" "spare_slot g s" "k \<in> offs"
  shows "slab_inv n (wr (s + k) v st) g L" "keeps (L - v_meta g) st (wr (s + k) v st)"
  using spare_slot_word [OF assms] slab_inv_wr [OF assms(1)] keeps_wr by auto

lemma spare_page_word:
  assumes inv: "slab_inv n st g L" and p: "spare_page g (PGROUNDDOWN a)"
  shows "a \<notin> slab_words g" "a \<notin> set (v_pool g)"
proof -
  note V = slab_invD(2) [OF inv] and S = slab_invD(3) [OF inv]
  show "a \<notin> set (v_pool g)" using view_pool [OF V] p by (auto simp: slots_def spare_page_def)
  show "a \<notin> slab_words g"
  proof
    assume "a \<in> slab_words g"
    then consider t j where "a = t + j" "t \<in> all_slabs g" "j \<in> offs" | t where "t \<in> all_slabs g" "a \<in> set (v_free g t)"
      by (auto simp: slab_words_def offs_def)
    then show False
    proof cases
      case 1
      then show False using slot_word_page [OF view_slot [OF V 1(2)] 1(3)] p by (simp add: spare_page_def)
    next
      case 2
      then obtain c where c: "c < 10" "t \<in> set (v_cls g c)" by (auto elim: all_slabsE)
      then show False using slab_free_objs [OF S c(2,1)] 2 p by (auto simp: objs_def spare_page_def)
    qed
  qed
qed

lemma spare_page_wr:
  assumes "slab_inv n st g L" "spare_page g (PGROUNDDOWN a)" "aligned 3 a"
  shows "slab_inv n (wr a v st) g L"
  using spare_page_word [OF assms(1,2)] slab_inv_wr [OF assms(1,3)] by blast

lemma spare_page_link:
  assumes "page_aligned p" "3 \<le> k" "k \<le> 12" "spare_page g p"
  shows "slab_inv n st g L \<Longrightarrow> i + m \<le> 2 ^ (12 - k) \<Longrightarrow> slab_inv n (link_blocks p (2 ^ k) i m st) g L"
proof (induction m arbitrary: i st)
  case (Suc m)
  have i: "i < 2 ^ (12 - k)" using Suc.prems by simp
  have "aligned 3 (blk p k i)" using blk_props(2) [OF assms(1) i assms(3)] assms(2) aligned_mono by blast
  then have "slab_inv n (wr (blk p k i) (blk p k (Suc i)) st) g L"
    using blk_props(1) [OF assms(1) i assms(3)] assms(4) by (intro spare_page_wr [OF Suc.prems(1)]) simp_all
  then have "slab_inv n (link_blocks p (2 ^ k) (Suc i) m (wr (blk p k i) (blk p k (Suc i)) st)) g L"
    using Suc.prems(2) by (intro Suc.IH) simp_all
  then show ?case by (simp add: blk_def algebra_simps)
qed simp

lemma slab_inv_alloc_page:
  assumes inv: "slab_inv n st g L" and al: "slab_alloc_page st = (p, st')" "p \<noteq> 0"
  shows "slab_inv n st' g (insert p L)" "spare_page g p"
proof -
  note a = slab_alloc_page_new [OF slab_invD(1) [OF inv] al]
  note V = slab_invD(2) [OF inv] and S = slab_invD(3) [OF inv]
  show "spare_page g p" using a(2) V by (auto simp: spare_page_def view_ok_def)
  show "slab_inv n st' g (insert p L)"
  proof (rule slab_inv_rd [OF inv])
    fix b assume b: "b \<in> slab_words g \<union> set (v_pool g)"
    then have "aligned 3 b" using slab_words_sep(1) [OF V S] pool_aligned [OF V] by auto
    moreover have "PGROUNDDOWN b \<in> L"
      using b slab_words_sep(2) [OF V S] view_pool [OF V] V by (auto simp: slots_def view_ok_def)
    ultimately show "rd st' b = rd st b" using a(2,4) by auto
  next
    fix s assume "s \<in> all_slabs g"
    then have "v_page g s \<in> L" using V by (auto simp: view_ok_def)
    then show "pg_slab (page_array (pages st') (PHY_TO_PAGE (v_page g s))) = pg_slab (page_array (pages st) (PHY_TO_PAGE (v_page g s)))"
      using a(10) by simp
  qed (use a in auto)
qed

section \<open>Creating a slab\<close>

lemma page_array_slab_fields:
  "paddr ((a(i := (a i)\<lparr>pg_slab := v\<rparr>)) j) = paddr (a j)" "flags ((a(i := (a i)\<lparr>pg_slab := v\<rparr>)) j) = flags (a j)"
  "refcount ((a(i := (a i)\<lparr>pg_slab := v\<rparr>)) j) = refcount (a j)" "pg_next ((a(i := (a i)\<lparr>pg_slab := v\<rparr>)) j) = pg_next (a j)"
  by simp_all

lemma mem_inv_set_slab:
  "mem_inv (ms\<lparr>page_array := (page_array ms)(i := (page_array ms i)\<lparr>pg_slab := v\<rparr>)\<rparr>) fl refs = mem_inv ms fl refs"
  by (simp add: mem_inv_def page_array_slab_fields del: fun_upd_apply)

lemma set_page_slab_fields [simp]:
  "rd (set_page_slab p s st) = rd st" "slabs (set_page_slab p s st) = slabs st"
  "pool_freelist (set_page_slab p s st) = pool_freelist st" "pool_end (set_page_slab p s st) = pool_end st"
  "pool_free (set_page_slab p s st) = pool_free st" "page_inv (pages (set_page_slab p s st)) L = page_inv (pages st) L"
  "keeps K st' (set_page_slab p s st) = keeps K st' st"
  "page_array (pages (set_page_slab p s st)) i = (page_array (pages st) i)\<lparr>pg_slab := (if i = PHY_TO_PAGE p then s else pg_slab (page_array (pages st) i))\<rparr>"
  by (auto simp: set_page_slab_def Let_def rd_def keeps_def page_inv_def mem_inv_set_slab)

lemma pow_word: "(2::u64) ^ k = of_nat (2 ^ k)"
  by simp

lemma storage_ok:
  assumes inv: "slab_inv n st g L" and s: "spare_slot g s" and c: "c < 10"
    and f: "rd st (s + 32) = 2 ^ (c + 3)" "rd st (s + 40) = 2 ^ (9 - c)" "rd st (s + 48) = 2 ^ (9 - c)" "rd st (s + 24) = 0"
    and res: "do_create_slab_object_storage s st = (r, st')"
  shows "(r = - 1 \<and> st' = st) \<or>
    (r = 0 \<and> (\<exists>p. p \<notin> L \<and> p \<noteq> 0 \<and> page_aligned p \<and> spare_page g p \<and> slab_inv n st' g (insert p L) \<and>
       slab_ok (rd st') c s p (blocks p (c + 3)) \<and> rd st' (s + 24) = 0 \<and>
       pg_slab (page_array (pages st') (PHY_TO_PAGE p)) = s \<and> keeps (L - v_meta g) st st'))"
proof -
  obtain p st1 where al: "slab_alloc_page st = (p, st1)" by (cases "slab_alloc_page st")
  show ?thesis
  proof (cases "p = 0")
    case True
    then show ?thesis using al res slab_alloc_page_null [OF slab_invD(1) [OF inv]]
      by (auto simp: do_create_slab_object_storage_def)
  next
    case False
    note a = slab_alloc_page_new [OF slab_invD(1) [OF inv] al False]
    note sp = slab_inv_alloc_page [OF inv al False]
    have mL: "v_meta g \<subseteq> L" using slab_invD(2) [OF inv] by (simp add: view_ok_def)
    have w: "aligned 3 (s + k)" "PGROUNDDOWN (s + k) \<noteq> p" "PGROUNDDOWN (s + k) \<in> v_meta g" if "k \<in> offs" for k
      using spare_slot_word [OF inv s that] a(2) mL by auto
    define st2 where "st2 = wr (s + 16) p (set_page_slab p s st1)"
    define N where "N = (2::nat) ^ (9 - c)"
    have N: "0 < N" "N = 2 ^ (12 - (c + 3))" using c by (auto simp: N_def numeral_eq_Suc)
    have r2: "rd st2 x = (if x = s + 16 then p else if PGROUNDDOWN x = p then 0 else rd st x)" if "aligned 3 x" for x
      using that w [of 16] a(4) by (simp add: st2_def rd_wr)
    have fl: "rd st2 (s + 40) = 2 ^ (9 - c)" "rd st2 (s + 32) = 2 ^ (c + 3)" "rd st2 (s + 48) = 2 ^ (9 - c)" "rd st2 (s + 24) = 0"
      using r2 w f by simp_all
    have "unat (2 ^ (9 - c) :: u64) = N" unfolding N_def by (rule unat_pow2) simp
    then have n1: "unat (2 ^ (9 - c) - 1 :: u64) = N - 1"
      using N(1) unat_sub_ge [of 1 "2 ^ (9 - c)"] by simp
    have "of_nat (unat (2 ^ (9 - c) - 1 :: u64)) = (2 ^ (9 - c) - 1 :: u64)" by simp
    then have ofn: "of_nat (N - 1) = (2 ^ (9 - c) - 1 :: u64)" unfolding n1 .
    define st3 where "st3 = link_blocks p (2 ^ (c + 3)) 0 (N - 1) st2"
    have k: "3 \<le> c + 3" "c + 3 \<le> 12" "0 + (N - 1) \<le> 2 ^ (12 - (c + 3))" using c N by auto
    have out: "x \<notin> blk p (c + 3) ` {0..<N - 1}" if "PGROUNDDOWN x \<noteq> p" for x
      using that blk_props(1) [OF a(1) _ k(2)] N(2) by auto
    have r3: "rd st3 x = (if x \<in> blk p (c + 3) ` {0..<N - 1} then x + 2 ^ (c + 3) else rd st2 x)" if "aligned 3 x" for x
      using rd_link_blocks [OF a(1) k(1,2) that k(3)] by (simp add: st3_def)
    have lastb: "PGROUNDDOWN (blk p (c + 3) (N - 1)) = p" "aligned 3 (blk p (c + 3) (N - 1))"
      using blk_props [OF a(1) _ k(2), of "N - 1"] N aligned_mono [OF _ k(1)] by auto
    have nl: "blk p (c + 3) (N - 1) \<notin> blk p (c + 3) ` {0..<N - 1}"
    proof
      assume "blk p (c + 3) (N - 1) \<in> blk p (c + 3) ` {0..<N - 1}"
      then obtain i where i: "i < N - 1" "blk p (c + 3) (N - 1) = blk p (c + 3) i" by auto
      have "blk p (c + 3) (N - 1) = blk p (c + 3) i \<longleftrightarrow> N - 1 = i"
        by (rule blk_inj [OF _ _ k(2)]; use i(1) N in linarith)
      then show False using i by simp
    qed
    have l0: "rd st3 (blk p (c + 3) (N - 1)) = 0"
      using r3 [OF lastb(2)] nl r2 [OF lastb(2)] lastb(1) w(2) [of 16] by auto
    have st': "r = 0" "st' = st3"
      using res al False fl n1 wr_same [OF l0] ofn
      by (simp_all add: do_create_slab_object_storage_def st2_def [symmetric] Let_def st3_def blk_def)
    have fld: "rd st3 (s + j) = rd st2 (s + j)" if "j \<in> offs" for j using r3 [OF w(1) [OF that]] out [OF w(2) [OF that]] by simp
    have "links (rd st3) p (blocks p (c + 3))"
    proof (rule links_blocks [OF a(1) False k(2)])
      fix j assume j: "Suc j < 2 ^ (12 - (c + 3))"
      then have "aligned 3 (blk p (c + 3) j)" using blk_props(2) [OF a(1) _ k(2), of j] aligned_mono [OF _ k(1)] by simp
      then show "rd st3 (blk p (c + 3) j) = blk p (c + 3) (Suc j)"
        using r3 j N(2) blk_Suc [of p "c + 3" j] by auto
    qed (use l0 N(2) in simp)
    moreover have "set (blocks p (c + 3)) = objs c p" "distinct (blocks p (c + 3))" "length (blocks p (c + 3)) = 2 ^ (9 - c)"
      using blocks_props [OF a(1) k(2)] N by (auto simp: objs_def N_def)
    moreover have "rd st3 (s + 16) = p" using fld r2 [OF w(1)] by simp
    ultimately have ok: "slab_ok (rd st3) c s p (blocks p (c + 3))"
      using fld fl by (simp add: slab_ok_def)
    have i1: "slab_inv n (set_page_slab p s st1) g (insert p L)"
    proof (rule slab_inv_rd [OF sp(1)])
      fix t assume t: "t \<in> all_slabs g"
      then have "v_page g t \<in> insert p L" "v_page g t \<noteq> p" using sp(2) slab_invD(2) [OF sp(1)] by (auto simp: spare_page_def view_ok_def)
      then have "PHY_TO_PAGE (v_page g t) \<noteq> PHY_TO_PAGE p" using PHY_TO_PAGE_live [OF a(3)] by simp
      then show "pg_slab (page_array (pages (set_page_slab p s st1)) (PHY_TO_PAGE (v_page g t))) =
          pg_slab (page_array (pages st1) (PHY_TO_PAGE (v_page g t)))" by simp
    qed (use a(3) in auto)
    have i2: "slab_inv n st2 g (insert p L)" using spare_slot_wr(1) [OF i1 s, of 16] by (simp add: st2_def)
    have i3: "slab_inv n st3 g (insert p L)" unfolding st3_def by (rule spare_page_link [OF a(1) k(1,2) sp(2) i2 k(3)])
    have "keeps (L - v_meta g) st st1" by (rule keeps_alloc [OF slab_invD(1) [OF inv] al False]) (use a(2) in simp)
    moreover have "keeps (insert p L - v_meta g) (set_page_slab p s st1) st2"
      using spare_slot_wr(2) [OF i1 s, of 16] by (simp add: st2_def)
    then have "keeps (L - v_meta g) (set_page_slab p s st1) st2" by (rule keeps_mono) auto
    then have "keeps (L - v_meta g) st1 st2" by (simp add: keeps_def set_page_slab_def Let_def)
    moreover have "keeps (L - v_meta g) st2 st3"
      unfolding st3_def by (rule keeps_link_blocks [OF a(1) k(1,2) _ k(3)]) (use a(2) in simp)
    ultimately have "keeps (L - v_meta g) st st3" by (blast intro: keeps_trans)
    moreover have "pg_slab (page_array (pages st3) (PHY_TO_PAGE p)) = s" by (simp add: st3_def st2_def)
    ultimately show ?thesis
      using st' a(1,2) False sp(2) i3 ok fld [of 24] fl(4) by (intro disjI2) (auto intro!: exI [of _ p])
  qed
qed

text \<open>A prepared slab joins its size class.\<close>

definition add_slab :: "nat \<Rightarrow> u64 \<Rightarrow> u64 \<Rightarrow> u64 list \<Rightarrow> slab_view \<Rightarrow> slab_view" where
  "add_slab c s p fo g = g\<lparr>v_cls := (v_cls g)(c := v_cls g c @ [s]), v_page := (v_page g)(s := p), v_free := (v_free g)(s := fo)\<rparr>"

lemma add_slab_fields:
  "v_page (add_slab c s p fo g) = (v_page g)(s := p)" "v_free (add_slab c s p fo g) = (v_free g)(s := fo)"
  "v_pool (add_slab c s p fo g) = v_pool g" "v_meta (add_slab c s p fo g) = v_meta g"
  by (simp_all add: add_slab_def)

lemma all_slabs_add: "c < 10 \<Longrightarrow> all_slabs (add_slab c s p fo g) = insert s (all_slabs g)"
  by (auto simp: all_slabs_def add_slab_def split: if_splits)

lemma view_ok_add:
  assumes V: "view_ok g L" and c: "c < 10" and s: "spare_slot g s" and p: "spare_page g p" "p \<in> L"
  shows "view_ok (add_slab c s p fo g) L"
proof -
  have n: "s \<notin> set (v_cls g d)" if "d < 10" for d using s that by (auto simp: spare_slot_def all_slabs_def)
  have s': "s \<notin> all_slabs g" "s \<in> slots (v_meta g)" "s \<notin> set (v_pool g)" using s by (auto simp: spare_slot_def)
  have img: "v_page (add_slab c s p fo g) ` insert s (all_slabs g) = insert p (v_page g ` all_slabs g)"
    using s'(1) by (auto simp: add_slab_def)
  have "inj_on (v_page (add_slab c s p fo g)) (insert s (all_slabs g))"
    using V p(1) s'(1) by (auto simp: add_slab_def view_ok_def spare_page_def inj_on_def)
  moreover have "\<forall>d < 10. distinct (v_cls (add_slab c s p fo g) d)"
    using V n by (auto simp: add_slab_def view_ok_def)
  moreover have "\<forall>d < 10. \<forall>e < 10. d \<noteq> e \<longrightarrow> set (v_cls (add_slab c s p fo g) d) \<inter> set (v_cls (add_slab c s p fo g) e) = {}"
    using V n by (auto simp: add_slab_def view_ok_def)
  ultimately show ?thesis
    using V p s' unfolding view_ok_def all_slabs_add [OF c] img by (auto simp: add_slab_def spare_page_def)
qed

lemma slabs_ok_add:
  assumes S: "slabs_ok n (rd st) heads g" and V: "view_ok g L" and c: "c < 10" and s: "spare_slot g s"
    and ok: "slab_ok (rd st') c s p fo"
    and same: "\<And>d t. d < 10 \<Longrightarrow> t \<in> set (v_cls g d) \<Longrightarrow>
      slab_ok (rd st') d t (v_page g t) (v_free g t) = slab_ok (rd st) d t (v_page g t) (v_free g t)"
    and other: "\<And>d. d < 10 \<Longrightarrow> d \<noteq> c \<Longrightarrow>
      chain (\<lambda>t. opt_ptr (rd st' (t + 24))) (if d < n' then Some (heads' d) else None) (v_cls g d)"
    and mine: "chain (\<lambda>t. opt_ptr (rd st' (t + 24))) (if c < n' then Some (heads' c) else None) (v_cls g c @ [s])"
  shows "slabs_ok n' (rd st') heads' (add_slab c s p fo g)"
  unfolding slabs_ok_def
proof (intro allI impI conjI ballI)
  fix d :: nat assume d: "d < 10"
  show "chain (\<lambda>s. opt_ptr (rd st' (s + 24))) (if d < n' then Some (heads' d) else None) (v_cls (add_slab c s p fo g) d)"
    using other [OF d] mine by (cases "d = c") (auto simp: add_slab_def split: if_splits)
  fix t assume t: "t \<in> set (v_cls (add_slab c s p fo g) d)"
  show "slab_ok (rd st') d t (v_page (add_slab c s p fo g) t) (v_free (add_slab c s p fo g) t)"
  proof (cases "t = s")
    case True
    then have "d = c" using t s d by (auto simp: add_slab_def spare_slot_def all_slabs_def split: if_splits)
    then show ?thesis using True ok by (simp add: add_slab_def)
  next
    case False
    then have tc: "t \<in> set (v_cls g d)" using t by (auto simp: add_slab_def split: if_splits)
    then show ?thesis using same [OF d tc] slabs_okD [OF S tc d] False by (simp add: add_slab_def)
  qed
qed

lemma adopt_slab:
  assumes inv: "slab_inv n st g L" and c: "c < 10" "c < n" and s: "spare_slot g s" and p: "spare_page g p" "p \<in> L"
    and ok: "slab_ok (rd st) c s p fo" "rd st (s + 24) = 0"
    and bk: "pg_slab (page_array (pages st) (PHY_TO_PAGE p)) = s"
  shows "slab_inv n (wr (last (v_cls g c) + 24) s st) (add_slab c s p fo g) L"
    "keeps (L - v_meta g) st (wr (last (v_cls g c) + 24) s st)" "v_cls g c \<noteq> []"
proof -
  note V = slab_invD(2) [OF inv] and S = slab_invD(3) [OF inv]
  have ss: "s \<in> slots (v_meta g)" "s \<notin> all_slabs g" using s by (auto simp: spare_slot_def)
  have ch: "chain (\<lambda>t. opt_ptr (rd st (t + 24))) (Some (slabs st c)) (v_cls g c)" using S c by (auto simp: slabs_ok_def)
  then show ne: "v_cls g c \<noteq> []" by (cases "v_cls g c") auto
  define l where "l = last (v_cls g c)"
  have lc: "l \<in> set (v_cls g c)" using ne by (simp add: l_def)
  then have lA: "l \<in> all_slabs g" using c(1) cls_all by blast
  have ls: "l \<in> slots (v_meta g)" using view_slot V lA by blast
  define st' where "st' = wr (l + 24) s st"
  have al: "aligned 3 (l + 24)" using slot_word_aligned [OF ls] by simp
  have r: "rd st' x = (if x = l + 24 then s else rd st x)" if "aligned 3 x" for x
    using that al by (simp add: st'_def rd_wr)
  have fld: "rd st' (t + k) = (if t = l \<and> k = 24 then s else rd st (t + k))" if "t \<in> slots (v_meta g)" "k \<in> offs" for t k
    using r [OF slot_word_aligned [OF that]] slot_word_eq [OF that(1) ls that(2), of 24] by simp
  have obj: "rd st' x = rd st x" if "x \<in> objs d q" "q \<notin> v_meta g" for x d q
    using r [OF obj_aligned [OF that(1)]] obj_not_slot_word [OF that(1) ls _ that(2), of 24] by simp
  have fo: "set fo \<subseteq> objs c p" using ok(1) by (simp add: slab_ok_def)
  have sl: "s \<noteq> l" using ss(2) lA by auto
  have ok': "slab_ok (rd st') c s p fo"
    using ok(1) fld [OF ss(1)] obj fo p(1) sl
    by (subst slab_ok_cong [where r = "rd st"]) (auto simp: spare_page_def)
  have same: "slab_ok (rd st') d t (v_page g t) (v_free g t) = slab_ok (rd st) d t (v_page g t) (v_free g t)"
    if d: "d < 10" and t: "t \<in> set (v_cls g d)" for d t
  proof (rule slab_ok_cong)
    have tA: "t \<in> all_slabs g" using cls_all [OF t d] .
    show "rd st' (t + k) = rd st (t + k)" if "k \<in> {16, 32, 40, 48}" for k
      using fld [OF view_slot [OF V tA], of k] that by auto
    show "rd st' x = rd st x" if "x \<in> set (v_free g t)" for x
      using obj slab_free_objs [OF S t d] view_page [OF V tA] that by blast
  qed
  have nx: "rd st' (t + 24) = (if t = l then s else rd st (t + 24))" if "t \<in> set (v_cls g d)" "d < 10" for t d
    using fld [OF view_slot [OF V cls_all [OF that]], of 24] by simp
  have other: "chain (\<lambda>t. opt_ptr (rd st' (t + 24))) (if d < n then Some (slabs st d) else None) (v_cls g d)"
    if d: "d < 10" "d \<noteq> c" for d
  proof -
    have "l \<notin> set (v_cls g d)" using view_cls [OF V lc _ c(1) d(1)] d(2) by auto
    then have "chain (\<lambda>t. opt_ptr (rd st' (t + 24))) q (v_cls g d) = chain (\<lambda>t. opt_ptr (rd st (t + 24))) q (v_cls g d)" for q
      using nx [OF _ d(1)] by (intro chain_cong) auto
    then show ?thesis using S d(1) by (simp add: slabs_ok_def)
  qed
  have s0: "s \<noteq> 0"
  proof -
    have "PGROUNDDOWN s \<in> L" using ss(1) V by (auto simp: slots_def view_ok_def)
    then show ?thesis using pga.live_page [OF slab_invD(1) [OF inv]] by fastforce
  qed
  have "chain (\<lambda>t. opt_ptr (rd st' (t + 24))) (Some (slabs st c)) (v_cls g c @ [s])"
    by (rule chain_append [OF ch ne])
      (use V c(1) nx [OF _ c(1)] lc fld [OF ss(1), of 24] ok(2) sl s0 in \<open>auto simp: view_ok_def l_def\<close>)
  then have "slabs_ok n (rd st') (slabs st) (add_slab c s p fo g)"
    using c(2) by (intro slabs_ok_add [OF S V c(1) s ok' same other]) auto
  moreover have "pool_ok (rd st') st' (add_slab c s p fo g)"
  proof -
    have "rd st' x = rd st x" if "x \<in> set (v_pool g)" for x
      using fld [OF view_pool [OF V that], of 0] by simp
    then have "links (rd st') q (v_pool g) = links (rd st) q (v_pool g)" for q by (rule links_cong)
    then show ?thesis using slab_invD(4) [OF inv] by (simp add: pool_ok_def add_slab_def st'_def)
  qed
  moreover have "\<forall>t \<in> all_slabs (add_slab c s p fo g). pg_slab (page_array (pages st') (PHY_TO_PAGE (v_page (add_slab c s p fo g) t))) = t"
    using inv bk ss(2) by (auto simp: all_slabs_add [OF c(1)] slab_inv_def st'_def add_slab_fields)
  ultimately have "slab_inv n st' (add_slab c s p fo g) L"
    using view_ok_add [OF V c(1) s p] slab_invD(1) [OF inv] by (simp add: slab_inv_def st'_def)
  then show "slab_inv n (wr (last (v_cls g c) + 24) s st) (add_slab c s p fo g) L" by (simp add: st'_def l_def)
  show "keeps (L - v_meta g) st (wr (last (v_cls g c) + 24) s st)"
    using keeps_wr [OF al] slot_word_page [OF ls, of 24] by (simp add: l_def)
qed

lemma adopt_first:
  assumes inv: "slab_inv n st g L" and n: "n < 10" and s: "spare_slot g s" "slabs st n = s" and p: "spare_page g p" "p \<in> L"
    and ok: "slab_ok (rd st) n s p fo" "rd st (s + 24) = 0"
    and bk: "pg_slab (page_array (pages st) (PHY_TO_PAGE p)) = s"
  shows "slab_inv (Suc n) st (add_slab n s p fo g) L"
proof -
  note V = slab_invD(2) [OF inv] and S = slab_invD(3) [OF inv]
  have e: "v_cls g n = []" using S n by (auto simp: slabs_ok_def)
  have "slabs_ok (Suc n) (rd st) (slabs st) (add_slab n s p fo g)"
    by (rule slabs_ok_add [OF S V n s(1) ok(1)])
      (use S e s(2) ok(2) n in \<open>auto simp: slabs_ok_def less_Suc_eq\<close>)
  moreover have "pool_ok (rd st) st (add_slab n s p fo g)"
    using slab_invD(4) [OF inv] by (simp add: pool_ok_def add_slab_fields)
  moreover have "\<forall>t \<in> all_slabs (add_slab n s p fo g). pg_slab (page_array (pages st) (PHY_TO_PAGE (v_page (add_slab n s p fo g) t))) = t"
    using inv bk s(1) by (auto simp: all_slabs_add [OF n] slab_inv_def add_slab_fields spare_slot_def)
  ultimately show ?thesis
    using view_ok_add [OF V n s(1) p] slab_invD(1) [OF inv] by (simp add: slab_inv_def)
qed

lemma take_meta_inv:
  assumes inv: "slab_inv n st g L" and ps: "v_pool g = s # tl (v_pool g)" "tl (v_pool g) \<noteq> []"
  shows "slab_inv n (st\<lparr>pool_freelist := rd st s, pool_free := pool_free st - 1\<rparr>) (take_meta g) L"
    "spare_slot (take_meta g) s"
proof -
  obtain ps where P: "v_pool g = s # ps" "ps \<noteq> []" using ps by (cases "v_pool g") auto
  note V = slab_invD(2) [OF inv]
  have "links (rd st) (pool_freelist st) (s # ps)" using slab_invD(4) [OF inv] P by (simp add: pool_ok_def)
  then have l: "links (rd st) (rd st s) ps" by (rule linksD)
  have A: "all_slabs (take_meta g) = all_slabs g" by (simp add: all_slabs_def take_meta_def)
  have F: "v_pool (take_meta g) = ps" "v_page (take_meta g) = v_page g" using P by (simp_all add: take_meta_def)
  have "view_ok (take_meta g) L" using V P unfolding view_ok_def A by (auto simp: take_meta_def)
  moreover have "slabs_ok n (rd st) (slabs st) (take_meta g)"
    using slab_invD(3) [OF inv] by (simp add: slabs_ok_def take_meta_def)
  ultimately show "slab_inv n (st\<lparr>pool_freelist := rd st s, pool_free := pool_free st - 1\<rparr>) (take_meta g) L"
    using inv l P F by (auto simp: slab_inv_def pool_ok_def A)
  show "spare_slot (take_meta g) s"
    using V P unfolding spare_slot_def A by (auto simp: view_ok_def take_meta_def)
qed

lemma slab_free_meta_ok:
  assumes inv: "slab_inv n st g L" and s: "spare_slot g s"
  shows "slab_inv n (slab_free_meta s st) (g\<lparr>v_pool := s # v_pool g\<rparr>) L" "keeps (L - v_meta g) st (slab_free_meta s st)"
proof -
  define st1 where "st1 = wr s (pool_freelist st) st"
  have i: "slab_inv n st1 g L" and k: "keeps (L - v_meta g) st st1"
    using spare_slot_wr [OF inv s, of 0] by (auto simp: st1_def)
  have s0: "s \<noteq> 0"
  proof -
    have "PGROUNDDOWN s \<in> L" using s slab_invD(2) [OF inv] by (auto simp: slots_def view_ok_def spare_slot_def)
    then show ?thesis using pga.live_page [OF slab_invD(1) [OF inv]] by fastforce
  qed
  have eq: "slab_free_meta s st = st1\<lparr>pool_freelist := s, pool_free := pool_free st1 + 1\<rparr>"
    by (simp add: slab_free_meta_def st1_def)
  have "links (rd st1) (pool_freelist st) (v_pool g)" using slab_invD(4) [OF i] by (simp add: pool_ok_def st1_def)
  then have l: "links (rd st1) s (s # v_pool g)" using s0 by (simp add: links_def st1_def)
  have A: "all_slabs (g\<lparr>v_pool := s # v_pool g\<rparr>) = all_slabs g" by (simp add: all_slabs_def)
  have "view_ok (g\<lparr>v_pool := s # v_pool g\<rparr>) L"
    using slab_invD(2) [OF inv] s unfolding view_ok_def A by (auto simp: spare_slot_def)
  moreover have "slabs_ok n (rd st1) (slabs st1) (g\<lparr>v_pool := s # v_pool g\<rparr>)"
    using slab_invD(3) [OF i] by (simp add: slabs_ok_def)
  moreover have "v_pool g \<noteq> []" using slab_invD(2) [OF inv] by (simp add: view_ok_def)
  ultimately show "slab_inv n (slab_free_meta s st) (g\<lparr>v_pool := s # v_pool g\<rparr>) L"
    using i l unfolding eq by (auto simp: slab_inv_def pool_ok_def A)
  show "keeps (L - v_meta g) st (slab_free_meta s st)" using k by (simp add: eq)
qed

text \<open>Filling in the fields of a spare metadata block.\<close>

lemma spare_slot_rd:
  assumes "slab_inv n st g L" "spare_slot g s" "k \<in> offs" "j \<in> offs"
  shows "rd (wr (s + k) v st) (s + j) = (if j = k then v else rd st (s + j))"
  using spare_slot_word(1) [OF assms(1,2)] assms(3,4) by (simp add: rd_wr)

lemma other_slot_rd:
  assumes "slab_inv n st g L" "spare_slot g s" "t \<in> all_slabs g" "k \<in> offs" "j \<in> offs"
  shows "rd (wr (s + k) v st) (t + j) = rd st (t + j)"
proof -
  have ts: "t \<in> slots (v_meta g)" using view_slot [OF slab_invD(2) [OF assms(1)] assms(3)] .
  have ss: "s \<in> slots (v_meta g)" "s \<noteq> t" using assms(2,3) by (auto simp: spare_slot_def)
  show ?thesis
    using slot_word_aligned [OF ts assms(5)] slot_word_aligned [OF ss(1) assms(4)]
      slot_word_eq [OF ts ss(1) assms(5,4)] ss(2) by (simp add: rd_wr)
qed

lemma fill_slot:
  assumes inv: "slab_inv n st g L" and s: "spare_slot g s"
    and st': "st' = wr (s + 8) 0 (wr s 0 (wr (s + 24) 0 (wr (s + 48) c (wr (s + 40) b (wr (s + 32) a st)))))"
  shows "slab_inv n st' g L" "keeps (L - v_meta g) st st'"
    "rd st' (s + 32) = a" "rd st' (s + 40) = b" "rd st' (s + 48) = c" "rd st' (s + 24) = 0"
proof -
  define t1 where "t1 = wr (s + 32) a st"
  define t2 where "t2 = wr (s + 40) b t1"
  define t3 where "t3 = wr (s + 48) c t2"
  define t4 where "t4 = wr (s + 24) 0 t3"
  define t5 where "t5 = wr (s + 0) 0 t4"
  have eq: "st' = wr (s + 8) 0 t5" by (simp add: st' t1_def t2_def t3_def t4_def t5_def)
  note i1 = spare_slot_wr [OF inv s, of 32 a, folded t1_def]
  note i2 = spare_slot_wr [OF i1(1) s, of 40 b, folded t2_def]
  note i3 = spare_slot_wr [OF i2(1) s, of 48 c, folded t3_def]
  note i4 = spare_slot_wr [OF i3(1) s, of 24 0, folded t4_def]
  note i5 = spare_slot_wr [OF i4(1) s, of 0 0, folded t5_def]
  note i6 = spare_slot_wr [OF i5(1) s, of 8 0, folded eq]
  show "slab_inv n st' g L" using i6(1) by simp
  show "keeps (L - v_meta g) st st'" using i1(2) i2(2) i3(2) i4(2) i5(2) i6(2) by (simp add: keeps_def)
  show "rd st' (s + 32) = a" "rd st' (s + 40) = b" "rd st' (s + 48) = c" "rd st' (s + 24) = 0"
    unfolding eq t5_def t4_def t3_def t2_def t1_def
    using spare_slot_word(1) [OF inv s] spare_slot_word(1) [OF inv s, of 0] by (simp_all add: rd_wr)
qed

lemma evolves_same_meta:
  "slab_inv n st1 g1 L1 \<Longrightarrow> evolves (st, g, L) (st1, g1, L1) \<Longrightarrow> L1 \<subseteq> L2 \<Longrightarrow> keeps (L1 - v_meta g1) st1 st2 \<Longrightarrow>
   same_slabs g1 g2 \<Longrightarrow> v_meta g2 = v_meta g1 \<Longrightarrow> evolves (st, g, L) (st2, g2, L2)"
  by (rule evolves_trans) (auto simp: evolves_def)

text \<open>
  Creating a slab for a size class: out of memory is a panic when the metadata pool cannot grow
  and a null answer when there is no page for the objects.
\<close>

lemma do_create_new_slab_ok:
  assumes inv: "slab_inv n st g L" and f: "father \<in> set (v_cls g c)" "c < 10"
    and res: "do_create_new_slab father st = r"
  shows "(case r of Inl e \<Rightarrow> e = Panic ''memory out of space!''
    | Inr (s, st') \<Rightarrow> \<exists>g' L'. slab_inv n st' g' L' \<and> evolves (st, g, L) (st', g', L') \<and>
        (s = 0 \<or> (\<exists>p. spare_slot g' s \<and> spare_page g' p \<and> p \<in> L' \<and> slab_ok (rd st') c s p (blocks p (c + 3)) \<and>
           page_aligned p \<and> p \<noteq> 0 \<and> rd st' (s + 24) = 0 \<and> pg_slab (page_array (pages st') (PHY_TO_PAGE p)) = s)))"
proof (cases "slab_alloc_meta st")
  case (Inl e)
  then have "r = Inl e" "e = Panic ''memory out of space!''"
    using slab_alloc_meta_ok [OF inv Inl] res by (simp_all add: do_create_new_slab_def)
  then show ?thesis by simp
next
  case (Inr sa)
  obtain s st1 where sa: "sa = (s, st1)" by (cases sa)
  obtain g0 L0 st0 where m: "slab_inv n st0 g0 L0" "evolves (st, g, L) (st0, g0, L0)" "v_pool g0 = s # tl (v_pool g0)"
      "tl (v_pool g0) \<noteq> []" "s \<noteq> 0" "st1 = st0\<lparr>pool_freelist := rd st0 s, pool_free := pool_free st0 - 1\<rparr>"
    using slab_alloc_meta_ok [OF inv Inr] sa by auto
  define g1 where "g1 = take_meta g0"
  note t = take_meta_inv [OF m(1,3,4), folded m(6) g1_def]
  have mt: "v_meta g1 = v_meta g0" "same_slabs g0 g1" by (simp_all add: g1_def take_meta_def same_slabs_def)
  have ss: "same_slabs g g1" using m(2) mt(2) by (auto simp: evolves_def intro: same_slabs_trans)
  then have fc: "father \<in> set (v_cls g1 c)" using f by (simp add: same_slabs_def)
  then have fA: "father \<in> all_slabs g1" using f(2) cls_all by blast
  have fo: "rd st1 (father + 32) = 2 ^ (c + 3)" "rd st1 (father + 40) = 2 ^ (9 - c)"
    using slabs_okD [OF slab_invD(3) [OF t(1)] fc f(2)] by (simp_all add: slab_ok_def)
  define st2 where "st2 = wr (s + 32) (2 ^ (c + 3)) st1"
  define st5 where "st5 = wr (s + 8) 0 (wr s 0 (wr (s + 24) 0 (wr (s + 48) (2 ^ (9 - c)) (wr (s + 40) (2 ^ (9 - c)) st2))))"
  have f40: "rd st2 (father + 40) = 2 ^ (9 - c)"
    using other_slot_rd [OF t(1,2) fA, of 32 40] fo(2) by (simp add: st2_def)
  note fs = fill_slot [OF t(1,2) st5_def [unfolded st2_def]]
  obtain r' st6 where st6: "do_create_slab_object_storage s st5 = (r', st6)" by (cases "do_create_slab_object_storage s st5")
  have eq: "r = Inr (if r' \<noteq> 0 then (0, slab_free_meta s st6) else (s, st6))"
    using res Inr sa fo(1) f40 st6
    by (simp add: do_create_new_slab_def Let_def init_slab_lock_def st2_def [symmetric] st5_def [symmetric])
  have ev5: "evolves (st, g, L) (st5, g1, L0)"
    by (rule evolves_same_meta [OF m(1,2)]) (use fs(2) mt m(6) in \<open>auto simp: keeps_def\<close>)
  from storage_ok [OF fs(1) t(2) f(2) fs(3-6) st6] show ?thesis
  proof
    assume "r' = - 1 \<and> st6 = st5"
    then have eq': "r = Inr (0, slab_free_meta s st5)" using eq by simp
    note fm = slab_free_meta_ok [OF fs(1) t(2)]
    have "evolves (st, g, L) (slab_free_meta s st5, g1\<lparr>v_pool := s # v_pool g1\<rparr>, L0)"
      by (rule evolves_same_meta [OF fs(1) ev5]) (use fm(2) in \<open>auto simp: same_slabs_def\<close>)
    then show ?thesis using eq' fm(1) by auto
  next
    assume "r' = 0 \<and> (\<exists>p. p \<notin> L0 \<and> p \<noteq> 0 \<and> page_aligned p \<and> spare_page g1 p \<and> slab_inv n st6 g1 (insert p L0) \<and>
       slab_ok (rd st6) c s p (blocks p (c + 3)) \<and> rd st6 (s + 24) = 0 \<and>
       pg_slab (page_array (pages st6) (PHY_TO_PAGE p)) = s \<and> keeps (L0 - v_meta g1) st5 st6)"
    then obtain p where p: "r' = 0" "p \<noteq> 0" "page_aligned p" "spare_page g1 p" "slab_inv n st6 g1 (insert p L0)"
       "slab_ok (rd st6) c s p (blocks p (c + 3))" "rd st6 (s + 24) = 0"
       "pg_slab (page_array (pages st6) (PHY_TO_PAGE p)) = s" "keeps (L0 - v_meta g1) st5 st6" by blast
    have "evolves (st, g, L) (st6, g1, insert p L0)"
      by (rule evolves_same_meta [OF fs(1) ev5]) (use p(9) in auto)
    then show ?thesis using eq p t(2) by (auto intro!: exI [of _ g1] exI [of _ "insert p L0"])
  qed
qed

end
