(* ===== verification/SlabApi.thy ===== *)
theory SlabApi
  imports SlabOps
begin

text \<open>The object allocator's interface: what \<open>slab_alloc\<close>, \<open>slab_free\<close> and
  \<open>init_slab\<close> of \<open>src/mm/slab.c\<close> promise their callers.\<close>

section \<open>Live objects\<close>

text \<open>The objects handed out and not yet returned, with their size class.\<close>

definition live_objs :: "slab_view \<Rightarrow> (u64 \<times> nat) set" where
  "live_objs g = {(x, c). c < 10 \<and> (\<exists>s \<in> set (v_cls g c). x \<in> objs c (v_page g s) - set (v_free g s))}"

lemma live_same: "same_slabs g g' \<Longrightarrow> live_objs g' = live_objs g"
  by (simp add: live_objs_def same_slabs_def)

lemma obj_unique:
  assumes "view_ok g L" "s \<in> set (v_cls g c)" "c < 10" "t \<in> set (v_cls g d)" "d < 10"
    and "x \<in> objs c (v_page g s)" "x \<in> objs d (v_page g t)"
  shows "s = t" "c = d"
proof -
  have "v_page g s = v_page g t" using assms(6,7) by (simp add: objs_def)
  then show "s = t" using view_pages_eq [OF assms(1)] cls_all assms(2-5) by blast
  then show "c = d" using view_cls [OF assms(1,2)] assms(3-5) by blast
qed

text \<open>An object of slab \<open>s\<close> is live exactly when it is off that slab's free list.\<close>

lemma live_in:
  assumes V: "view_ok g L" and s: "s \<in> set (v_cls g c)" "c < 10" and y: "PGROUNDDOWN y = v_page g s"
  shows "(y, e) \<in> live_objs g \<longleftrightarrow> e = c \<and> y \<in> objs c (v_page g s) \<and> y \<notin> set (v_free g s)"
proof
  assume "(y, e) \<in> live_objs g"
  then obtain t where t: "e < 10" "t \<in> set (v_cls g e)" "y \<in> objs e (v_page g t)" "y \<notin> set (v_free g t)"
    unfolding live_objs_def by blast
  have "v_page g t = v_page g s" using t(3) y by (simp add: objs_def)
  then have st: "t = s" using view_pages_eq [OF V cls_all [OF t(2,1)] cls_all [OF s]] by simp
  moreover have "e = c" using view_cls [OF V s(1) _ s(2) t(1)] t(2) st by blast
  ultimately show "e = c \<and> y \<in> objs c (v_page g s) \<and> y \<notin> set (v_free g s)" using t by simp
next
  assume "e = c \<and> y \<in> objs c (v_page g s) \<and> y \<notin> set (v_free g s)"
  then show "(y, e) \<in> live_objs g" using s unfolding live_objs_def by blast
qed

lemma live_off:
  assumes "PGROUNDDOWN y \<noteq> v_page g s"
  shows "(y, e) \<in> live_objs (g\<lparr>v_free := (v_free g)(s := fs)\<rparr>) \<longleftrightarrow> (y, e) \<in> live_objs g"
proof -
  have "t \<noteq> s" if "y \<in> objs e (v_page g t)" for t using that assms by (auto simp: objs_def)
  then show ?thesis unfolding live_objs_def by auto
qed

lemma live_upd:
  assumes V: "view_ok g L" and s: "s \<in> set (v_cls g c)" "c < 10"
  shows "(y, e) \<in> live_objs (g\<lparr>v_free := (v_free g)(s := fs)\<rparr>) \<longleftrightarrow>
    (if PGROUNDDOWN y = v_page g s then e = c \<and> y \<in> objs c (v_page g s) \<and> y \<notin> set fs else (y, e) \<in> live_objs g)"
proof (cases "PGROUNDDOWN y = v_page g s")
  case True
  have "view_ok (g\<lparr>v_free := (v_free g)(s := fs)\<rparr>) L" using V by (simp add: view_ok_def all_slabs_def)
  from live_in [OF this, of s c y e] show ?thesis using s True by simp
next
  case False
  then show ?thesis using live_off by simp
qed

lemma live_pop:
  assumes V: "view_ok g L" and s: "s \<in> set (v_cls g c)" "c < 10" and f: "v_free g s = x # xs" "x \<notin> set xs" "x \<in> objs c (v_page g s)"
  shows "live_objs (g\<lparr>v_free := (v_free g)(s := xs)\<rparr>) = insert (x, c) (live_objs g)" "(x, d) \<notin> live_objs g"
proof -
  have px: "PGROUNDDOWN x = v_page g s" using f(3) by (simp add: objs_def)
  then show "(x, d) \<notin> live_objs g" using live_in [OF V s] f(1) by simp
  have "(y, e) \<in> live_objs (g\<lparr>v_free := (v_free g)(s := xs)\<rparr>) \<longleftrightarrow> (y, e) \<in> insert (x, c) (live_objs g)" for y e
    using live_upd [OF V s, of y e xs] live_in [OF V s, of y e] px f by (cases "PGROUNDDOWN y = v_page g s") auto
  then show "live_objs (g\<lparr>v_free := (v_free g)(s := xs)\<rparr>) = insert (x, c) (live_objs g)" by auto
qed

lemma live_push:
  assumes V: "view_ok g L" and s: "s \<in> set (v_cls g c)" "c < 10" and x: "x \<in> objs c (v_page g s)"
  shows "live_objs (g\<lparr>v_free := (v_free g)(s := x # v_free g s)\<rparr>) = live_objs g - {(x, c)}"
proof -
  have px: "PGROUNDDOWN x = v_page g s" using x by (simp add: objs_def)
  have "(y, e) \<in> live_objs (g\<lparr>v_free := (v_free g)(s := x # v_free g s)\<rparr>) \<longleftrightarrow> (y, e) \<in> live_objs g - {(x, c)}" for y e
    using live_upd [OF V s, of y e "x # v_free g s"] live_in [OF V s, of y e] px x by (cases "PGROUNDDOWN y = v_page g s") auto
  then show ?thesis by auto
qed

lemma live_add:
  assumes V: "view_ok g L" and s: "spare_slot g s" "c < 10" "set fo = objs c p" "spare_page g p" "p \<in> L"
  shows "live_objs (add_slab c s p fo g) = live_objs g"
proof -
  define g' where "g' = add_slab c s p fo g"
  have V': "view_ok g' L" using view_ok_add [OF V s(2,1,4,5)] by (simp add: g'_def)
  have n: "t \<noteq> s" if "t \<in> set (v_cls g d)" "d < 10" for t d
    using s(1) cls_all [OF that] by (auto simp: spare_slot_def)
  have "(y, e) \<in> live_objs g' \<longleftrightarrow> (y, e) \<in> live_objs g" for y e
  proof
    assume "(y, e) \<in> live_objs g'"
    then obtain t where t: "e < 10" "t \<in> set (v_cls g' e)" "y \<in> objs e (v_page g' t)" "y \<notin> set (v_free g' t)"
      unfolding live_objs_def by blast
    then have "t \<noteq> s" using s(3) n by (auto simp: g'_def add_slab_def split: if_splits)
    moreover from this t(2) have "t \<in> set (v_cls g e)" by (auto simp: g'_def add_slab_def split: if_splits)
    ultimately show "(y, e) \<in> live_objs g" using t by (auto simp: live_objs_def g'_def add_slab_fields)
  next
    assume "(y, e) \<in> live_objs g"
    then obtain t where t: "e < 10" "t \<in> set (v_cls g e)" "y \<in> objs e (v_page g t)" "y \<notin> set (v_free g t)"
      unfolding live_objs_def by blast
    then have "t \<in> set (v_cls g' e)" "v_page g' t = v_page g t" "v_free g' t = v_free g t"
      using n [OF t(2,1)] by (auto simp: g'_def add_slab_def)
    then show "(y, e) \<in> live_objs g'" using t unfolding live_objs_def by (metis (mono_tags, lifting) DiffI case_prodI mem_Collect_eq)
  qed
  then show ?thesis by (auto simp: g'_def)
qed

definition alloc_post :: "nat \<Rightarrow> slab_state \<Rightarrow> slab_view \<Rightarrow> u64 \<Rightarrow> slab_state \<Rightarrow> bool" where
  "alloc_post c st g x st' \<longleftrightarrow> (\<exists>g' L'. slab_inv 10 st' g' L' \<and> keeps (v_page g ` all_slabs g) st st' \<and>
     (if x = 0 then live_objs g' = live_objs g
      else live_objs g' = insert (x, c) (live_objs g) \<and> (\<forall>d. (x, d) \<notin> live_objs g) \<and> aligned (c + 3) x))"

lemma object_pages: "view_ok g L \<Longrightarrow> v_page g ` all_slabs g \<subseteq> L - v_meta g"
  by (auto simp: view_ok_def)

text \<open>Taking the first free object of a slab, seen from an earlier state.\<close>

lemma alloc_from_slab:
  assumes inv: "slab_inv 10 st1 g1 L1" and s: "s \<in> set (v_cls g1 c)" "c < 10" and f: "v_free g1 s \<noteq> []"
    and k: "keeps (v_page g ` all_slabs g) st st1" "v_page g ` all_slabs g \<subseteq> L1 - v_meta g1" "live_objs g1 = live_objs g"
  shows "\<exists>x st'. slab_alloc_loop s st1 = Some (Inr (x, st')) \<and> alloc_post c st g x st'"
proof -
  obtain x xs where fx: "v_free g1 s = x # xs" using f by (cases "v_free g1 s") auto
  note p = slab_pop [OF inv s fx]
  note V = slab_invD(2) [OF inv]
  define st' where "st' = wr (s + 48) (rd st1 (s + 48) - 1) (wr (s + 16) (rd st1 x) st1)"
  have l: "slab_alloc_loop s st1 = Some (Inr (x, st'))"
    using p(1,2) by (subst slab_alloc_loop.simps) (simp add: Let_def st'_def)
  have ss: "s \<in> slots (v_meta g1)" using view_slot [OF V cls_all [OF s]] .
  have "keeps (L1 - v_meta g1) st1 (wr (s + 16) (rd st1 x) st1)"
    "keeps (L1 - v_meta g1) (wr (s + 16) (rd st1 x) st1) st'"
    unfolding st'_def using slot_word_aligned [OF ss] slot_word_page [OF ss] by (auto intro!: keeps_wr)
  then have "keeps (L1 - v_meta g1) st1 st'" by (rule keeps_trans)
  then have kk: "keeps (v_page g ` all_slabs g) st st'" using keeps_trans [OF k(1) keeps_mono [OF _ k(2)]] by blast
  note lp = live_pop [OF V s fx p(4,3)]
  have "v_page g1 s \<noteq> 0" using pga.live_page [OF slab_invD(1) [OF inv]] V cls_all [OF s] by (auto simp: view_ok_def)
  then have "x \<noteq> 0" "aligned (c + 3) x" using p(3) by (auto simp: objs_def)
  then have "alloc_post c st g x st'"
    unfolding alloc_post_def using p(5) kk lp k(3) by (auto simp: st'_def)
  then show ?thesis using l by blast
qed

lemma slab_alloc_loop_ok:
  assumes inv: "slab_inv 10 st g L" and c: "c < 10"
  shows "v_cls g c = pre @ s # post \<Longrightarrow>
    \<exists>r. slab_alloc_loop s st = Some r \<and>
      (case r of Inl e \<Rightarrow> e = Panic ''memory out of space!'' | Inr (x, st') \<Rightarrow> alloc_post c st g x st')"
proof (induction post arbitrary: pre s)
  case Nil
  have sc: "s \<in> set (v_cls g c)" "last (v_cls g c) = s" using Nil by auto
  note V = slab_invD(2) [OF inv] and S = slab_invD(3) [OF inv]
  show ?case
  proof (cases "v_free g s = []")
    case False
    then show ?thesis using alloc_from_slab [OF inv sc(1) c False keeps_refl object_pages [OF V] refl] by auto
  next
    case True
    have full: "rd st (s + 48) = 0" using slabs_okD [OF S sc(1) c] True by (simp add: slab_ok_def)
    have "chain (\<lambda>t. opt_ptr (rd st (t + 24))) (Some (slabs st c)) (v_cls g c)" using S c by (auto simp: slabs_ok_def)
    then have nx: "rd st (s + 24) = 0" using chain_last sc(2) Nil by fastforce
    show ?thesis
    proof (cases "do_create_new_slab s st")
      case (Inl e)
      then show ?thesis using do_create_new_slab_ok [OF inv sc(1) c Inl] full nx by (subst slab_alloc_loop.simps) simp
    next
      case (Inr ns)
      obtain s' st1 where ns: "ns = (s', st1)" by (cases ns)
      obtain g1 L1 where g1: "slab_inv 10 st1 g1 L1" "evolves (st, g, L) (st1, g1, L1)"
        "s' = 0 \<or> (\<exists>p. spare_slot g1 s' \<and> spare_page g1 p \<and> p \<in> L1 \<and> slab_ok (rd st1) c s' p (blocks p (c + 3)) \<and>
           page_aligned p \<and> p \<noteq> 0 \<and> rd st1 (s' + 24) = 0 \<and> pg_slab (page_array (pages st1) (PHY_TO_PAGE p)) = s')"
        using do_create_new_slab_ok [OF inv sc(1) c Inr] ns by auto
      have same: "same_slabs g g1" "v_cls g1 = v_cls g" and kp: "keeps (v_page g ` all_slabs g) st st1"
        and sub: "v_page g ` all_slabs g \<subseteq> L1 - v_meta g1"
        using g1(2) object_pages [OF V] by (auto simp: evolves_def same_slabs_def elim!: keeps_mono)
      have step: "slab_alloc_loop s st = (if s' = 0 then Some (Inr (0, st1)) else slab_alloc_loop s' (wr (s + 24) s' st1))"
        using full nx Inr ns by (subst slab_alloc_loop.simps) simp
      show ?thesis
      proof (cases "s' = 0")
        case True
        then have "alloc_post c st g 0 st1" using g1(1) kp live_same [OF same(1)] by (auto simp: alloc_post_def)
        then show ?thesis using step True by simp
      next
        case False
        then obtain p where p: "spare_slot g1 s'" "spare_page g1 p" "p \<in> L1" "slab_ok (rd st1) c s' p (blocks p (c + 3))"
            "page_aligned p" "rd st1 (s' + 24) = 0" "pg_slab (page_array (pages st1) (PHY_TO_PAGE p)) = s'" using g1(3) by blast
        define g2 where "g2 = add_slab c s' p (blocks p (c + 3)) g1"
        note ad = adopt_slab [OF g1(1) c c p(1,2,3,4,6,7), folded g2_def]
        have l: "last (v_cls g1 c) = s" using same(2) sc(2) by simp
        have b: "set (blocks p (c + 3)) = objs c p" "blocks p (c + 3) \<noteq> []"
          using blocks_props(3,5) [OF p(5), of "c + 3"] c by (auto simp: objs_def)
        have lv: "live_objs g2 = live_objs g"
          using live_add [OF slab_invD(2) [OF g1(1)] p(1) c b(1) p(2,3)] live_same [OF same(1)] by (simp add: g2_def)
        have m2: "v_meta g2 = v_meta g1" by (simp add: g2_def add_slab_fields)
        have "keeps (v_page g ` all_slabs g) st (wr (s + 24) s' st1)"
          using keeps_trans [OF kp] keeps_mono [OF ad(2) sub] l by simp
        moreover have "s' \<in> set (v_cls g2 c)" "v_free g2 s' \<noteq> []" using b(2) by (simp_all add: g2_def add_slab_def)
        ultimately have "\<exists>x st'. slab_alloc_loop s' (wr (s + 24) s' st1) = Some (Inr (x, st')) \<and> alloc_post c st g x st'"
          using alloc_from_slab [of "wr (s + 24) s' st1" g2 L1 s' c g st] ad(1) l sub m2 lv c by simp
        then show ?thesis using step False by auto
      qed
    qed
  qed
next
  case (Cons t post)
  have sc: "s \<in> set (v_cls g c)" using Cons.prems by simp
  note V = slab_invD(2) [OF inv] and S = slab_invD(3) [OF inv]
  show ?case
  proof (cases "v_free g s = []")
    case False
    then show ?thesis using alloc_from_slab [OF inv sc c False keeps_refl object_pages [OF V] refl] by auto
  next
    case True
    have full: "rd st (s + 48) = 0" using slabs_okD [OF S sc c] True by (simp add: slab_ok_def)
    have "chain (\<lambda>t. opt_ptr (rd st (t + 24))) (Some (slabs st c)) (v_cls g c)" using S c by (auto simp: slabs_ok_def)
    then have nx: "rd st (s + 24) = t" "t \<noteq> 0" using chain_next [of _ _ pre s t post] Cons.prems by fastforce+
    have "slab_alloc_loop s st = slab_alloc_loop t st" using full nx by (subst slab_alloc_loop.simps) simp
    then show ?thesis using Cons.IH [of "pre @ [s]" t] Cons.prems by simp
  qed
qed

section \<open>Live objects do not overlap\<close>

lemma live_objsE:
  assumes "(x, c) \<in> live_objs g" "view_ok g L"
  obtains s where "s \<in> set (v_cls g c)" "c < 10" "x \<in> objs c (v_page g s)" "x \<notin> set (v_free g s)"
    "v_page g s \<in> L" "v_page g s \<notin> v_meta g"
proof -
  from assms(1) obtain s where "c < 10" "s \<in> set (v_cls g c)" "x \<in> objs c (v_page g s)" "x \<notin> set (v_free g s)"
    unfolding live_objs_def by blast
  then show ?thesis using that object_pages [OF assms(2)] cls_all [of s g c] by blast
qed

lemma obj_block_page:
  assumes "x \<in> objs c p" "c < 10" "unat (z - x) < 2 ^ (c + 3)"
  shows "PGROUNDDOWN z = p"
  using PGROUNDDOWN_block [of "c + 3" x "z - x"] assms by (simp add: objs_def)

lemma live_disjoint:
  assumes V: "view_ok g L" and xy: "(x, c) \<in> live_objs g" "(y, d) \<in> live_objs g" "(x, c) \<noteq> (y, d)"
    and z: "unat (z - x) < 2 ^ (c + 3)" "unat (z - y) < 2 ^ (d + 3)"
  shows False
proof -
  obtain s where s: "s \<in> set (v_cls g c)" "c < 10" "x \<in> objs c (v_page g s)" by (rule live_objsE [OF xy(1) V])
  obtain t where t: "t \<in> set (v_cls g d)" "d < 10" "y \<in> objs d (v_page g t)" by (rule live_objsE [OF xy(2) V])
  have p: "PGROUNDDOWN z = v_page g s" "PGROUNDDOWN z = v_page g t"
    using obj_block_page s(2,3) t(2,3) z by blast+
  then have "y \<in> objs d (v_page g s)" "x \<in> objs c (v_page g t)" using s(3) t(3) by simp_all
  moreover from p have "s = t" using view_pages_eq [OF V cls_all [OF s(1,2)] cls_all [OF t(1,2)]] by simp
  ultimately have cd: "c = d" using view_cls [OF V s(1) _ s(2) t(2)] t(1) by simp
  then have "2 ^ (c + 3) \<le> unat (y + (z - y) - x)"
    using s t xy(3) z(2) by (intro aligned_block_ge) (auto simp: objs_def)
  then show False using z(1) by simp
qed

text \<open>The owner of an object writes one byte of it.\<close>

definition poke :: "memory \<Rightarrow> slab_state \<Rightarrow> slab_state" where
  "poke m st = st\<lparr>pages := put_ram m (pages st)\<rparr>"

lemma poke_fields [simp]:
  "slabs (poke m st) = slabs st" "pool_freelist (poke m st) = pool_freelist st" "pool_end (poke m st) = pool_end st"
  "pool_free (poke m st) = pool_free st" "page_array (pages (poke m st)) = page_array (pages st)"
  "ram (pages (poke m st)) = m"
  by (simp_all add: poke_def put_ram_def)

lemma page_inv_poke [simp]: "page_inv (pages (poke m st)) L = page_inv (pages st) L"
  by (simp add: poke_def)

lemma store_live:
  assumes inv: "slab_inv 10 st g L" and x: "(x, c) \<in> live_objs g" and z: "unat (z - x) < 2 ^ (c + 3)"
  shows "slab_inv 10 (poke ((ram (pages st))(z := b)) st) g L"
proof (rule slab_inv_rd [OF inv])
  note V = slab_invD(2) [OF inv] and S = slab_invD(3) [OF inv]
  obtain s where s: "s \<in> set (v_cls g c)" "c < 10" "x \<in> objs c (v_page g s)" "x \<notin> set (v_free g s)" "v_page g s \<notin> v_meta g"
    by (rule live_objsE [OF x V])
  have zp: "PGROUNDDOWN z = v_page g s" using obj_block_page s(2,3) z by blast
  fix a assume a: "a \<in> slab_words g \<union> set (v_pool g)"
  have al: "aligned 3 a" using a slab_words_sep(1) [OF V S] pool_aligned [OF V] by blast
  have "z \<noteq> a + of_nat i" if i: "i < 8" for i
  proof
    assume zi: "z = a + of_nat i"
    have u: "unat (of_nat i :: u64) = i" using i by (intro unat_of_nat_small) simp
    have pa: "PGROUNDDOWN a = v_page g s" using PGROUNDDOWN_block [of 3 a "of_nat i"] al i u zp zi by simp
    then have "PGROUNDDOWN a \<notin> v_meta g" using s(5) by simp
    then have "a \<notin> slots (v_meta g)" "a \<notin> {s + k | s k. s \<in> all_slabs g \<and> k \<in> {16, 24, 32, 40, 48}}"
      using slot_word_page view_slot [OF V] by (auto simp: slots_def offs_def)
    moreover have "set (v_pool g) \<subseteq> slots (v_meta g)" using V by (simp add: view_ok_def)
    ultimately obtain t where t: "t \<in> all_slabs g" "a \<in> set (v_free g t)" using a by (auto simp: slab_words_def)
    then obtain d where d: "d < 10" "t \<in> set (v_cls g d)" by (auto simp: all_slabs_def)
    then have ad: "a \<in> objs d (v_page g t)" using slabs_okD [OF S d(2,1)] t(2) by (auto simp: slab_ok_def)
    then have "t = s" using pa view_pages_eq [OF V t(1) cls_all [OF s(1,2)]] by (simp add: objs_def)
    moreover from this have "d = c" using view_cls [OF V d(2) _ d(1) s(2)] s(1) by simp
    ultimately have "a \<noteq> x" "aligned (c + 3) a" using t(2) s(4) ad by (auto simp: objs_def)
    moreover have "(8::nat) \<le> 2 ^ (c + 3)" using power_increasing [of 3 "c + 3" "2::nat"] by simp
    ultimately have "2 ^ (c + 3) \<le> unat (a + of_nat i - x)"
      using s(2,3) i u by (intro aligned_block_ge) (auto simp: objs_def)
    then show False using z zi by simp
  qed
  then show "rd (poke ((ram (pages st))(z := b)) st) a = rd st a"
    unfolding rd_def by (intro load64_cong) auto
qed (use slab_invD(1) [OF inv] in simp_all)

section \<open>What the operations promise\<close>

lemma slab_alloc_index:
  assumes "0 < sz" "sz \<le> 4096"
  obtains c where "c < 10" "unat sz \<le> 2 ^ (c + 3)" "c = 0 \<or> 2 ^ (c + 2) < unat sz"
    "\<And>st. slab_alloc sz st = slab_alloc_loop (slabs st c) st"
proof -
  from assms obtain c where c: "c < 10" "slab_round_up sz = 2 ^ (c + 3)" "unat sz \<le> 2 ^ (c + 3)"
    "c = 0 \<or> 2 ^ (c + 2) < unat sz" by (rule slab_class)
  have i: "POW2_SHIFT_COUNT (slab_round_up sz) - 3 = of_nat c" using ctz_pow2 [OF c(1)] c(2) by simp
  have "c \<in> {0, 1, 2, 3, 4, 5, 6, 7, 8, 9}" using c(1) by auto
  then have "sint (of_nat c :: i32) = int c" "slab_round_up sz \<noteq> 0" using c(2) by (elim insertE emptyE; simp)+
  then have "slab_alloc sz st = slab_alloc_loop (slabs st c) st" for st
    using c(1) by (simp add: slab_alloc_def i)
  then show ?thesis using that c by blast
qed

lemma slab_alloc_ok:
  assumes inv: "slab_inv 10 st g L" and sz: "0 < sz" "sz \<le> 4096"
  obtains c r where "c < 10" "unat sz \<le> 2 ^ (c + 3)" "c = 0 \<or> 2 ^ (c + 2) < unat sz" "slab_alloc sz st = Some r"
    "case r of Inl e \<Rightarrow> e = Panic ''memory out of space!'' | Inr (x, st') \<Rightarrow> alloc_post c st g x st'"
proof -
  from sz obtain c where c: "c < 10" "unat sz \<le> 2 ^ (c + 3)" "c = 0 \<or> 2 ^ (c + 2) < unat sz"
    "slab_alloc sz st = slab_alloc_loop (slabs st c) st" by (rule slab_alloc_index) blast
  have "chain (\<lambda>t. opt_ptr (rd st (t + 24))) (Some (slabs st c)) (v_cls g c)"
    using slab_invD(3) [OF inv] c(1) by (auto simp: slabs_ok_def)
  then obtain post where "v_cls g c = [] @ slabs st c # post" by (cases "v_cls g c") auto
  from slab_alloc_loop_ok [OF inv c(1) this] show ?thesis using that c by fastforce
qed

lemma wr_other: "\<not> unat (z - a) < 8 \<Longrightarrow> ram (pages (wr a v st)) z = ram (pages st) z"
  by (simp add: wr_def put_ram_def store64_def)

lemma slot_off:
  assumes "s \<in> slots P" "k \<in> offs" "PGROUNDDOWN z \<notin> P"
  shows "\<not> unat (z - (s + k)) < 8"
proof
  assume "unat (z - (s + k)) < 8"
  then have "PGROUNDDOWN (s + k + (z - (s + k))) = PGROUNDDOWN (s + k)"
    using slot_word_aligned [OF assms(1,2)] by (intro PGROUNDDOWN_block [of 3]) simp_all
  then show False using slot_word_page [OF assms(1,2)] assms(3) by simp
qed

lemma slab_nonzero:
  assumes "slab_inv n st g L" "s \<in> all_slabs g"
  shows "s \<noteq> 0"
proof
  assume "s = 0"
  then have "PGROUNDDOWN 0 \<in> v_meta g" using view_slot [OF slab_invD(2) [OF assms(1)] assms(2)] by (simp add: slots_def)
  then have "0 \<in> L" using slab_invD(2) [OF assms(1)] by (auto simp: view_ok_def)
  then show False using pga.live_page [OF slab_invD(1) [OF assms(1)]] by blast
qed

lemma slab_free_ok:
  assumes inv: "slab_inv 10 st g L" and x: "(x, c) \<in> live_objs g"
  obtains st' g' where "slab_free x st = Inr st'" "slab_inv 10 st' g' L" "live_objs g' = live_objs g - {(x, c)}"
    "\<And>z. PGROUNDDOWN z \<notin> v_meta g \<Longrightarrow> \<not> unat (z - x) < 8 \<Longrightarrow> ram (pages st') z = ram (pages st) z"
proof -
  note I = slab_invD(1) [OF inv] and V = slab_invD(2) [OF inv]
  obtain s where s: "s \<in> set (v_cls g c)" "c < 10" "x \<in> objs c (v_page g s)" "x \<notin> set (v_free g s)" "v_page g s \<in> L"
    by (rule live_objsE [OF x V])
  note p = slab_push [OF inv s(1-4)]
  obtain i where i: "paddr (page_array (pages st) i) = v_page g s" "PHY_TO_PAGE (v_page g s) = i" "PHY_TO_PAGE x = i"
  proof (rule page_inv_live [OF I s(5)])
    fix i assume "PHY_TO_PAGE (v_page g s) = i" "paddr (page_array (pages st) i) = v_page g s"
      "\<And>y. PGROUNDDOWN y = v_page g s \<Longrightarrow> PHY_TO_PAGE y = i"
    then show ?thesis using that [of i] s(3) by (simp add: objs_def)
  qed
  have sA: "s \<in> all_slabs g" using cls_all s(1,2) .
  have ss: "s \<in> slots (v_meta g)" using view_slot [OF V sA] .
  have pg: "page_aligned (v_page g s)" "v_page g s \<noteq> 0" using pga.live_page [OF I s(5)] by auto
  have n0: "x \<noteq> 0" "s \<noteq> 0"
    using s(3) pg(2) slab_nonzero [OF inv sA] by (auto simp: objs_def)
  have sl: "pg_slab (page_array (pages st) i) = s" using inv sA i(2) by (auto simp: slab_inv_def)
  have lt: "\<not> PG_4K_SIZE \<le> x - v_page g s"
    using in_page [OF pg(1), of x] s(3) by (simp add: objs_def PG_4K_SIZE_def word_le_nat_alt)
  have md: "(x - v_page g s) mod rd st (s + 32) = 0"
    using obj_size_mod [OF s(3) pg(1) s(2)] slabs_okD [OF slab_invD(3) [OF inv] s(1,2)] by (simp add: slab_ok_def)
  have "slab_free x st = Inr (do_free_slab_object_from_out s x st)"
    unfolding slab_free_def using n0 i sl lt md by simp
  then show ?thesis
  proof (rule that [OF _ p(1) live_push [OF V s(1-3)]])
    fix z assume z: "PGROUNDDOWN z \<notin> v_meta g" "\<not> unat (z - x) < 8"
    then show "ram (pages (do_free_slab_object_from_out s x st)) z = ram (pages st) z"
      unfolding do_free_slab_object_from_out_def Let_def
      using slot_off [OF ss, of 16 z] slot_off [OF ss, of 48 z] by (simp add: wr_other offs_def)
  qed
qed

section \<open>The interface of the object allocator\<close>

text \<open>
  \<open>inv s A\<close> says that \<open>A\<close> is the set of live objects, each with the number of bytes it
  owns. The owner of an object may write its bytes (\<open>put\<close>).
\<close>

definition in_block :: "u64 \<Rightarrow> nat \<Rightarrow> u64 \<Rightarrow> bool" where
  "in_block x n z \<longleftrightarrow> unat (z - x) < n"

definition same_objects :: "(u64 \<times> nat) set \<Rightarrow> memory \<Rightarrow> memory \<Rightarrow> bool" where
  "same_objects A m m' \<longleftrightarrow> (\<forall>(x, n) \<in> A. \<forall>z. in_block x n z \<longrightarrow> m' z = m z)"

locale object_allocator =
  fixes inv :: "'s \<Rightarrow> (u64 \<times> nat) set \<Rightarrow> bool"
    and alloc :: "u32 \<Rightarrow> 's \<Rightarrow> (u64 \<times> 's) kres option"
    and free :: "u64 \<Rightarrow> 's \<Rightarrow> 's kres"
    and mem :: "'s \<Rightarrow> memory"
    and put :: "memory \<Rightarrow> 's \<Rightarrow> 's"
  assumes alloc_returns: "inv s A \<Longrightarrow> \<exists>r. alloc n s = Some r"
    and alloc_null: "inv s A \<Longrightarrow> alloc n s = Some (Inr (0, s')) \<Longrightarrow> inv s' A \<and> same_objects A (mem s) (mem s')"
    and alloc_fresh: "inv s A \<Longrightarrow> alloc n s = Some (Inr (x, s')) \<Longrightarrow> x \<noteq> 0 \<Longrightarrow>
      \<exists>m \<ge> unat n. inv s' (insert (x, m) A) \<and> (\<forall>k. (x, k) \<notin> A) \<and> same_objects A (mem s) (mem s')"
    and free_live: "inv s A \<Longrightarrow> (x, m) \<in> A \<Longrightarrow>
      \<exists>s'. free x s = Inr s' \<and> inv s' (A - {(x, m)}) \<and> same_objects (A - {(x, m)}) (mem s) (mem s')"
    and disjoint: "inv s A \<Longrightarrow> a \<in> A \<Longrightarrow> b \<in> A \<Longrightarrow> a \<noteq> b \<Longrightarrow>
      in_block (fst a) (snd a) z \<Longrightarrow> in_block (fst b) (snd b) z \<Longrightarrow> False"
    and size_bounds: "inv s A \<Longrightarrow> (x, m) \<in> A \<Longrightarrow> 0 < m \<and> m \<le> 4096"
    and put_live: "inv s A \<Longrightarrow> (x, m) \<in> A \<Longrightarrow> in_block x m z \<Longrightarrow> inv (put ((mem s)(z := v)) s) A"
    and mem_put [simp]: "mem (put r s) = r"

text \<open>
  A client: it requests objects, releases them and stores bytes into those it holds. It records
  each object with the size it asked for, and is stopped when it misuses one; \<open>None\<close> is also
  the outcome of a panic.
\<close>

datatype obj_op = OAlloc u32 | OFree u64 | OStore u64 nat u8

type_synonym handles = "(u64 \<times> nat) list"

fun run_obj_op :: "(u32 \<Rightarrow> 's \<Rightarrow> (u64 \<times> 's) kres option) \<Rightarrow> (u64 \<Rightarrow> 's \<Rightarrow> 's kres) \<Rightarrow> ('s \<Rightarrow> memory) \<Rightarrow>
    (memory \<Rightarrow> 's \<Rightarrow> 's) \<Rightarrow> obj_op \<Rightarrow> 's \<times> handles \<Rightarrow> ('s \<times> handles) option" where
  "run_obj_op alloc free mem put (OAlloc n) (s, hs) =
     (case alloc n s of Some (Inr (x, s')) \<Rightarrow> Some (s', if x = 0 then hs else (x, unat n) # hs) | _ \<Rightarrow> None)"
| "run_obj_op alloc free mem put (OFree x) (s, hs) =
     (if x \<in> fst ` set hs
      then case free x s of Inl e \<Rightarrow> None | Inr s' \<Rightarrow> Some (s', [h \<leftarrow> hs. fst h \<noteq> x]) else None)"
| "run_obj_op alloc free mem put (OStore x i b) (s, hs) =
     (if list_ex (\<lambda>(y, n). y = x \<and> i < n) hs then Some (put ((mem s)(x + of_nat i := b)) s, hs) else None)"

fun run_obj_ops :: "(u32 \<Rightarrow> 's \<Rightarrow> (u64 \<times> 's) kres option) \<Rightarrow> (u64 \<Rightarrow> 's \<Rightarrow> 's kres) \<Rightarrow> ('s \<Rightarrow> memory) \<Rightarrow>
    (memory \<Rightarrow> 's \<Rightarrow> 's) \<Rightarrow> obj_op list \<Rightarrow> 's \<times> handles \<Rightarrow> ('s \<times> handles) option" where
  "run_obj_ops alloc free mem put [] c = Some c"
| "run_obj_ops alloc free mem put (op # ops) c =
     (case run_obj_op alloc free mem put op c of None \<Rightarrow> None | Some c' \<Rightarrow> run_obj_ops alloc free mem put ops c')"

text \<open>What byte \<open>i\<close> of object \<open>x\<close> holds after the client's own stores, starting from \<open>b\<close>.\<close>

fun private_byte :: "u64 \<Rightarrow> nat \<Rightarrow> obj_op list \<Rightarrow> u8 \<Rightarrow> u8" where
  "private_byte x i [] b = b"
| "private_byte x i (OStore y j v # ops) b = private_byte x i ops (if y = x \<and> j = i then v else b)"
| "private_byte x i (op # ops) b = private_byte x i ops b"

definition holds :: "(u64 \<times> nat) set \<Rightarrow> handles \<Rightarrow> bool" where
  "holds A hs \<longleftrightarrow> distinct (map fst hs) \<and> (\<forall>(x, n) \<in> set hs. \<exists>m \<ge> n. (x, m) \<in> A)"

lemma same_objectsD: "same_objects A m m' \<Longrightarrow> (x, n) \<in> A \<Longrightarrow> in_block x n z \<Longrightarrow> m' z = m z"
  unfolding same_objects_def by blast

lemma in_block_of_nat: "i < n \<Longrightarrow> n \<le> 18446744073709551616 \<Longrightarrow> in_block x n (x + of_nat i)"
  by (simp add: in_block_def unat_of_nat_small)

lemma in_block_mono: "in_block x n z \<Longrightarrow> n \<le> m \<Longrightarrow> in_block x m z"
  by (simp add: in_block_def)

context object_allocator
begin

lemma live_unique:
  assumes "inv s A" "(x, m) \<in> A" "(x, k) \<in> A"
  shows "m = k"
proof (rule ccontr)
  assume "m \<noteq> k"
  then have "(x, m) \<noteq> (x, k)" by simp
  from disjoint [OF assms(1,2,3) this, of x] show False using size_bounds assms by (auto simp: in_block_def)
qed

lemma holdsE:
  assumes "holds A hs" "(x, n) \<in> set hs"
  obtains m where "n \<le> m" "(x, m) \<in> A"
  using assms unfolding holds_def by blast

lemma handle_byte:
  assumes "inv s A" "holds A hs" "(x, n) \<in> set hs" "i < n"
  obtains m where "(x, m) \<in> A" "n \<le> m" "i < 4096" "in_block x m (x + of_nat i)"
proof -
  obtain m where m: "n \<le> m" "(x, m) \<in> A" using assms(2,3) by (rule holdsE)
  then have "m \<le> 4096" using size_bounds [OF assms(1)] by blast
  then show ?thesis using that [OF m(2,1)] assms(4) m(1) by (simp add: in_block_of_nat)
qed

lemma alloc_step:
  assumes I: "inv s A" and H: "holds A hs" and al: "alloc k s = Some (Inr (y, s'))"
  shows "\<exists>A'. inv s' A' \<and> holds A' (if y = 0 then hs else (y, unat k) # hs)"
    "(x, n) \<in> set hs \<Longrightarrow> i < n \<Longrightarrow> mem s' (x + of_nat i) = mem s (x + of_nat i)"
proof -
  show "\<exists>A'. inv s' A' \<and> holds A' (if y = 0 then hs else (y, unat k) # hs)"
  proof (cases "y = 0")
    case False
    then obtain m where m: "unat k \<le> m" "inv s' (insert (y, m) A)" "\<forall>l. (y, l) \<notin> A" using alloc_fresh [OF I al] by blast
    then have "y \<notin> fst ` set hs" using H unfolding holds_def by fastforce
    then have "holds (insert (y, m) A) ((y, unat k) # hs)" using H m(1) unfolding holds_def by fastforce
    then show ?thesis using m(2) False by auto
  qed (use alloc_null [OF I] al H in auto)
  have "same_objects A (mem s) (mem s')" using alloc_null [OF I, of k s'] alloc_fresh [OF I al] al by (cases "y = 0") auto
  then show "mem s' (x + of_nat i) = mem s (x + of_nat i)" if "(x, n) \<in> set hs" "i < n"
    using handle_byte [OF I H that] same_objectsD by metis
qed

lemma free_step:
  assumes I: "inv s A" and H: "holds A hs" and y: "y \<in> fst ` set hs" and fr: "free y s = Inr s'"
  shows "\<exists>A'. inv s' A' \<and> holds A' [h \<leftarrow> hs. fst h \<noteq> y]"
    "(x, n) \<in> set hs \<Longrightarrow> x \<noteq> y \<Longrightarrow> i < n \<Longrightarrow> mem s' (x + of_nat i) = mem s (x + of_nat i)"
proof -
  obtain m where m: "(y, m) \<in> A" using y H unfolding holds_def by fastforce
  have f: "inv s' (A - {(y, m)})" "same_objects (A - {(y, m)}) (mem s) (mem s')" using free_live [OF I m] fr by auto
  have "holds (A - {(y, m)}) [h \<leftarrow> hs. fst h \<noteq> y]"
    using H unfolding holds_def by (auto simp: distinct_map_filter)
  then show "\<exists>A'. inv s' A' \<and> holds A' [h \<leftarrow> hs. fst h \<noteq> y]" using f(1) by blast
  show "mem s' (x + of_nat i) = mem s (x + of_nat i)" if xn: "(x, n) \<in> set hs" "x \<noteq> y" "i < n"
  proof -
    obtain l where "(x, l) \<in> A" "in_block x l (x + of_nat i)" using handle_byte [OF I H xn(1,3)] by blast
    then show ?thesis using same_objectsD [OF f(2)] xn(2) by blast
  qed
qed

lemma store_step:
  assumes I: "inv s A" and H: "holds A hs" and y: "(y, k) \<in> set hs" "j < k"
  shows "inv (put ((mem s)(y + of_nat j := v)) s) A"
    "(x, n) \<in> set hs \<Longrightarrow> i < n \<Longrightarrow> x + of_nat i = y + of_nat j \<longleftrightarrow> x = y \<and> i = j"
proof -
  obtain m where m: "(y, m) \<in> A" "j < 4096" "in_block y m (y + of_nat j)" using handle_byte [OF I H y] by blast
  then show "inv (put ((mem s)(y + of_nat j := v)) s) A" using put_live [OF I] by blast
  show "x + of_nat i = y + of_nat j \<longleftrightarrow> x = y \<and> i = j" if xn: "(x, n) \<in> set hs" "i < n"
  proof (cases "x = y")
    case True
    obtain l where l: "i < 4096" using handle_byte [OF I H xn] by blast
    then have "i = j" if "(of_nat i :: u64) = of_nat j"
      using arg_cong [OF that, of unat] m(2) by (simp add: unat_of_nat_small)
    then show ?thesis using True by auto
  next
    case False
    obtain l where l: "(x, l) \<in> A" "in_block x l (x + of_nat i)" using handle_byte [OF I H xn] by blast
    have "\<not> in_block y m (x + of_nat i)" using disjoint [OF I l(1) m(1), of "x + of_nat i"] l(2) False by auto
    then have "x + of_nat i \<noteq> y + of_nat j" using m(3) by metis
    then show ?thesis using False by simp
  qed
qed

text \<open>One request keeps the handles live, and changes no byte of them that it does not store.\<close>

lemma op_step:
  assumes I: "inv s A" "holds A hs" and r: "run_obj_op alloc free mem put op (s, hs) = Some (s', hs')"
  shows "\<exists>A'. inv s' A' \<and> holds A' hs'"
    "(x, n) \<in> set hs \<Longrightarrow> i < n \<Longrightarrow> op \<noteq> OFree x \<Longrightarrow>
      (x, n) \<in> set hs' \<and> mem s' (x + of_nat i) = private_byte x i [op] (mem s (x + of_nat i))"
proof -
  have "(\<exists>A'. inv s' A' \<and> holds A' hs') \<and> ((x, n) \<in> set hs \<longrightarrow> i < n \<longrightarrow> op \<noteq> OFree x \<longrightarrow>
      (x, n) \<in> set hs' \<and> mem s' (x + of_nat i) = private_byte x i [op] (mem s (x + of_nat i)))"
  proof (cases op)
    case (OAlloc k)
    then obtain y where a: "alloc k s = Some (Inr (y, s'))" "hs' = (if y = 0 then hs else (y, unat k) # hs)"
      using r by (auto split: option.splits sum.splits)
    show ?thesis using alloc_step(1) [OF I a(1)] alloc_step(2) [OF I a(1), of x n i] a(2) OAlloc by simp
  next
    case (OFree y)
    then have f: "y \<in> fst ` set hs" "free y s = Inr s'" "hs' = [h \<leftarrow> hs. fst h \<noteq> y]"
      using r by (auto split: if_splits sum.splits)
    show ?thesis using free_step(1) [OF I f(1,2)] free_step(2) [OF I f(1,2), of x n i] f(3) OFree by simp
  next
    case (OStore y j v)
    then have l: "list_ex (\<lambda>(z, n). z = y \<and> j < n) hs" "put ((mem s)(y + of_nat j := v)) s = s'" "hs' = hs"
      using r by (simp_all split: if_splits)
    then obtain k where k: "(y, k) \<in> set hs" "j < k" "s' = put ((mem s)(y + of_nat j := v)) s" "hs' = hs"
      unfolding list_ex_iff by blast
    have "\<exists>A'. inv s' A' \<and> holds A' hs'" using store_step(1) [OF I k(1,2)] I(2) k(3,4) by blast
    moreover have "x + of_nat i = y + of_nat j \<longleftrightarrow> x = y \<and> i = j" if "(x, n) \<in> set hs" "i < n"
      using store_step(2) [OF I k(1,2) that] .
    ultimately show ?thesis using k(3,4) OStore by (auto simp: fun_upd_def)
  qed
  then show "\<exists>A'. inv s' A' \<and> holds A' hs'"
    "(x, n) \<in> set hs \<Longrightarrow> i < n \<Longrightarrow> op \<noteq> OFree x \<Longrightarrow>
      (x, n) \<in> set hs' \<and> mem s' (x + of_nat i) = private_byte x i [op] (mem s (x + of_nat i))" by blast+
qed

lemma run_isolated:
  assumes "inv s A" "holds A hs" "run_obj_ops alloc free mem put ops (s, hs) = Some (s', hs')"
    "(x, n) \<in> set hs" "OFree x \<notin> set ops" "i < n"
  shows "mem s' (x + of_nat i) = private_byte x i ops (mem s (x + of_nat i))"
  using assms
proof (induction ops arbitrary: s A hs)
  case (Cons op ops)
  obtain s1 hs1 where o: "run_obj_op alloc free mem put op (s, hs) = Some (s1, hs1)"
    "run_obj_ops alloc free mem put ops (s1, hs1) = Some (s', hs')" using Cons.prems(3) by (auto split: option.splits)
  obtain A1 where A1: "inv s1 A1" "holds A1 hs1"
    "(x, n) \<in> set hs1" "mem s1 (x + of_nat i) = private_byte x i [op] (mem s (x + of_nat i))"
    using op_step(1) [OF Cons.prems(1,2) o(1)] op_step(2) [OF Cons.prems(1,2) o(1) Cons.prems(4,6)] Cons.prems(5) by auto
  have "mem s' (x + of_nat i) = private_byte x i ops (mem s1 (x + of_nat i))"
    using Cons.IH [OF A1(1,2) o(2) A1(3)] Cons.prems(5,6) by simp
  then show ?case using A1(4) by (cases op) simp_all
qed simp

lemma run_holds:
  "inv s A \<Longrightarrow> holds A hs \<Longrightarrow> run_obj_ops alloc free mem put ops (s, hs) = Some (s', hs') \<Longrightarrow>
    \<exists>A'. inv s' A' \<and> holds A' hs'"
proof (induction ops arbitrary: s A hs)
  case (Cons op ops)
  obtain s1 hs1 where o: "run_obj_op alloc free mem put op (s, hs) = Some (s1, hs1)"
    "run_obj_ops alloc free mem put ops (s1, hs1) = Some (s', hs')" using Cons.prems(3) by (auto split: option.splits)
  then show ?case using op_step(1) [OF Cons.prems(1,2) o(1)] Cons.IH by blast
qed auto

lemma holds_disjoint:
  assumes "inv s A" "holds A hs" "(x, n) \<in> set hs" "(y, k) \<in> set hs" "x \<noteq> y" "in_block x n z"
  shows "\<not> in_block y k z"
proof
  assume y: "in_block y k z"
  obtain m m' where "(x, m) \<in> A" "n \<le> m" "(y, m') \<in> A" "k \<le> m'" using assms(2-4) unfolding holds_def by blast
  then show False using disjoint [OF assms(1), of "(x, m)" "(y, m')" z] assms(5,6) y in_block_mono by auto
qed

end

section \<open>The slab allocator is an object allocator\<close>

definition sized :: "u64 \<times> nat \<Rightarrow> u64 \<times> nat" where
  "sized xc = (fst xc, 2 ^ (snd xc + 3))"

lemma sized_inj: "sized a = sized b \<longleftrightarrow> a = b"
  by (cases a; cases b) (simp add: sized_def)

definition slab_objects :: "slab_state \<Rightarrow> (u64 \<times> nat) set \<Rightarrow> bool" where
  "slab_objects st A \<longleftrightarrow> (\<exists>g L. slab_inv 10 st g L \<and> A = sized ` live_objs g)"

lemma slab_alloc_rejects_size:
  "sz = 0 \<or> 4096 < sz \<Longrightarrow> slab_alloc sz st = Some (Inr (0, st))"
  by (simp add: slab_alloc_def slab_round_up_def)

lemma keeps_objects:
  assumes V: "view_ok g L" and k: "keeps (v_page g ` all_slabs g) st st'"
  shows "same_objects (sized ` live_objs g) (ram (pages st)) (ram (pages st'))"
  unfolding same_objects_def
proof clarify
  fix y d x n z assume "(y, d) \<in> live_objs g" "(x, n) = sized (y, d)" and z: "in_block x n z"
  then obtain c where c: "(x, c) \<in> live_objs g" "n = 2 ^ (c + 3)" by (auto simp: sized_def)
  obtain s where s: "s \<in> set (v_cls g c)" "c < 10" "x \<in> objs c (v_page g s)" by (rule live_objsE [OF c(1) V])
  have "PGROUNDDOWN z = v_page g s" using obj_block_page [OF s(3,2)] z c(2) by (simp add: in_block_def)
  then show "ram (pages st') z = ram (pages st) z" using k cls_all [OF s(1,2)] by (auto simp: keeps_def)
qed

lemma alloc_post_objects:
  assumes "alloc_post c st g x st'" "A = sized ` live_objs g" "x \<noteq> 0"
  shows "slab_objects st' (insert (x, 2 ^ (c + 3)) A)" "x \<notin> fst ` A" "aligned (c + 3) x"
proof -
  obtain g' L' where g': "slab_inv 10 st' g' L'" "live_objs g' = insert (x, c) (live_objs g)"
    "\<forall>d. (x, d) \<notin> live_objs g" "aligned (c + 3) x" using assms(1,3) unfolding alloc_post_def by auto
  have "sized ` live_objs g' = insert (x, 2 ^ (c + 3)) A" using g'(2) assms(2) by (simp add: sized_def)
  then show "slab_objects st' (insert (x, 2 ^ (c + 3)) A)" using g'(1) unfolding slab_objects_def by metis
  show "x \<notin> fst ` A" using g'(3) assms(2) by (auto simp: sized_def)
  show "aligned (c + 3) x" by (fact g'(4))
qed

lemma objects_alloc:
  assumes "slab_objects st A" "slab_alloc n st = Some (Inr (x, st'))"
  shows "same_objects A (ram (pages st)) (ram (pages st'))"
    "x = 0 \<Longrightarrow> slab_objects st' A"
    "x \<noteq> 0 \<Longrightarrow> \<exists>m \<ge> unat n. slab_objects st' (insert (x, m) A) \<and> (\<forall>k. (x, k) \<notin> A)"
proof -
  obtain g L where g: "slab_inv 10 st g L" "A = sized ` live_objs g" using assms(1) by (auto simp: slab_objects_def)
  note V = slab_invD(2) [OF g(1)]
  have "same_objects A (ram (pages st)) (ram (pages st')) \<and> (x = 0 \<longrightarrow> slab_objects st' A) \<and>
    (x \<noteq> 0 \<longrightarrow> (\<exists>m \<ge> unat n. slab_objects st' (insert (x, m) A) \<and> (\<forall>k. (x, k) \<notin> A)))"
  proof (cases "n = 0 \<or> 4096 < n")
    case True
    then show ?thesis using slab_alloc_rejects_size [of n st] assms by (auto simp: same_objects_def)
  next
    case False
    then have n: "0 < n" "n \<le> 4096" by (auto simp: word_neq_0_conv)
    obtain c r where c: "c < 10" "unat n \<le> 2 ^ (c + 3)" "c = 0 \<or> 2 ^ (c + 2) < unat n" "slab_alloc n st = Some r"
      "case r of Inl e \<Rightarrow> e = Panic ''memory out of space!'' | Inr (x, st') \<Rightarrow> alloc_post c st g x st'"
      by (rule slab_alloc_ok [OF g(1) n])
    from c(4) assms(2) have "r = Inr (x, st')" by simp
    then have ap: "alloc_post c st g x st'" using c(5) by simp
    then obtain g' L' where g': "slab_inv 10 st' g' L'" "keeps (v_page g ` all_slabs g) st st'"
      "if x = 0 then live_objs g' = live_objs g
       else live_objs g' = insert (x, c) (live_objs g) \<and> (\<forall>d. (x, d) \<notin> live_objs g) \<and> aligned (c + 3) x"
      unfolding alloc_post_def by blast
    show ?thesis
    proof (cases "x = 0")
      case True
      then have "slab_objects st' A" using g' g(2) by (auto simp: slab_objects_def)
      then show ?thesis using True keeps_objects [OF V g'(2)] g(2) by simp
    next
      case False
      note o = alloc_post_objects [OF ap g(2) False]
      have "(x, k) \<notin> A" for k using o(2) by force
      then show ?thesis using False c(2) o(1) keeps_objects [OF V g'(2)] g(2) by blast
    qed
  qed
  then show "same_objects A (ram (pages st)) (ram (pages st'))"
    "x = 0 \<Longrightarrow> slab_objects st' A"
    "x \<noteq> 0 \<Longrightarrow> \<exists>m \<ge> unat n. slab_objects st' (insert (x, m) A) \<and> (\<forall>k. (x, k) \<notin> A)" by blast+
qed

lemma objects_alloc_returns:
  assumes "slab_objects st A"
  shows "\<exists>r. slab_alloc n st = Some r \<and> (\<forall>e. r = Inl e \<longrightarrow> e = Panic ''memory out of space!'')"
proof (cases "n = 0 \<or> 4096 < n")
  case True
  then show ?thesis using slab_alloc_rejects_size by blast
next
  case False
  then have n: "0 < n" "n \<le> 4096" by (auto simp: word_neq_0_conv)
  obtain g L where g: "slab_inv 10 st g L" using assms by (auto simp: slab_objects_def)
  show ?thesis by (rule slab_alloc_ok [OF g n]) (auto split: sum.splits)
qed

lemma objects_disjoint:
  assumes "slab_objects st A" "a \<in> A" "b \<in> A" "a \<noteq> b" "in_block (fst a) (snd a) z" "in_block (fst b) (snd b) z"
  shows False
proof -
  obtain g L where g: "slab_inv 10 st g L" "A = sized ` live_objs g" using assms(1) by (auto simp: slab_objects_def)
  obtain x c y d where "a = sized (x, c)" "b = sized (y, d)" "(x, c) \<in> live_objs g" "(y, d) \<in> live_objs g" "(x, c) \<noteq> (y, d)"
    using assms(2-4) g(2) by auto
  then show False using live_disjoint [OF slab_invD(2) [OF g(1)], of x c y d z] assms(5,6) by (simp add: sized_def in_block_def)
qed

lemma objects_size:
  assumes "slab_objects st A" "(x, m) \<in> A"
  shows "0 < m \<and> m \<le> 4096"
proof -
  obtain g L where g: "slab_inv 10 st g L" "A = sized ` live_objs g" using assms(1) by (auto simp: slab_objects_def)
  then obtain c where "m = 2 ^ (c + 3)" "c < 10" using assms(2) by (auto simp: sized_def live_objs_def)
  then show ?thesis using power_increasing [of "c + 3" 12 "2::nat"] by simp
qed

lemma objects_free:
  assumes "slab_objects st A" "(x, m) \<in> A"
  shows "\<exists>st'. slab_free x st = Inr st' \<and> slab_objects st' (A - {(x, m)}) \<and>
    same_objects (A - {(x, m)}) (ram (pages st)) (ram (pages st'))"
proof -
  obtain g L where g: "slab_inv 10 st g L" "A = sized ` live_objs g" using assms(1) by (auto simp: slab_objects_def)
  then obtain c where c: "(x, c) \<in> live_objs g" "m = 2 ^ (c + 3)" using assms(2) by (auto simp: sized_def)
  note V = slab_invD(2) [OF g(1)]
  obtain st' g' where f: "slab_free x st = Inr st'" "slab_inv 10 st' g' L" "live_objs g' = live_objs g - {(x, c)}"
    "\<And>z. PGROUNDDOWN z \<notin> v_meta g \<Longrightarrow> \<not> unat (z - x) < 8 \<Longrightarrow> ram (pages st') z = ram (pages st) z"
    by (rule slab_free_ok [OF g(1) c(1)]) blast
  have "sized ` live_objs g' = sized ` live_objs g - {sized (x, c)}"
    using f(3) image_set_diff [of sized "live_objs g" "{(x, c)}"] by (simp add: inj_def sized_inj)
  then have "sized ` live_objs g' = A - {(x, m)}" using g(2) c(2) by (simp add: sized_def)
  then have A': "slab_objects st' (A - {(x, m)})" using f(2) unfolding slab_objects_def by metis
  have "same_objects (A - {(x, m)}) (ram (pages st)) (ram (pages st'))"
    unfolding same_objects_def
  proof (intro ballI, clarsimp)
    fix y n z assume y: "(y, n) \<in> A" "y = x \<longrightarrow> n \<noteq> m" and z: "in_block y n z"
    then obtain d where d: "(y, d) \<in> live_objs g" "n = 2 ^ (d + 3)" using g(2) by (auto simp: sized_def)
    obtain t where t: "t \<in> set (v_cls g d)" "d < 10" "y \<in> objs d (v_page g t)" "v_page g t \<notin> v_meta g"
      by (rule live_objsE [OF d(1) V])
    have "PGROUNDDOWN z \<notin> v_meta g" using obj_block_page [OF t(3,2)] z d(2) t(4) by (simp add: in_block_def)
    moreover have "\<not> in_block x m z" using objects_disjoint [OF assms(1) y(1) assms(2), of z] y(2) z by auto
    moreover have "8 \<le> m" using c(2) power_increasing [of 3 "c + 3" "2::nat"] by simp
    ultimately show "ram (pages st') z = ram (pages st) z" using f(4) [of z] by (auto simp: in_block_def)
  qed
  then show ?thesis using f(1) A' by blast
qed

lemma objects_store:
  assumes "slab_objects st A" "(x, m) \<in> A" "in_block x m z"
  shows "slab_objects (poke ((ram (pages st))(z := v)) st) A"
proof -
  obtain g L where g: "slab_inv 10 st g L" "A = sized ` live_objs g" using assms(1) by (auto simp: slab_objects_def)
  then obtain c where "(x, c) \<in> live_objs g" "m = 2 ^ (c + 3)" using assms(2) by (auto simp: sized_def)
  then have "slab_inv 10 (poke ((ram (pages st))(z := v)) st) g L"
    using assms(3) by (intro store_live [OF g(1)]) (simp_all add: in_block_def)
  then show ?thesis using g(2) by (auto simp: slab_objects_def)
qed

interpretation obj: object_allocator slab_objects slab_alloc slab_free "\<lambda>st. ram (pages st)" poke
proof
  fix st A n assume "slab_objects st A"
  then show "\<exists>r. slab_alloc n st = Some r" using objects_alloc_returns by blast
qed (use objects_alloc objects_disjoint objects_size objects_free objects_store in \<open>blast | simp\<close>)+

end
