(* ===== verification/SlabInit.thy ===== *)
theory SlabInit
  imports SlabApi
begin

text \<open>
  Boot of the slab allocator (\<^verbatim>\<open>init_slab\<close> of mm/slab.c): it establishes the invariant with no
  live object. The properties of the allocator follow.
\<close>

section \<open>The first metadata page\<close>

definition first_view :: "u64 \<Rightarrow> slab_view" where
  "first_view p = \<lparr>v_meta = {p}, v_pool = blocks p 6, v_cls = (\<lambda>_. []), v_page = (\<lambda>_. 0), v_free = (\<lambda>_. [])\<rparr>"

lemma first_view_fields [simp]:
  "v_meta (first_view p) = {p}" "v_pool (first_view p) = blocks p 6" "v_cls (first_view p) c = []"
  "all_slabs (first_view p) = {}"
  by (simp_all add: first_view_def all_slabs_def)

lemma first_page_ok:
  assumes I: "page_inv (pages st) L" and al: "slab_alloc_page st = (p, st1)" "p \<noteq> 0"
    and st4: "st4 = (wr (blk p 6 63) 0 (link_blocks p 64 0 63
       (st1\<lparr>pool_freelist := p, pool_total := 64, pool_free := 64\<rparr>)))\<lparr>pool_end := blk p 6 63\<rparr>"
  shows "slab_inv 0 st4 (first_view p) (insert p L)" "keeps L st st4" "p \<notin> L"
proof -
  note a = slab_alloc_page_new [OF I al]
  show "p \<notin> L" by (fact a(2))
  have k6: "2 ^ 6 = (64 :: u64)" "(2::nat) ^ (12 - 6) = 64" by simp_all
  have b63: "aligned 3 (blk p 6 63)" "PGROUNDDOWN (blk p 6 63) = p"
    using blk_props [OF a(1), of 63 6] aligned_mono by fastforce+
  define st2 where "st2 = st1\<lparr>pool_freelist := p, pool_total := 64, pool_free := 64\<rparr>"
  have r: "rd st4 x = (if x = blk p 6 63 then 0 else if x \<in> blk p 6 ` {0..<63} then x + 64 else rd st1 x)"
    if "aligned 3 x" for x
    using rd_link_blocks [OF a(1), of 6 x 0 63 st2] that rd_wr [OF b63(1) that]
    unfolding st4 st2_def [symmetric] k6 by (simp add: st2_def)
  have "links (rd st4) p (blocks p 6)"
  proof (rule links_blocks [OF a(1) al(2)])
    fix j :: nat assume j: "Suc j < 2 ^ (12 - 6)"
    have "aligned 3 (blk p 6 j)" using blk_props(2) [OF a(1), of j 6] j aligned_mono by fastforce
    moreover have "blk p 6 j \<noteq> blk p 6 63" using blk_inj [of j 6 63 p] j by simp
    ultimately show "rd st4 (blk p 6 j) = blk p 6 (Suc j)" using r j blk_Suc [of p 6 j] by auto
  qed (use r b63 in auto)
  moreover have "view_ok (first_view p) (insert p L)"
    using blocks_props [OF a(1), of 6] by (auto simp: view_ok_def slots_def)
  moreover have "pool_ok (rd st4) st4 (first_view p) \<longleftrightarrow> links (rd st4) p (blocks p 6)"
    using blocks_props(2,4) [OF a(1), of 6] by (simp add: pool_ok_def st4)
  moreover have "page_inv (pages st4) (insert p L)" using a(3) by (simp add: st4)
  ultimately show "slab_inv 0 st4 (first_view p) (insert p L)"
    by (simp add: slab_inv_def slabs_ok_def)
  have "keeps L st st2" using keeps_alloc [OF I al, of L] a(2) by (simp add: st2_def)
  moreover have "keeps L st2 (link_blocks p (2 ^ 6) 0 63 st2)" by (rule keeps_link_blocks [OF a(1)]) (use a(2) in simp_all)
  moreover have "keeps L (link_blocks p (2 ^ 6) 0 63 st2) (wr (blk p 6 63) 0 (link_blocks p (2 ^ 6) 0 63 st2))"
    by (rule keeps_wr [OF b63(1)]) (use b63(2) a(2) in simp)
  ultimately have "keeps L st (wr (blk p 6 63) 0 (link_blocks p (2 ^ 6) 0 63 st2))" by (blast intro: keeps_trans)
  then show "keeps L st st4" unfolding st4 st2_def [symmetric] k6(1) by simp
qed

text \<open>The state in the middle of boot: \<open>n\<close> classes set up, no live object, the pages \<open>K\<close> of others untouched.\<close>

definition booting :: "nat \<Rightarrow> slab_state \<Rightarrow> u64 set \<Rightarrow> slab_state \<Rightarrow> slab_view \<Rightarrow> u64 set \<Rightarrow> bool" where
  "booting n st0 K st g L \<longleftrightarrow> slab_inv n st g L \<and> live_objs g = {} \<and> K \<subseteq> L - v_meta g \<and> keeps K st0 st"

lemma booting_evolves:
  assumes "booting n st0 K st g L" "slab_inv n st' g' L'" "evolves (st, g, L) (st', g', L')"
  shows "booting n st0 K st' g' L'"
proof -
  have "keeps K st st'" using assms(1,3) keeps_mono by (auto simp: booting_def evolves_def)
  moreover have "K \<subseteq> L' - v_meta g'" "live_objs g' = {}"
    using assms(1,3) live_same [of g g'] by (auto simp: booting_def evolves_def)
  ultimately show ?thesis using assms(1,2) keeps_trans unfolding booting_def by blast
qed

lemma init_slab_meta_pool_ok:
  assumes I: "page_inv (pages st) L" and res: "init_slab_meta_pool st = r"
  shows "case r of Inl e \<Rightarrow> e \<in> {Panic ''slab meta pool init failed'', Panic ''memory out of space!''}
    | Inr st' \<Rightarrow> \<exists>g' L'. booting 0 st L st' g' L'"
proof -
  obtain p st1 where al: "slab_alloc_page st = (p, st1)" by (cases "slab_alloc_page st")
  show ?thesis
  proof (cases "p = 0")
    case True
    then show ?thesis using res al by (auto simp: init_slab_meta_pool_def)
  next
    case False
    define st4 where "st4 = (wr (blk p 6 63) 0 (link_blocks p 64 0 63
       (st1\<lparr>pool_freelist := p, pool_total := 64, pool_free := 64\<rparr>)))\<lparr>pool_end := blk p 6 63\<rparr>"
    note f = first_page_ok [OF I al False st4_def]
    have eq: "r = inflate_slab_meta_pool 2 st4"
      using res al False
      by (simp add: init_slab_meta_pool_def st4_def Let_def slab_count_def slab_t_size_def SLAB_META_POOL_INIT_PAGE_SIZE_def blk_def)
    have "live_objs (first_view p) = {}" by (simp add: live_objs_def)
    then have b: "booting 0 st L st4 (first_view p) (insert p L)" using f by (auto simp: booting_def)
    show ?thesis
    proof (cases r)
      case (Inl e)
      then show ?thesis using inflate_ok [OF f(1), of 2 r] eq by simp
    next
      case (Inr st')
      then obtain g' L' where "slab_inv 0 st' g' L'" "evolves (st4, first_view p, insert p L) (st', g', L')"
        using inflate_ok [OF f(1), of 2 r] eq by auto
      from booting_evolves [OF b this] show ?thesis using Inr by auto
    qed
  qed
qed

section \<open>The pages that boot takes\<close>

text \<open>The page allocator has \<open>n\<close> free pages left.\<close>

definition has_pages :: "slab_state \<Rightarrow> nat \<Rightarrow> bool" where
  "has_pages st n \<longleftrightarrow> (\<exists>fl refs. mem_inv (pages st) fl refs \<and> length fl = n)"

lemma has_pages_upd [simp]: "has_pages (st\<lparr>pool_end := a\<rparr>) n = has_pages st n" "has_pages (st\<lparr>pool_freelist := a\<rparr>) n = has_pages st n"
  "has_pages (st\<lparr>pool_total := w\<rparr>) n = has_pages st n" "has_pages (st\<lparr>pool_free := w\<rparr>) n = has_pages st n"
  "has_pages (st\<lparr>slabs := f\<rparr>) n = has_pages st n"
  by (simp_all add: has_pages_def)

lemma has_pages_wr [simp]: "has_pages (wr a v st) n = has_pages st n" "pool_free (wr a v st) = pool_free st"
  by (simp_all add: has_pages_def wr_def)

lemma has_pages_set_slab [simp]: "has_pages (set_page_slab p s st) n = has_pages st n"
  by (simp add: has_pages_def set_page_slab_def Let_def mem_inv_set_slab)

lemma has_pages_link [simp]: "has_pages (link_blocks b sz i k st) n = has_pages st n" "pool_free (link_blocks b sz i k st) = pool_free st"
  by (induction k arbitrary: i st) simp_all

lemma has_pages_alloc:
  assumes "has_pages st n" "slab_alloc_page st = (p, st1)"
  shows "p = 0 \<longleftrightarrow> n = 0" "has_pages st1 (n - 1)" "pool_free st1 = pool_free st"
proof -
  obtain fl refs where f: "mem_inv (pages st) fl refs" "length fl = n" using assms(1) by (auto simp: has_pages_def)
  have "(p = 0 \<longleftrightarrow> n = 0) \<and> has_pages st1 (n - 1) \<and> pool_free st1 = pool_free st"
  proof (cases fl)
    case Nil
    then show ?thesis using f assms alloc_page_empty [of "pages st" refs] by (auto simp: slab_alloc_page_def)
  next
    case (Cons i fl')
    obtain s' where s': "alloc_page (pages st) = (page_addr i, s')" "mem_inv s' fl' (refs(i \<mapsto> 1))"
      using alloc_page_take [of "pages st" i fl' refs] f(1) Cons by blast
    have "page_addr i \<noteq> 0" using mem_invD [OF f(1), of i] Cons page_addr_nz [of i] by auto
    then show ?thesis using s' assms(2) f(2) Cons
      by (simp add: slab_alloc_page_def) (auto simp: has_pages_def intro!: exI [of _ fl'] exI [of _ "refs(i \<mapsto> 1)"])
  qed
  then show "p = 0 \<longleftrightarrow> n = 0" "has_pages st1 (n - 1)" "pool_free st1 = pool_free st" by simp_all
qed

lemma inflate_loop_pages:
  "has_pages st n \<Longrightarrow> case inflate_loop k cur l st of
     Inl e \<Rightarrow> n < k \<and> e = Panic ''memory out of space!''
   | Inr (l', st') \<Rightarrow> k \<le> n \<and> has_pages st' (n - k) \<and> pool_free st' = pool_free st"
proof (induction k arbitrary: cur l st n)
  case (Suc k)
  obtain p st1 where al: "slab_alloc_page st = (p, st1)" by (cases "slab_alloc_page st")
  note a = has_pages_alloc [OF Suc.prems al]
  show ?case
  proof (cases "n = 0")
    case False
    define st2 where "st2 = (if cur \<noteq> 0 then wr cur p st1 else st1\<lparr>pool_freelist := p\<rparr>)"
    define st3 where "st3 = link_blocks p slab_t_size 0 (slab_count - 1) st2"
    define l' where "l' = p + of_nat (slab_count - 1) * slab_t_size"
    have h: "has_pages st3 (n - 1)" "pool_free st3 = pool_free st"
      using a(2,3) by (simp_all add: st3_def st2_def)
    have "inflate_loop (Suc k) cur l st = inflate_loop k l' l' st3"
      using al a(1) False by (simp add: st3_def st2_def l'_def Let_def)
    then show ?thesis using Suc.IH [OF h(1), of l' l'] h(2) False by (auto split: sum.splits)
  qed (use al a(1) in simp)
qed simp

lemma inflate_pages:
  assumes "has_pages st n"
  shows "case inflate_slab_meta_pool 2 st of
     Inl e \<Rightarrow> n < 2 \<and> e = Panic ''memory out of space!''
   | Inr st' \<Rightarrow> 2 \<le> n \<and> has_pages st' (n - 2) \<and> pool_free st' = pool_free st + 128"
  using inflate_loop_pages [OF assms, of 2 "pool_end st" 0]
  by (auto simp: inflate_slab_meta_pool_def Let_def slab_count_def split: sum.splits)

lemma meta_pool_pages:
  assumes "has_pages st n"
  shows "case init_slab_meta_pool st of
     Inl e \<Rightarrow> n < 3 \<and> e = Panic (if n = 0 then ''slab meta pool init failed'' else ''memory out of space!'')
   | Inr st' \<Rightarrow> 3 \<le> n \<and> has_pages st' (n - 3) \<and> pool_free st' = 192"
proof -
  obtain p st1 where al: "slab_alloc_page st = (p, st1)" by (cases "slab_alloc_page st")
  note a = has_pages_alloc [OF assms al]
  show ?thesis
  proof (cases "n = 0")
    case False
    define st4 where "st4 = (wr (p + of_nat (slab_count - 1) * slab_t_size) 0 (link_blocks p slab_t_size 0 (slab_count - 1)
       (st1\<lparr>pool_freelist := p, pool_total := of_nat slab_count, pool_free := of_nat slab_count\<rparr>)))\<lparr>pool_end := p + of_nat (slab_count - 1) * slab_t_size\<rparr>"
    have "has_pages st4 (n - 1)"
      using a(2) by (simp add: st4_def)
    moreover have "pool_free st4 = 64" by (simp add: st4_def slab_count_def)
    moreover have "init_slab_meta_pool st = inflate_slab_meta_pool 2 st4"
      using al a(1) False by (simp add: init_slab_meta_pool_def st4_def Let_def SLAB_META_POOL_INIT_PAGE_SIZE_def)
    ultimately show ?thesis using inflate_pages [of st4 "n - 1"] False by (auto simp: numeral_3_eq_3 split: sum.splits)
  qed (use al a(1) in \<open>simp add: init_slab_meta_pool_def\<close>)
qed

lemma storage_pages:
  assumes "has_pages st n" "do_create_slab_object_storage s st = (r, st')"
  shows "r = 0 \<longleftrightarrow> n \<noteq> 0" "has_pages st' (n - 1)" "pool_free st' = pool_free st"
proof -
  obtain p st1 where al: "slab_alloc_page st = (p, st1)" by (cases "slab_alloc_page st")
  note a = has_pages_alloc [OF assms(1) al]
  show "r = 0 \<longleftrightarrow> n \<noteq> 0" "has_pages st' (n - 1)" "pool_free st' = pool_free st"
    using assms(2) al a by (auto simp: do_create_slab_object_storage_def Let_def split: if_splits)
qed

section \<open>The ten caches\<close>

lemma wr_commute:
  assumes "aligned 3 a" "aligned 3 b" "a \<noteq> b"
  shows "wr a u (wr b v st) = wr b v (wr a u st)"
proof -
  have "\<not> (unat (x - a) < 8 \<and> unat (x - b) < 8)" for x
    using aligned_block_ge [of 3 a b "x - b"] assms by auto
  then have "store64 (store64 m b v) a u = store64 (store64 m a u) b v" for m
    by (auto simp: store64_def fun_eq_iff)
  then show ?thesis by (simp add: wr_def put_ram_def)
qed

lemma slab_inv_set_head: "slab_inv n st g L \<Longrightarrow> slab_inv n (st\<lparr>slabs := (slabs st)(n := s)\<rparr>) g L"
  unfolding slab_inv_def slabs_ok_def pool_ok_def by (auto split: if_splits)

lemma storage_slabs: "do_create_slab_object_storage s st = (r, st') \<Longrightarrow> slabs st' = slabs st"
  by (auto simp: do_create_slab_object_storage_def slab_alloc_page_def Let_def split: prod.splits if_splits)

lemma slab_alloc_meta_aligned:
  assumes "slab_inv n st g L" "slab_alloc_meta st = Inr (s, st1)" "k \<in> offs"
  shows "aligned 3 (s + k)"
proof -
  obtain g' L' st' where g': "slab_inv n st' g' L'" "v_pool g' = s # tl (v_pool g')"
    using slab_alloc_meta_ok [OF assms(1,2)] by auto
  have "s \<in> set (v_pool g')" by (subst g'(2)) simp
  then show ?thesis using slot_word_aligned [OF view_pool [OF slab_invD(2) [OF g'(1)]] assms(3)] by blast
qed

lemma class_size:
  assumes "i < 10"
  shows "push_bit i 8 = (2 :: u64) ^ (i + 3)" "(4096 :: u64) div 2 ^ (i + 3) = 2 ^ (9 - i)"
proof -
  have "i \<in> {0, 1, 2, 3, 4, 5, 6, 7, 8, 9}" using assms by auto
  then show "push_bit i 8 = (2 :: u64) ^ (i + 3)" "(4096 :: u64) div 2 ^ (i + 3) = 2 ^ (9 - i)"
    by (elim insertE emptyE; simp add: PG_4K_SIZE_def push_bit_eq_mult)+
qed

text \<open>One round of the loop: a fresh slab, one page of objects, all of them free.\<close>

lemma init_slab_step:
  assumes b: "booting i st0 K st g L" and i: "i < 10" and m: "slab_alloc_meta st = Inr (s, st1)"
    and st5: "st5 = wr (s + 8) 0 (wr s 0 (wr (s + 24) 0 (wr (s + 48) (2 ^ (9 - i)) (wr (s + 40) (2 ^ (9 - i))
        (wr (s + 32) (2 ^ (i + 3)) (st1\<lparr>slabs := (slabs st1)(i := s)\<rparr>))))))"
    and st6: "do_create_slab_object_storage s st5 = (r, st6)" "r = 0"
  shows "\<exists>g' L'. booting (Suc i) st0 K st6 g' L'"
proof -
  have inv: "slab_inv i st g L" using b by (simp add: booting_def)
  obtain g0 L0 sta where a: "slab_inv i sta g0 L0" "evolves (st, g, L) (sta, g0, L0)" "v_pool g0 = s # tl (v_pool g0)"
      "tl (v_pool g0) \<noteq> []" "st1 = sta\<lparr>pool_freelist := rd sta s, pool_free := pool_free sta - 1\<rparr>"
    using slab_alloc_meta_ok [OF inv m] by auto
  define g1 where "g1 = take_meta g0"
  define st2 where "st2 = st1\<lparr>slabs := (slabs st1)(i := s)\<rparr>"
  note t = take_meta_inv [OF a(1,3,4), folded a(5) g1_def]
  have b0: "booting i st0 K sta g0 L0" using booting_evolves [OF b a(1,2)] .
  have same: "same_slabs g0 g1" "v_meta g1 = v_meta g0" by (simp_all add: g1_def take_meta_def same_slabs_def)
  have b2: "booting i st0 K st2 g1 L0"
    using b0 slab_inv_set_head [OF t(1)] live_same [OF same(1)] same(2)
    by (auto simp: booting_def st2_def a(5) keeps_def)
  note fs = fill_slot [OF slab_inv_set_head [OF t(1)] t(2) st5]
  from storage_ok [OF fs(1) t(2) i fs(3-6) st6(1)] st6(2)
  obtain p where p: "p \<notin> L0" "p \<noteq> 0" "page_aligned p" "spare_page g1 p" "slab_inv i st6 g1 (insert p L0)"
    "slab_ok (rd st6) i s p (blocks p (i + 3))" "rd st6 (s + 24) = 0"
    "pg_slab (page_array (pages st6) (PHY_TO_PAGE p)) = s" "keeps (L0 - v_meta g1) st5 st6" by auto
  have sl: "slabs st6 i = s" using storage_slabs [OF st6(1)] st5 by simp
  have inv': "slab_inv (Suc i) st6 (add_slab i s p (blocks p (i + 3)) g1) (insert p L0)"
    by (rule adopt_first [OF p(5) i t(2) sl p(4) _ p(6,7,8)]) simp
  have "set (blocks p (i + 3)) = objs i p" using blocks_props(5) [OF p(3), of "i + 3"] i by (simp add: objs_def)
  then have "live_objs (add_slab i s p (blocks p (i + 3)) g1) = {}"
    using live_add [OF slab_invD(2) [OF p(5)] t(2) i _ p(4)] b2 by (simp add: booting_def)
  moreover have "keeps K st2 st5" "keeps K st5 st6"
    using keeps_mono [OF fs(2)] keeps_mono [OF p(9)] b2 by (auto simp: booting_def st2_def)
  then have "keeps K st0 st6" using b2 keeps_trans unfolding booting_def by blast
  ultimately show ?thesis
    using inv' b2 by (auto simp: booting_def add_slab_fields intro!: exI [of _ "add_slab i s p (blocks p (i + 3)) g1"] exI [of _ "insert p L0"])
qed

lemma pool_left: "i < 10 \<Longrightarrow> (192 :: u64) - of_nat i \<noteq> 1"
proof -
  assume "i < 10"
  then have "i \<in> {0, 1, 2, 3, 4, 5, 6, 7, 8, 9}" by auto
  then show ?thesis by (elim insertE emptyE) simp_all
qed

lemma init_slab_loop_ok:
  assumes "booting i st0 K st g L" "i + n = 10" "init_slab_loop i n st = r" "has_pages st k" "pool_free st = 192 - of_nat i"
  shows "case r of Inl e \<Rightarrow> k < n \<and> e = Panic ''slab init object storage failed''
    | Inr st' \<Rightarrow> n \<le> k \<and> (\<exists>g' L'. booting 10 st0 K st' g' L')"
  using assms
proof (induction n arbitrary: i st g L k)
  case (Suc n)
  have inv: "slab_inv i st g L" and i: "i < 10" using Suc.prems by (auto simp: booting_def)
  have pf: "pool_free st \<noteq> 1" using pool_left [OF i] Suc.prems(5) by simp
  show ?case
  proof (cases "slab_alloc_meta st")
    case (Inl e)
    then have "e = Fault" using pf by (auto simp: slab_alloc_meta_def Let_def split: if_splits)
    then show ?thesis using slab_alloc_meta_ok [OF inv Inl] by simp
  next
    case (Inr sa)
    obtain s st1 where sa: "sa = (s, st1)" by (cases sa)
    have st1: "has_pages st1 k" "pool_free st1 = 192 - of_nat (Suc i)"
      using Inr sa pf Suc.prems(4,5) by (auto simp: slab_alloc_meta_def Let_def split: if_splits)
    have al: "aligned 3 (s + k)" if "k \<in> offs" for k
      using slab_alloc_meta_aligned [OF inv Inr [unfolded sa] that] .
    define st2 where "st2 = st1\<lparr>slabs := (slabs st1)(i := s)\<rparr>"
    define st4 where "st4 = wr (s + 40) (2 ^ (9 - i)) (wr (s + 32) (2 ^ (i + 3)) st2)"
    define st5 where "st5 = wr (s + 8) 0 (wr s 0 (wr (s + 24) 0 (wr (s + 48) (2 ^ (9 - i)) st4)))"
    obtain r' st6 where st6: "do_create_slab_object_storage s st5 = (r', st6)" by (cases "do_create_slab_object_storage s st5")
    have c: "wr (s + 48) v (wr (s + 40) u (wr (s + 24) 0 t)) = wr (s + 24) 0 (wr (s + 48) v (wr (s + 40) u t))" for u v t
      using al [of 24] al [of 40] al [of 48] by (simp add: offs_def wr_commute [of "s + 40" "s + 24"] wr_commute [of "s + 48" "s + 24"])
    have eq: "r = (if r' \<noteq> 0 then Inl (Panic ''slab init object storage failed'') else init_slab_loop (Suc i) n st6)"
    proof -
      have a: "aligned 3 (s + 24)" "aligned 3 (s + 32)" "aligned 3 (s + 40)" using al by (simp_all add: offs_def)
      show ?thesis
        using Suc.prems(3) Inr sa st6
        by (simp add: Let_def init_slab_lock_def class_size [OF i] rd_wr a c st5_def st4_def st2_def)
    qed
    have "has_pages st5 k" "pool_free st5 = 192 - of_nat (Suc i)" using st1 by (simp_all add: st5_def st4_def st2_def)
    then have p: "r' = 0 \<longleftrightarrow> k \<noteq> 0" "has_pages st6 (k - 1)" "pool_free st6 = 192 - of_nat (Suc i)"
      using storage_pages [OF _ st6, of k] by simp_all
    show ?thesis
    proof (cases "r' = 0")
      case True
      obtain g' L' where "booting (Suc i) st0 K st6 g' L'"
        using init_slab_step [OF Suc.prems(1) i Inr [unfolded sa] st5_def [unfolded st4_def st2_def] st6 True] by blast
      from Suc.IH [OF this _ _ p(2,3)] have "case init_slab_loop (Suc i) n st6 of
          Inl e \<Rightarrow> k - 1 < n \<and> e = Panic ''slab init object storage failed''
        | Inr st' \<Rightarrow> n \<le> k - 1 \<and> (\<exists>g' L'. booting 10 st0 K st' g' L')" using Suc.prems(2) eq True by simp
      then show ?thesis using p(1) eq True by (auto split: sum.splits)
    qed (use eq p(1) in simp)
  qed
next
  case 0
  then have "booting 10 st0 K st g L" "r = Inr st" by simp_all
  then show ?case by (simp, blast)
qed

lemma init_slab_ok:
  assumes "page_inv (pages st) L" "has_pages st n"
  shows "case init_slab st of
      Inl e \<Rightarrow> n < 13 \<and> e = Panic (if n = 0 then ''slab meta pool init failed'' else if n < 3 then ''memory out of space!''
        else ''slab init object storage failed'')
    | Inr st' \<Rightarrow> 13 \<le> n \<and> slab_objects st' {} \<and> keeps L st st'"
proof (cases "init_slab_meta_pool st")
  case (Inl e)
  then show ?thesis using meta_pool_pages [OF assms(2)] by (simp add: init_slab_def)
next
  case (Inr st1)
  obtain g L1 where b: "booting 0 st L st1 g L1" using init_slab_meta_pool_ok [OF assms(1) Inr] by auto
  have p: "3 \<le> n" "has_pages st1 (n - 3)" "pool_free st1 = 192 - of_nat 0" using meta_pool_pages [OF assms(2)] Inr by simp_all
  have "case init_slab_loop 0 10 st1 of Inl e \<Rightarrow> n - 3 < 10 \<and> e = Panic ''slab init object storage failed''
    | Inr st' \<Rightarrow> 10 \<le> n - 3 \<and> (\<exists>g' L'. booting 10 st L st' g' L')" by (rule init_slab_loop_ok [OF b _ refl p(2,3)]) simp
  then show ?thesis using Inr p(1) by (auto simp: init_slab_def booting_def slab_objects_def split: sum.splits)
qed

section \<open>Properties\<close>

text \<open>
  (C2) The slab allocator gives each client private memory. Let a client run any sequence of
  requests, releases and stores on objects it holds, on a state whose live objects are \<open>A\<close>. Then
  the objects it holds at the end are pairwise disjoint, and every byte of an object it did
  not release is what its own stores made of it: no allocation, release or other object's
  store changes it.
\<close>

theorem slab_objects_private:
  assumes "slab_objects st A" "holds A hs"
    and "run_obj_ops slab_alloc slab_free (\<lambda>st. ram (pages st)) poke ops (st, hs) = Some (st', hs')"
  shows "(\<forall>(x, n) \<in> set hs'. \<forall>(y, k) \<in> set hs'. \<forall>z. x \<noteq> y \<longrightarrow> in_block x n z \<longrightarrow> \<not> in_block y k z) \<and>
    (\<forall>(x, n) \<in> set hs. \<forall>i < n. OFree x \<notin> set ops \<longrightarrow>
       ram (pages st') (x + of_nat i) = private_byte x i ops (ram (pages st) (x + of_nat i)))"
proof
  obtain A' where A': "slab_objects st' A'" "holds A' hs'" using obj.run_holds [OF assms] by blast
  then show "\<forall>(x, n) \<in> set hs'. \<forall>(y, k) \<in> set hs'. \<forall>z. x \<noteq> y \<longrightarrow> in_block x n z \<longrightarrow> \<not> in_block y k z"
    using obj.holds_disjoint [OF A'] by blast
  show "\<forall>(x, n) \<in> set hs. \<forall>i < n. OFree x \<notin> set ops \<longrightarrow>
       ram (pages st') (x + of_nat i) = private_byte x i ops (ram (pages st) (x + of_nat i))"
    using obj.run_isolated [OF assms] by blast
qed

text \<open>
  (C27) \<^verbatim>\<open>slab_alloc\<close> on a request of 1 to 4096 bytes always returns. Either the metadata pool
  cannot grow (a panic), or there is no page left (a null pointer, no live object changes), or
  the result is a new object, disjoint from every live one, of the smallest of the ten power-of-two sizes that
  fits the request, and aligned to that size.
\<close>

theorem slab_alloc_spec:
  assumes "slab_objects st A" "0 < sz" "sz \<le> 4096"
  shows "\<exists>r. slab_alloc sz st = Some r \<and>
    (case r of Inl e \<Rightarrow> e = Panic ''memory out of space!''
     | Inr (x, st') \<Rightarrow> same_objects A (ram (pages st)) (ram (pages st')) \<and>
         (if x = 0 then slab_objects st' A
          else \<exists>k \<in> {3..12}. slab_objects st' (insert (x, 2 ^ k) A) \<and> x \<notin> fst ` A \<and> aligned k x \<and>
            unat sz \<le> 2 ^ k \<and> (k = 3 \<or> 2 ^ (k - 1) < unat sz)))"
proof -
  obtain g L where g: "slab_inv 10 st g L" "A = sized ` live_objs g" using assms(1) by (auto simp: slab_objects_def)
  obtain c r where c: "c < 10" "unat sz \<le> 2 ^ (c + 3)" "c = 0 \<or> 2 ^ (c + 2) < unat sz" "slab_alloc sz st = Some r"
    "case r of Inl e \<Rightarrow> e = Panic ''memory out of space!'' | Inr (x, st') \<Rightarrow> alloc_post c st g x st'"
    by (rule slab_alloc_ok [OF g(1) assms(2,3)])
  show ?thesis
  proof (cases r)
    case (Inl e)
    then show ?thesis using c(4,5) by simp
  next
    case (Inr xs)
    obtain x st' where xs: "xs = (x, st')" by (cases xs)
    have al: "slab_alloc sz st = Some (Inr (x, st'))" using c(4) Inr xs by simp
    note o = objects_alloc [OF assms(1) al]
    have "alloc_post c st g x st'" using c(5) Inr xs by simp
    then have "\<exists>k \<in> {3..12}. slab_objects st' (insert (x, 2 ^ k) A) \<and> x \<notin> fst ` A \<and> aligned k x \<and>
            unat sz \<le> 2 ^ k \<and> (k = 3 \<or> 2 ^ (k - 1) < unat sz)" if "x \<noteq> 0"
      using alloc_post_objects [of c st g x st' A] that g(2) c(1-3) by (intro bexI [of _ "c + 3"]) auto
    then show ?thesis using al o(1,2) by simp
  qed
qed

text \<open>
  (C28) \<^verbatim>\<open>slab_free\<close> of a live object succeeds, ends its life and leaves every other live object
  and its contents as they were.
\<close>

theorem slab_free_spec:
  assumes "slab_objects st A" "(x, n) \<in> A"
  shows "\<exists>st'. slab_free x st = Inr st' \<and> slab_objects st' (A - {(x, n)}) \<and>
    same_objects (A - {(x, n)}) (ram (pages st)) (ram (pages st'))"
  using assms by (rule objects_free)

text \<open>
  (C29) Boot: \<^verbatim>\<open>init_slab\<close> needs 13 free pages, three for the metadata pool and one for each of the ten
  caches. With them it returns with the caches set up, no live object, and the pages that were live
  untouched. With fewer it panics, and the message tells which of the steps ran out: the first page of
  the pool, its other pages, or the storage of a cache.
\<close>

theorem init_slab_boot:
  assumes "mem_inv (pages st) fl refs" "ran refs \<subseteq> {1}"
  shows "if length fl < 13
    then init_slab st = Inl (Panic (if fl = [] then ''slab meta pool init failed'' else if length fl < 3 then ''memory out of space!''
      else ''slab init object storage failed''))
    else \<exists>st'. init_slab st = Inr st' \<and> slab_objects st' {} \<and>
      (\<forall>z. PGROUNDDOWN z \<in> page_addr ` dom refs \<longrightarrow> ram (pages st') z = ram (pages st) z)"
proof -
  have "page_inv (pages st) (page_addr ` dom refs)" "has_pages st (length fl)"
    using assms by (auto simp: page_inv_def has_pages_def)
  from init_slab_ok [OF this] show ?thesis by (auto simp: keeps_def split: sum.splits)
qed

text \<open>
  (C30) The two bit tricks that find the size class agree with arithmetic: \<^verbatim>\<open>slab_round_up\<close> is the
  least power of two not below the request and not below 8 (0 outside 1 to 4096), and
  \<^verbatim>\<open>POW2_SHIFT_COUNT\<close> is its binary logarithm.
\<close>

theorem slab_size_class:
  "if sz = 0 \<or> 4096 < sz then slab_round_up sz = 0
   else unat (slab_round_up sz) = (LEAST m. unat sz \<le> m \<and> m \<in> (\<lambda>k. 2 ^ k) ` {3..12}) \<and>
     unat (slab_round_up sz) = 2 ^ unat (POW2_SHIFT_COUNT (slab_round_up sz))"
proof (cases "sz = 0 \<or> 4096 < sz")
  case False
  then have "0 < sz" "sz \<le> 4096" by (auto simp: word_neq_0_conv)
  then obtain c where c: "c < 10" "slab_round_up sz = 2 ^ (c + 3)" "unat sz \<le> 2 ^ (c + 3)" "c = 0 \<or> 2 ^ (c + 2) < unat sz"
    by (rule slab_class)
  have "c \<in> {0, 1, 2, 3, 4, 5, 6, 7, 8, 9}" using c(1) by auto
  then have u: "unat (2 ^ (c + 3) :: u32) = 2 ^ (c + 3)" "unat (of_nat c + 3 :: i32) = c + 3"
    by (elim insertE emptyE; simp)+
  have "(LEAST m. unat sz \<le> m \<and> m \<in> (\<lambda>k. 2 ^ k) ` {3..12}) = 2 ^ (c + 3)"
  proof (rule Least_equality)
    show "unat sz \<le> 2 ^ (c + 3) \<and> 2 ^ (c + 3) \<in> (\<lambda>k. 2 ^ k) ` {3..12::nat}" using c(1,3) by auto
    fix m assume "unat sz \<le> m \<and> m \<in> (\<lambda>k. 2 ^ k) ` {3..12::nat}"
    then obtain k where k: "m = 2 ^ k" "3 \<le> k" "unat sz \<le> 2 ^ k" by auto
    have "c + 3 \<le> k"
    proof (rule ccontr)
      assume "\<not> c + 3 \<le> k"
      then have "k \<le> c + 2" "c \<noteq> 0" using k(2) by auto
      then have "(2::nat) ^ k \<le> 2 ^ (c + 2)" "2 ^ (c + 2) < unat sz" using c(4) power_increasing [of k "c + 2" "2::nat"] by simp_all
      then show False using k(3) by linarith
    qed
    then show "2 ^ (c + 3) \<le> m" using k(1) by (simp add: power_increasing)
  qed
  then show ?thesis using False u c(2) ctz_pow2 [OF c(1)] by (simp del: power_add)
qed (simp add: slab_round_up_def)

section \<open>A concrete state\<close>

text \<open>
  One metadata page (page 1) with the ten slabs and one spare block, one full page of objects per
  class (pages 2 to 11), two free pages.
\<close>

definition demo_slab :: "nat \<Rightarrow> u64" where "demo_slab c = page_addr 1 + 64 * of_nat c"

definition demo_words :: "u64 \<Rightarrow> u64" where
  "demo_words a = (let i = unat (a - page_addr 1) in
     if i < 640 \<and> i mod 64 = 32 then 2 ^ (i div 64 + 3) else if i < 640 \<and> i mod 64 = 40 then 2 ^ (9 - i div 64) else 0)"

definition demo_pages :: mstate where
  "demo_pages = demo_mem\<lparr>ram := mem_of_words demo_words,
     page_array := (\<lambda>i. zero_page\<lparr>paddr := page_addr i, pg_next := (if i = 12 then Some 13 else None),
        flags := (if i < 12 then PG_FLAG_USED else 0), refcount := (if i < 12 then 1 else 0),
        pg_slab := (if 1 < i then demo_slab (i - 2) else 0)\<rparr>),
     gmd := (gmd demo_mem)\<lparr>free_head := Some 12, free_tail := Some 13, free_start_at := page_addr 1, free_end_at := page_addr 13\<rparr>\<rparr>"

definition demo_state :: slab_state where
  "demo_state = \<lparr>pages = demo_pages, slabs = demo_slab, pool_freelist = demo_slab 10, pool_end = demo_slab 10,
     pool_total = 11, pool_free = 1\<rparr>"

definition demo_view :: slab_view where
  "demo_view = \<lparr>v_meta = {page_addr 1}, v_pool = [demo_slab 10], v_cls = (\<lambda>c. [demo_slab c]),
     v_page = (\<lambda>s. page_addr (2 + unat (s - page_addr 1) div 64)), v_free = (\<lambda>_. [])\<rparr>"

lemma demo_pages_inv: "page_inv demo_pages (page_addr ` {1..11})"
proof -
  have "mem_inv demo_pages [12, 13] (\<lambda>i. if i \<in> {1..11} then Some 1 else None)"
    by (rule mem_invI [of 1 13])
      (auto simp: demo_pages_def demo_mem_def zero_page_def page_bound_def split: if_splits)
  then show ?thesis unfolding page_inv_def
    by (intro exI [of _ "[12, 13]"] exI [of _ "\<lambda>i. if i \<in> {1..11} then Some 1 else None"])
      (auto simp: ran_def dom_def split: if_splits)
qed

lemma demo_slab_blk: "demo_slab c = blk (page_addr 1) 6 c"
  by (simp add: demo_slab_def blk_def)

lemma page_1_aligned [simp]: "page_aligned (page_addr 1)"
  by (rule page_addr_aligned) (simp add: page_bound_def)

lemma demo_slab_slot: "c < 64 \<Longrightarrow> demo_slab c \<in> slots {page_addr 1}"
  using blk_props [OF page_1_aligned, of c 6] by (simp add: slots_def demo_slab_blk)

lemma demo_slab_inj: "c < 64 \<Longrightarrow> d < 64 \<Longrightarrow> demo_slab c = demo_slab d \<longleftrightarrow> c = d"
  unfolding demo_slab_blk by (rule blk_inj) simp_all

lemma demo_off: "c < 64 \<Longrightarrow> k < 64 \<Longrightarrow> unat (demo_slab c + of_nat k - page_addr 1) = 64 * c + k"
  using unat_of_nat_small [of "64 * c + k"] by (simp add: demo_slab_def)

lemma demo_rd:
  assumes "c < 64" "k < 64" "of_nat k \<in> offs"
  shows "rd demo_state (demo_slab c + of_nat k) =
    (if c < 10 \<and> k = 32 then 2 ^ (c + 3) else if c < 10 \<and> k = 40 then 2 ^ (9 - c) else 0)"
proof -
  have "aligned 3 (demo_slab c + of_nat k)" using slot_word_aligned [OF demo_slab_slot] assms by blast
  then have "rd demo_state (demo_slab c + of_nat k) = demo_words (demo_slab c + of_nat k)"
    by (simp add: rd_def demo_state_def demo_pages_def load64_mem_of_words)
  moreover have "64 * c + k < 640 \<longleftrightarrow> c < 10" "(64 * c + k) div 64 = c" "(64 * c + k) mod 64 = k" using assms(2) by auto
  ultimately show ?thesis unfolding demo_words_def Let_def demo_off [OF assms(1,2)] by (simp only:)
qed

lemma demo_rd_fields:
  assumes "c < 10"
  shows "rd demo_state (demo_slab c + 16) = 0" "rd demo_state (demo_slab c + 24) = 0" "rd demo_state (demo_slab c + 48) = 0"
    "rd demo_state (demo_slab c + 32) = 2 ^ (c + 3)" "rd demo_state (demo_slab c + 40) = 2 ^ (9 - c)"
  using demo_rd [of c 16] demo_rd [of c 24] demo_rd [of c 48] demo_rd [of c 32] demo_rd [of c 40] assms
  by (simp_all add: offs_def)

lemma demo_view_page: "c < 64 \<Longrightarrow> v_page demo_view (demo_slab c) = page_addr (2 + c)"
  using demo_off [of c 0] by (simp add: demo_view_def)

lemma demo_all_slabs: "all_slabs demo_view = demo_slab ` {0..<10}"
  by (auto simp: all_slabs_def demo_view_def)

lemma demo_fields: "v_meta demo_view = {page_addr 1}" "v_pool demo_view = [demo_slab 10]" "v_cls demo_view = (\<lambda>c. [demo_slab c])"
  by (simp_all add: demo_view_def)

lemma demo_inv: "slab_inv 10 demo_state demo_view (page_addr ` {1..11})"
proof -
  have pj: "page_addr i = page_addr j \<longleftrightarrow> i = j" if "i < 100" "j < 100" for i j
    using page_addr_inj [of i j] that by (simp add: page_bound_def)
  have P: "v_page demo_view ` all_slabs demo_view = page_addr ` {2..11}"
  proof -
    have "v_page demo_view ` all_slabs demo_view = (\<lambda>c. page_addr (2 + c)) ` {0..<10}"
      unfolding demo_all_slabs image_image by (rule image_cong) (simp_all add: demo_view_page)
    also have "\<dots> = page_addr ` ((+) 2 ` {0..<10})" by (simp add: image_image)
    also have "(+) (2::nat) ` {0..<10} = {2..11}" by (simp only: image_add_atLeastLessThan) auto
    finally show ?thesis .
  qed
  have "inj_on (v_page demo_view) (all_slabs demo_view)"
    by (auto simp: inj_on_def demo_all_slabs demo_view_page pj)
  moreover have "demo_slab ` {0..<10} \<union> {demo_slab 10} \<subseteq> slots {page_addr 1}" using demo_slab_slot by auto
  moreover have "demo_slab 10 \<notin> demo_slab ` {0..<10}" by (auto simp: demo_slab_inj)
  ultimately have V: "view_ok demo_view (page_addr ` {1..11})"
    unfolding view_ok_def P by (auto simp: demo_fields demo_all_slabs pj demo_slab_inj)
  have "slab_ok (rd demo_state) c (demo_slab c) p []" if "c < 10" for c p
    using demo_rd_fields [OF that] by (simp add: slab_ok_def links_def opt_ptr_def)
  then have S: "slabs_ok 10 (rd demo_state) (slabs demo_state) demo_view"
    by (simp add: slabs_ok_def demo_view_def demo_state_def [THEN arg_cong, of slabs] demo_rd_fields opt_ptr_def)
  have "demo_slab 10 \<noteq> 0" by (simp add: demo_slab_def page_addr_def MEMORY_START_def)
  then have "pool_ok (rd demo_state) demo_state demo_view"
    using demo_rd [of 10 0] by (simp add: pool_ok_def links_def demo_view_def demo_state_def [THEN arg_cong, of pool_end] opt_ptr_def offs_def
      demo_state_def [THEN arg_cong, of pool_free] demo_state_def [THEN arg_cong, of pool_freelist])
  moreover have "pg_slab (page_array (pages demo_state) (PHY_TO_PAGE (v_page demo_view (demo_slab c)))) = demo_slab c" if "c < 10" for c
    using that demo_view_page [of c] PHY_TO_PAGE_addr [of "2 + c" 0] by (simp add: demo_state_def demo_pages_def page_bound_def)
  ultimately show ?thesis
    using V S demo_pages_inv by (auto simp: slab_inv_def demo_all_slabs demo_state_def [THEN arg_cong, of pages])
qed

definition demo_objects :: "(u64 \<times> nat) set" where "demo_objects = sized ` live_objs demo_view"

lemma demo_slab_objects: "slab_objects demo_state demo_objects"
  using demo_inv by (auto simp: slab_objects_def demo_objects_def)

lemma demo_live: "c < 10 \<Longrightarrow> k < 2 ^ (9 - c) \<Longrightarrow> (page_addr (2 + c) + of_nat k * 2 ^ (c + 3), 2 ^ (c + 3)) \<in> demo_objects"
proof -
  assume c: "c < 10" "k < 2 ^ (9 - c)"
  have "page_aligned (page_addr (2 + c))" using c(1) by (intro page_addr_aligned) (simp add: page_bound_def)
  then have "page_addr (2 + c) + of_nat k * 2 ^ (c + 3) \<in> objs c (v_page demo_view (demo_slab c))"
    using blk_props [of "page_addr (2 + c)" k "c + 3"] c demo_view_page [of c] by (simp add: objs_def blk_def)
  then have "(page_addr (2 + c) + of_nat k * 2 ^ (c + 3), c) \<in> live_objs demo_view"
    using c(1) by (auto simp: live_objs_def demo_view_def)
  then show ?thesis unfolding demo_objects_def by (rule rev_image_eqI) (simp add: sized_def)
qed

theorem slab_free_spec_witness: "\<exists>st'. slab_free (page_addr 2) demo_state = Inr st' \<and> slab_objects st' (demo_objects - {(page_addr 2, 8)})"
  using slab_free_spec [OF demo_slab_objects, of "page_addr 2" 8] demo_live [of 0 0] by auto

theorem slab_alloc_spec_witness:
  "\<exists>r. slab_alloc 24 demo_state = Some r \<and> (\<forall>e. r = Inl e \<longrightarrow> e = Panic ''memory out of space!'')"
  using slab_alloc_spec [OF demo_slab_objects, of 24] by auto

text \<open>Page 1 is in use and pages 2 to 16 are free.\<close>

definition boot_pages :: mstate where
  "boot_pages = demo_mem\<lparr>page_array := (\<lambda>i. zero_page\<lparr>paddr := page_addr i, pg_next := (if i < 16 then Some (i + 1) else None),
        flags := (if i = 1 then PG_FLAG_USED else 0), refcount := (if i = 1 then 1 else 0)\<rparr>),
     gmd := (gmd demo_mem)\<lparr>free_head := Some 2, free_tail := Some 16, free_start_at := page_addr 1, free_end_at := page_addr 16\<rparr>\<rparr>"

lemma boot_pages_inv: "mem_inv boot_pages [2, 3, 4, 5, 6, 7, 8, 9, 10, 11, 12, 13, 14, 15, 16] [1 \<mapsto> 1]"
  by (rule mem_invI [of 1 16])
    (auto simp: boot_pages_def demo_mem_def zero_page_def page_bound_def split: if_splits)

theorem init_slab_boot_witness:
  "\<exists>st'. init_slab (demo_state\<lparr>pages := boot_pages\<rparr>) = Inr st' \<and> slab_objects st' {} \<and> ram (pages st') (page_addr 1) = 7"
proof -
  let ?st = "demo_state\<lparr>pages := boot_pages\<rparr>"
  have i: "mem_inv (pages ?st) [2, 3, 4, 5, 6, 7, 8, 9, 10, 11, 12, 13, 14, 15, 16] [1 \<mapsto> 1]" using boot_pages_inv by simp
  have "PGROUNDDOWN (page_addr 1) = page_addr 1" by (rule PGROUNDDOWN_id [OF page_1_aligned])
  moreover have "ram (pages ?st) (page_addr 1) = 7" by (simp add: boot_pages_def demo_mem_def)
  ultimately show ?thesis using init_slab_boot [OF i] by auto
qed

theorem slab_objects_private_witness:
  "\<exists>st'. run_obj_ops slab_alloc slab_free (\<lambda>st. ram (pages st)) poke [OFree (page_addr 3), OStore (page_addr 2) 3 5]
      (demo_state, [(page_addr 2, 8), (page_addr 3, 16)]) = Some (st', [(page_addr 2, 8)]) \<and>
    ram (pages st') (page_addr 2 + 3) = 5 \<and> ram (pages st') (page_addr 2 + 4) = ram (pages demo_state) (page_addr 2 + 4)"
proof -
  let ?hs = "[(page_addr 2, 8), (page_addr 3, 16)]"
  have ne: "page_addr 2 \<noteq> page_addr 3" using page_addr_inj [of 2 3] by (simp add: page_bound_def)
  have l: "(page_addr 2, 8) \<in> demo_objects" "(page_addr 3, 16) \<in> demo_objects" using demo_live [of 0 0] demo_live [of 1 0] by auto
  then have h: "holds demo_objects ?hs" using ne by (auto simp: holds_def)
  obtain st1 where st1: "slab_free (page_addr 3) demo_state = Inr st1" using objects_free [OF demo_slab_objects l(2)] by blast
  define st' where "st' = poke ((ram (pages st1))(page_addr 2 + 3 := 5)) st1"
  have r: "run_obj_ops slab_alloc slab_free (\<lambda>st. ram (pages st)) poke [OFree (page_addr 3), OStore (page_addr 2) 3 5] (demo_state, ?hs) =
      Some (st', [(page_addr 2, 8)])"
    using ne by (simp add: st1 st'_def)
  have p: "\<forall>i < 8. ram (pages st') (page_addr 2 + of_nat i) =
      private_byte (page_addr 2) i [OFree (page_addr 3), OStore (page_addr 2) 3 5] (ram (pages demo_state) (page_addr 2 + of_nat i))"
    using slab_objects_private [OF demo_slab_objects h r] ne by auto
  show ?thesis using r p [rule_format, of 3] p [rule_format, of 4] by simp
qed

end
