(* ===== verification/Vm.thy ===== *)
theory Vm
  imports Memory
begin

text \<open>
  mm/vm.c: Sv39 page tables in physical memory. A page table is the address of its page, an
  entry the 64-bit word at its slot; the tables come from the page allocator. Kernel addresses
  of tables and buffers are physical ones (the kernel maps them to themselves).
\<close>

section \<open>Entries\<close>

definition PTE_V :: u64 where "PTE_V = push_bit 0 1"
definition PTE_R :: u64 where "PTE_R = push_bit 1 1"
definition PTE_W :: u64 where "PTE_W = push_bit 2 1"
definition PTE_X :: u64 where "PTE_X = push_bit 3 1"
definition PTE_U :: u64 where "PTE_U = push_bit 4 1"

definition MAX_VA :: u64 where "MAX_VA = push_bit 38 1"
definition EFAULT :: int where "EFAULT = - 114514"

definition PX :: "nat \<Rightarrow> u64 \<Rightarrow> u64" where "PX level va = drop_bit (12 + 9 * level) va AND 0x1FF"

definition PTE2PA :: "u64 \<Rightarrow> u64" where "PTE2PA e = push_bit 12 (drop_bit 10 e)"
definition PA2PTE :: "u64 \<Rightarrow> u64" where "PA2PTE pa = push_bit 10 (drop_bit 12 pa)"
definition PTE_FLAGS :: "u64 \<Rightarrow> u64" where "PTE_FLAGS e = e AND 0x3FF"

definition get_pte :: "u64 \<Rightarrow> mstate \<Rightarrow> u64" where "get_pte p s = load64 (ram s) p"
definition set_pte :: "u64 \<Rightarrow> u64 \<Rightarrow> mstate \<Rightarrow> mstate" where "set_pte p e s = put_ram (store64 (ram s) p e) s"

abbreviation valid :: "u64 \<Rightarrow> bool" where "valid e \<equiv> e AND PTE_V \<noteq> 0"

section \<open>Walking\<close>

text \<open>From the table \<open>pt\<close> of level \<open>l\<close> down to the slot of \<open>va\<close>; 0 is the null pointer.\<close>

fun walk_down :: "bool \<Rightarrow> nat \<Rightarrow> u64 \<Rightarrow> u64 \<Rightarrow> mstate \<Rightarrow> u64 \<times> mstate" where
  "walk_down create 0 pt va s = (pt + 8 * PX 0 va, s)"
| "walk_down create (Suc l) pt va s =
     (let p = pt + 8 * PX (Suc l) va; e = get_pte p s in
      if valid e then walk_down create l (PTE2PA e) va s
      else if \<not> create then (0, s)
      else case alloc_page s of (pg, s1) \<Rightarrow>
        if pg = 0 then (0, s1)
        else walk_down create l pg va (set_pte p (PA2PTE pg OR PTE_V) s1))"

definition pte_walk :: "u64 \<Rightarrow> u64 \<Rightarrow> bool \<Rightarrow> mstate \<Rightarrow> u64 \<times> mstate" where
  "pte_walk pt va create s = (if MAX_VA < va then (0, s) else walk_down create 2 pt va s)"

definition pg_create :: "mstate \<Rightarrow> u64 \<times> mstate" where
  "pg_create s = (case kalloc s of (pg, s1) \<Rightarrow>
     if pg = 0 then (0, s1) else (pg, put_ram (memset (ram s1) pg 0 PG_4K_SIZE) s1))"

definition walkaddr :: "u64 \<Rightarrow> u64 \<Rightarrow> mstate \<Rightarrow> u64" where
  "walkaddr pt va s =
     (if MAX_VA \<le> va then 0
      else let p = fst (pte_walk pt va False s); e = get_pte p s in
        if p = 0 then 0 else if \<not> valid e then 0 else if e AND PTE_U = 0 then 0 else PTE2PA e)"

fun va2pa_level :: "nat \<Rightarrow> u64 \<Rightarrow> u64 \<Rightarrow> mstate \<Rightarrow> u64" where
  "va2pa_level 0 pt va s =
     (let e = get_pte (pt + 8 * PX 0 va) s in if \<not> valid e then - 1 else PTE2PA e OR (va AND 0xFFF))"
| "va2pa_level (Suc l) pt va s =
     (let e = get_pte (pt + 8 * PX (Suc l) va) s in if \<not> valid e then - 1 else va2pa_level l (PTE2PA e) va s)"

definition va2pa :: "u64 \<Rightarrow> u64 \<Rightarrow> mstate \<Rightarrow> u64" where
  "va2pa pt va s = va2pa_level 2 pt va s"

section \<open>Mapping and unmapping\<close>

text \<open>
  The result \<open>-1\<close> says that no page was left for a table; what was mapped before stays mapped.
  The loops compare wrapping addresses, so they are partial functions.
\<close>

partial_function (option) mappages_loop :: "u64 \<Rightarrow> u64 \<Rightarrow> u64 \<Rightarrow> u64 \<Rightarrow> i32 \<Rightarrow> mstate \<Rightarrow> (int \<times> mstate) kres option" where
  "mappages_loop pt a lst pa perm s =
     (case pte_walk pt a True s of (p, s1) \<Rightarrow>
        if p = 0 then Some (Inr (- 1, s1))
        else if valid (get_pte p s1) then Some (Inl (Panic ''mappages: remap''))
        else let s2 = set_pte p (PA2PTE pa OR scast perm OR PTE_V) s1 in
          if a = lst then Some (Inr (0, s2))
          else mappages_loop pt (a + PG_4K_SIZE) lst (pa + PG_4K_SIZE) perm s2)"

definition mappages :: "u64 \<Rightarrow> u64 \<Rightarrow> u64 \<Rightarrow> u64 \<Rightarrow> i32 \<Rightarrow> mstate \<Rightarrow> (int \<times> mstate) kres option" where
  "mappages pt va sz pa perm s =
     (if va mod PG_4K_SIZE \<noteq> 0 then Some (Inl (Panic ''mappages: va not aligned''))
      else if sz mod PG_4K_SIZE \<noteq> 0 then Some (Inl (Panic ''mappages: size not aligned''))
      else if sz = 0 then Some (Inl (Panic ''mappages: size''))
      else mappages_loop pt va (va + sz - PG_4K_SIZE) pa perm s)"

partial_function (option) pg_unmap_loop :: "u64 \<Rightarrow> u64 \<Rightarrow> u64 \<Rightarrow> bool \<Rightarrow> mstate \<Rightarrow> mstate kres option" where
  "pg_unmap_loop pt a stop do_free s =
     (if a < stop then
        let p = fst (pte_walk pt a False s); e = get_pte p s in
        if p = 0 \<or> \<not> valid e then pg_unmap_loop pt (a + PG_4K_SIZE) stop do_free s
        else case (if do_free then kfree s (PTE2PA e) else Inr s) of
               Inl er \<Rightarrow> Some (Inl er)
             | Inr s1 \<Rightarrow> pg_unmap_loop pt (a + PG_4K_SIZE) stop do_free (set_pte p 0 s1)
      else Some (Inr s))"

definition pg_unmap :: "u64 \<Rightarrow> u64 \<Rightarrow> u64 \<Rightarrow> bool \<Rightarrow> mstate \<Rightarrow> mstate kres option" where
  "pg_unmap pt va npages do_free s =
     (if va mod PG_4K_SIZE \<noteq> 0 then Some (Inl (Panic ''pg_unmap: not aligned''))
      else pg_unmap_loop pt va (va + npages * PG_4K_SIZE) do_free s)"

text \<open>
  \<^verbatim>\<open>freewalk\<close> frees the tables below entry \<open>i\<close> on, then the table itself; a leaf that is still
  mapped is a panic.
\<close>

partial_function (option) freewalk_from :: "u64 \<Rightarrow> nat \<Rightarrow> mstate \<Rightarrow> mstate kres option" where
  "freewalk_from pt i s =
     (if i < 512 then
        let p = pt + 8 * of_nat i; e = get_pte p s in
        if valid e \<and> e AND (PTE_R OR PTE_W OR PTE_X) = 0 then
          Option.bind (freewalk_from (PTE2PA e) 0 s) (\<lambda>r.
            case r of Inl er \<Rightarrow> Some (Inl er) | Inr s1 \<Rightarrow> freewalk_from pt (Suc i) (set_pte p 0 s1))
        else if valid e then Some (Inl (Panic ''freewalk: leaf''))
        else freewalk_from pt (Suc i) s
      else Some (kfree s pt))"

definition freewalk :: "u64 \<Rightarrow> mstate \<Rightarrow> mstate kres option" where
  "freewalk pt s = freewalk_from pt 0 s"

definition USER_STACK_TOP :: u64 where "USER_STACK_TOP = 0x80000000 - PG_4K_SIZE"
definition USER_STACK_PAGES :: u64 where "USER_STACK_PAGES = 4"
definition USER_STACK_BASE :: u64 where "USER_STACK_BASE = USER_STACK_TOP - USER_STACK_PAGES * PG_4K_SIZE"

definition pg_user_vmfree :: "u64 \<Rightarrow> u64 \<Rightarrow> mstate \<Rightarrow> mstate kres option" where
  "pg_user_vmfree pt sz s =
     Option.bind (if 0 < sz then pg_unmap pt 0x1000 (PGROUNDUP sz div 12) True s else Some (Inr s)) (\<lambda>r1.
     case r1 of Inl e \<Rightarrow> Some (Inl e) | Inr s1 \<Rightarrow>
     Option.bind (pg_unmap pt USER_STACK_BASE USER_STACK_PAGES True s1) (\<lambda>r2.
     case r2 of Inl e \<Rightarrow> Some (Inl e) | Inr s2 \<Rightarrow> freewalk pt s2))"

section \<open>Page faults and copies between kernel and user space\<close>

datatype page_fault_type = PF_LOAD | PF_STORE | PF_INSTRUCTION

definition get_page_fault_type :: "u64 \<Rightarrow> page_fault_type" where
  "get_page_fault_type scause =
     (if scause = 13 then PF_LOAD else if scause = 15 then PF_STORE
      else if scause = 12 then PF_INSTRUCTION else PF_INSTRUCTION)"

text \<open>The fields of the current task that this module reads.\<close>

record vm_task =
  heap_start :: u64
  heap_brk :: u64
  task_pg :: u64

definition user_perm :: i32 where "user_perm = ucast (PTE_V OR PTE_W OR PTE_R OR PTE_U)"

text \<open>The status, the new physical page (0 when the status is negative) and the state.\<close>

definition do_page_fault_with_new_pa ::
    "vm_task \<Rightarrow> u64 \<Rightarrow> page_fault_type \<Rightarrow> mstate \<Rightarrow> (int \<times> u64 \<times> mstate) kres option" where
  "do_page_fault_with_new_pa ts fault_addr type s =
     (if type \<noteq> PF_LOAD \<and> type \<noteq> PF_STORE then Some (Inr (- 1, 0, s))
      else if fault_addr < heap_start ts \<or> heap_brk ts \<le> fault_addr then Some (Inr (- 1, 0, s))
      else let va = PGROUNDDOWN fault_addr in
        case kalloc s of (pa, s1) \<Rightarrow>
          if pa = 0 then Some (Inr (- 1, 0, s1))
          else let s2 = put_ram (memset (ram s1) pa 0 PG_4K_SIZE) s1 in
            Option.bind (mappages (task_pg ts) va PG_4K_SIZE pa user_perm s2) (\<lambda>r.
              case r of Inl e \<Rightarrow> Some (Inl e)
              | Inr (st, s3) \<Rightarrow>
                  if st < 0 then (case free_page s3 pa of Inl e \<Rightarrow> Some (Inl e) | Inr s4 \<Rightarrow> Some (Inr (- 1, 0, s4)))
                  else Some (Inr (0, pa, s3))))"

text \<open>\<^verbatim>\<open>do_page_fault\<close> kills the task where the other returns \<open>-1\<close>: the boolean is its \<^verbatim>\<open>dead\<close> flag.\<close>

definition do_page_fault :: "vm_task \<Rightarrow> u64 \<Rightarrow> page_fault_type \<Rightarrow> mstate \<Rightarrow> (bool \<times> mstate) kres option" where
  "do_page_fault ts fault_addr type s =
     (if type \<noteq> PF_LOAD \<and> type \<noteq> PF_STORE then Some (Inr (True, s))
      else if fault_addr < heap_start ts \<or> heap_brk ts \<le> fault_addr then Some (Inr (True, s))
      else let va = PGROUNDDOWN fault_addr in
        case kalloc s of (pa, s1) \<Rightarrow>
          if pa = 0 then Some (Inr (True, s1))
          else let s2 = put_ram (memset (ram s1) pa 0 PG_4K_SIZE) s1 in
            Option.bind (mappages (task_pg ts) va PG_4K_SIZE pa user_perm s2) (\<lambda>r.
              case r of Inl e \<Rightarrow> Some (Inl e)
              | Inr (st, s3) \<Rightarrow>
                  if st < 0 then (case free_page s3 pa of Inl e \<Rightarrow> Some (Inl e) | Inr s4 \<Rightarrow> Some (Inr (True, s4)))
                  else Some (Inr (False, s3))))"

text \<open>The physical page behind the user page \<open>va0\<close>, faulting it in when it is not there.\<close>

definition user_page :: "vm_task \<Rightarrow> u64 \<Rightarrow> u64 \<Rightarrow> page_fault_type \<Rightarrow> mstate \<Rightarrow> (int \<times> u64 \<times> mstate) kres option" where
  "user_page ts pt va0 type s =
     (let pa0 = walkaddr pt va0 s in
      if pa0 = 0 then do_page_fault_with_new_pa ts va0 type s else Some (Inr (0, pa0, s)))"

partial_function (option) copy_to_user ::
    "vm_task \<Rightarrow> u64 \<Rightarrow> u64 \<Rightarrow> u64 \<Rightarrow> u64 \<Rightarrow> mstate \<Rightarrow> (int \<times> mstate) kres option" where
  "copy_to_user ts pt dstva src len s =
     (if 0 < len then
        let va0 = PGROUNDDOWN dstva in
        if MAX_VA < va0 then Some (Inr (- 1, s))
        else Option.bind (user_page ts pt va0 PF_STORE s) (\<lambda>r.
          case r of Inl e \<Rightarrow> Some (Inl e)
          | Inr (st, pa0, s1) \<Rightarrow>
              if st < 0 then Some (Inr (EFAULT, s1))
              else let p = fst (pte_walk pt va0 False s1) in
                if p = 0 then Some (Inl Fault)
                else if get_pte p s1 AND PTE_W = 0 then Some (Inr (- 1, s1))
                else let n0 = PG_4K_SIZE - (dstva - va0); n = (if len < n0 then len else n0) in
                  copy_to_user ts pt (va0 + PG_4K_SIZE) (src + n) (len - n)
                    (put_ram (memmove (ram s1) (pa0 + (dstva - va0)) src (ucast n)) s1))
      else Some (Inr (0, s)))"

partial_function (option) copy_from_user ::
    "vm_task \<Rightarrow> u64 \<Rightarrow> u64 \<Rightarrow> u64 \<Rightarrow> u64 \<Rightarrow> mstate \<Rightarrow> (int \<times> mstate) kres option" where
  "copy_from_user ts pt dst srcva len s =
     (if 0 < len then
        let va0 = PGROUNDDOWN srcva in
        if MAX_VA < va0 then Some (Inr (- 1, s))
        else Option.bind (user_page ts pt va0 PF_LOAD s) (\<lambda>r.
          case r of Inl e \<Rightarrow> Some (Inl e)
          | Inr (st, pa0, s1) \<Rightarrow>
              if st < 0 then Some (Inr (EFAULT, s1))
              else let n0 = PG_4K_SIZE - (srcva - va0); n = (if len < n0 then len else n0) in
                copy_from_user ts pt (dst + n) (va0 + PG_4K_SIZE) (len - n)
                  (put_ram (memmove (ram s1) dst (pa0 + (srcva - va0)) (ucast n)) s1))
      else Some (Inr (0, s)))"

text \<open>The inner loop: whether the null byte was met, the new \<open>dst\<close>, the bytes copied, the memory.\<close>

fun copy_str_bytes :: "nat \<Rightarrow> u64 \<Rightarrow> u64 \<Rightarrow> memory \<Rightarrow> bool \<times> u64 \<times> nat \<times> memory" where
  "copy_str_bytes 0 p dst m = (False, dst, 0, m)"
| "copy_str_bytes (Suc n) p dst m =
     (if m p = 0 then (True, dst, 0, m(dst := 0))
      else case copy_str_bytes n (p + 1) (dst + 1) (m(dst := m p)) of (g, d, k, m') \<Rightarrow> (g, d, Suc k, m'))"

partial_function (option) copy_str_from_user ::
    "vm_task \<Rightarrow> u64 \<Rightarrow> u64 \<Rightarrow> u64 \<Rightarrow> u64 \<Rightarrow> mstate \<Rightarrow> (int \<times> mstate) kres option" where
  "copy_str_from_user ts pt dst srcva mx s =
     (if 0 < mx then
        let va0 = PGROUNDDOWN srcva in
        if MAX_VA < va0 then Some (Inr (- 1, s))
        else Option.bind (user_page ts pt va0 PF_LOAD s) (\<lambda>r.
          case r of Inl e \<Rightarrow> Some (Inl e)
          | Inr (st, pa0, s1) \<Rightarrow>
              if st < 0 then Some (Inr (EFAULT, s1))
              else let n0 = PG_4K_SIZE - (srcva - va0); n = (if mx < n0 then mx else n0) in
                case copy_str_bytes (unat n) (pa0 + (srcva - va0)) dst (ram s1) of (got_null, d, k, m) \<Rightarrow>
                  if got_null then Some (Inr (0, put_ram m s1))
                  else copy_str_from_user ts pt d (va0 + PG_4K_SIZE) (mx - of_nat k) (put_ram m s1))
      else Some (Inr (- 1, s)))"

section \<open>Copying an address space\<close>

definition USER_BASE_PROG_ADDR :: u64 where "USER_BASE_PROG_ADDR = 0x1000"

text \<open>
  One page: skip what is not mapped, otherwise copy it to a fresh page and map that in the
  destination. On failure the status is \<open>-1\<close>.
\<close>

definition copy_one_page :: "u64 \<Rightarrow> u64 \<Rightarrow> u64 \<Rightarrow> mstate \<Rightarrow> (int \<times> mstate) kres option" where
  "copy_one_page src_pg dst_pg va s =
     (let p = fst (pte_walk src_pg va False s); e = get_pte p s in
      if p = 0 \<or> \<not> valid e \<or> PTE2PA e = 0 then Some (Inr (0, s))
      else case kalloc s of (chunk, s1) \<Rightarrow>
        if chunk = 0 then
          Option.bind (pg_unmap dst_pg va 1 True s1) (\<lambda>r.
            case r of Inl er \<Rightarrow> Some (Inl er) | Inr s2 \<Rightarrow> Some (Inr (- 1, s2)))
        else Option.bind (memcpy (ram s1) chunk (PTE2PA e) PG_4K_SIZE) (\<lambda>m. let s2 = put_ram m s1 in
          Option.bind (mappages dst_pg va PG_4K_SIZE chunk (ucast (PTE_FLAGS e)) s2) (\<lambda>r.
            case r of Inl er \<Rightarrow> Some (Inl er)
            | Inr (st, s3) \<Rightarrow>
                if st = - 1 then
                  (case kfree s3 chunk of Inl er \<Rightarrow> Some (Inl er)
                   | Inr s4 \<Rightarrow> Option.bind (pg_unmap dst_pg va 1 True s4) (\<lambda>r.
                       case r of Inl er \<Rightarrow> Some (Inl er) | Inr s5 \<Rightarrow> Some (Inr (- 1, s5))))
                else Some (Inr (0, s3)))))"

partial_function (option) vm_pagetbl_copy_loop :: "u64 \<Rightarrow> u64 \<Rightarrow> u64 \<Rightarrow> u64 \<Rightarrow> mstate \<Rightarrow> (int \<times> mstate) kres option" where
  "vm_pagetbl_copy_loop src_pg dst_pg va sz s =
     (if va \<le> sz then
        Option.bind (copy_one_page src_pg dst_pg va s) (\<lambda>r.
          case r of Inl e \<Rightarrow> Some (Inl e)
          | Inr (st, s1) \<Rightarrow> if st = - 1 then Some (Inr (- 1, s1))
                            else vm_pagetbl_copy_loop src_pg dst_pg (va + PG_4K_SIZE) sz s1)
      else Some (Inr (0, s)))"

definition vm_pagetbl_copy :: "u64 \<Rightarrow> u64 \<Rightarrow> u64 \<Rightarrow> bool \<Rightarrow> mstate \<Rightarrow> (int \<times> mstate) kres option" where
  "vm_pagetbl_copy src_pg dst_pg sz is_user_copy s =
     vm_pagetbl_copy_loop src_pg dst_pg (if is_user_copy then USER_BASE_PROG_ADDR else 0) sz s"

partial_function (option) vm_copy_asign_loop :: "u64 \<Rightarrow> u64 \<Rightarrow> u64 \<Rightarrow> u64 \<Rightarrow> mstate \<Rightarrow> (int \<times> mstate) kres option" where
  "vm_copy_asign_loop src_pg dst_pg va stop s =
     (if va < stop then
        Option.bind (copy_one_page src_pg dst_pg va s) (\<lambda>r.
          case r of Inl e \<Rightarrow> Some (Inl e)
          | Inr (st, s1) \<Rightarrow> if st = - 1 then Some (Inr (- 1, s1))
                            else vm_copy_asign_loop src_pg dst_pg (va + PG_4K_SIZE) stop s1)
      else Some (Inr (0, s)))"

definition vm_pagetbl_copy_asign :: "u64 \<Rightarrow> u64 \<Rightarrow> u64 \<Rightarrow> u64 \<Rightarrow> mstate \<Rightarrow> (int \<times> mstate) kres option" where
  "vm_pagetbl_copy_asign src_pg dst_pg va_start sz s =
     vm_copy_asign_loop src_pg dst_pg va_start (va_start + sz) s"

section \<open>The kernel's own mappings\<close>

fun kvminit_loop :: "nat \<Rightarrow> u64 \<Rightarrow> u64 \<Rightarrow> u64 \<Rightarrow> u32 \<Rightarrow> mstate \<Rightarrow> mstate kres" where
  "kvminit_loop 0 pt vad pad flgs s = Inr s"
| "kvminit_loop (Suc n) pt vad pad flgs s =
     (case pte_walk pt vad True s of (p, s1) \<Rightarrow>
        if p = 0 then Inl (Panic ''kvminit: out of memory!'')
        else kvminit_loop n pt (vad + PG_4K_SIZE) (pad + PG_4K_SIZE) flgs (set_pte p (PA2PTE pad OR ucast flgs) s1))"

text \<open>The counter is an \<^verbatim>\<open>int\<close>; it reaches \<^verbatim>\<open>pages\<close> for every count below \<open>2 ^ 31\<close>.\<close>

definition kvminit :: "u64 \<Rightarrow> u64 \<Rightarrow> u64 \<Rightarrow> u64 \<Rightarrow> u32 \<Rightarrow> mstate \<Rightarrow> mstate kres" where
  "kvminit pt va pa npages flgs s = kvminit_loop (unat npages) pt (PGROUNDDOWN va) (PGROUNDDOWN pa) flgs s"

definition KERNEL_START :: u64 where "KERNEL_START = 0x80200000"
definition MMIO_OFFEST :: u64 where "MMIO_OFFEST = MAX_VA - 0x08000000"
definition UART_BASE :: u64 where "UART_BASE = 0x10000000"
definition VIRTIO_MMIO_BASE :: u64 where "VIRTIO_MMIO_BASE = 0x10001000"
definition CLINT_BASE :: u64 where "CLINT_BASE = 0x2000000"
definition PLIC_BASE :: u64 where "PLIC_BASE = 0xc000000"
definition UART_PAGE_SIZE :: u64 where "UART_PAGE_SIZE = 1"
definition VIRTIO_PAGE_SIZE :: u64 where "VIRTIO_PAGE_SIZE = 8"
definition CLINT_PAGE_SIZE :: u64 where "CLINT_PAGE_SIZE = 16"
definition PLIC_PAGE_SIZE :: u64 where "PLIC_PAGE_SIZE = 0x600"
definition MMIO_UART_OFFEST :: u64 where "MMIO_UART_OFFEST = MMIO_OFFEST"
definition MMIO_VIRTIO_OFFEST :: u64 where "MMIO_VIRTIO_OFFEST = MMIO_OFFEST + UART_PAGE_SIZE * 4096"
definition MMIO_CLINT_OFFEST :: u64 where
  "MMIO_CLINT_OFFEST = MMIO_OFFEST + UART_PAGE_SIZE * 4096 + VIRTIO_PAGE_SIZE * 4096"
definition MMIO_PLIC_OFFEST :: u64 where
  "MMIO_PLIC_OFFEST = MMIO_OFFEST + UART_PAGE_SIZE * 4096 + VIRTIO_PAGE_SIZE * 4096 + CLINT_PAGE_SIZE * 4096"
definition TRAMPOLINE :: u64 where "TRAMPOLINE = MMIO_OFFEST - PG_4K_SIZE - PG_4K_SIZE"
definition END_OF_KERNEL_STACK :: u64 where "END_OF_KERNEL_STACK = 0x3F7FFF2000"
definition DMA_END :: u64 where "DMA_END = END_OF_KERNEL_STACK - PG_4K_SIZE"
definition DMA_START_BASE :: u64 where "DMA_START_BASE = DMA_END - of_nat DMA_PAGE_COUNT * PG_4K_SIZE"

definition page_at :: "nat option \<Rightarrow> mstate \<Rightarrow> u64 kres" where
  "page_at i s = (case i of None \<Rightarrow> Inl Fault | Some j \<Rightarrow> Inr (paddr (page_array s j)))"

text \<open>The status of \<^verbatim>\<open>mappages\<close> is ignored here, as in the source; only its panics stop the boot.\<close>

fun map_all :: "(u64 \<times> u64 \<times> u64 \<times> u64) list \<Rightarrow> u64 \<Rightarrow> mstate \<Rightarrow> mstate kres option" where
  "map_all [] pt s = Some (Inr s)"
| "map_all ((va, sz, pa, perm) # rest) pt s =
     Option.bind (mappages pt va sz pa (ucast perm) s) (\<lambda>r.
       case r of Inl e \<Rightarrow> Some (Inl e) | Inr (st, s1) \<Rightarrow> map_all rest pt s1)"

fun init_all :: "(u64 \<times> u64 \<times> u64 \<times> u64) list \<Rightarrow> u64 \<Rightarrow> mstate \<Rightarrow> mstate kres" where
  "init_all [] pt s = Inr s"
| "init_all ((va, pa, npages, flgs) # rest) pt s =
     (case kvminit pt va pa npages (ucast flgs) s of Inl e \<Rightarrow> Inl e | Inr s1 \<Rightarrow> init_all rest pt s1)"

text \<open>\<open>tramp\<close> is the linker symbol \<^verbatim>\<open>_trampoline_jump\<close>.\<close>

definition kvm_do_mapping :: "u64 \<Rightarrow> u64 \<Rightarrow> mstate \<Rightarrow> mstate kres option" where
  "kvm_do_mapping tramp pt s =
     (case (page_at (kernel_tail (gmd s)) s, page_at (fdt_head (gmd s)) s, page_at (fdt_tail (gmd s)) s) of
        (Inr kt, Inr fh, Inr ft) \<Rightarrow>
          (let g = gmd s in
           case init_all
             [(KERNEL_START, KERNEL_START, (kt - KERNEL_START) div PG_4K_SIZE + 1, PTE_V OR PTE_R OR PTE_W OR PTE_X),
              (fh, fh, (ft - fh) div PG_4K_SIZE + 1, PTE_V OR PTE_R),
              (DMA_START_BASE, dma_start_at g, (dma_end_at g - dma_start_at g) div PG_4K_SIZE + 1, PTE_V OR PTE_R OR PTE_W),
              (free_start_at g, free_start_at g, (free_end_at g - free_start_at g) div PG_4K_SIZE + 1, PTE_V OR PTE_R OR PTE_W)]
             pt s of
             Inl e \<Rightarrow> Some (Inl e)
           | Inr s1 \<Rightarrow> map_all
               [(MMIO_UART_OFFEST, UART_PAGE_SIZE * 4096, UART_BASE, PTE_V OR PTE_R OR PTE_W),
                (MMIO_VIRTIO_OFFEST, VIRTIO_PAGE_SIZE * PG_4K_SIZE, VIRTIO_MMIO_BASE, PTE_V OR PTE_R OR PTE_W),
                (MMIO_CLINT_OFFEST, CLINT_PAGE_SIZE * PG_4K_SIZE, CLINT_BASE, PTE_V OR PTE_R OR PTE_W),
                (MMIO_PLIC_OFFEST, PLIC_PAGE_SIZE * PG_4K_SIZE, PLIC_BASE, PTE_V OR PTE_R OR PTE_W OR PTE_X),
                (TRAMPOLINE, PG_4K_SIZE, tramp, PTE_V OR PTE_R OR PTE_X)] pt s1)
      | _ \<Rightarrow> Some (Inl Fault))"

text \<open>The module's globals and the address translation register.\<close>

record kvm_state =
  kvm_mem :: mstate
  kernel_pt :: u64
  vm_init_status :: u8
  satp :: u64

definition MAKE_SATP :: "u64 \<Rightarrow> u64" where "MAKE_SATP pt = push_bit 60 8 OR drop_bit 12 pt"

definition init_kvmhart :: "kvm_state \<Rightarrow> kvm_state" where
  "init_kvmhart k = k\<lparr>satp := MAKE_SATP (kernel_pt k)\<rparr>"

definition init_kvmmap :: "u64 \<Rightarrow> kvm_state \<Rightarrow> kvm_state kres option" where
  "init_kvmmap tramp k =
     (if vm_init_status k = 1 then Some (Inr k)
      else case alloc_page (kvm_mem k) of (pt, s1) \<Rightarrow>
        if pt = 0 then Some (Inl Fault)
        else let s2 = put_ram (memset (ram s1) pt 0 4096) s1 in
          Option.bind (kvm_do_mapping tramp pt s2) (\<lambda>r.
            case r of Inl e \<Rightarrow> Some (Inl e)
            | Inr s3 \<Rightarrow> Some (Inr ((init_kvmhart (k\<lparr>kvm_mem := s3, kernel_pt := pt\<rparr>))\<lparr>vm_init_status := 1\<rparr>))))"

end
