(* ===== verification/VmInv.thy ===== *)
theory VmInv
  imports Vm Pages
begin

text \<open>
  Well-formed page tables and what walking, extending and updating them does. The ghost map
  \<open>own\<close> gives each table page its level and the virtual page prefix it serves.
\<close>

section \<open>Entries and indices\<close>

lemma PTE2PA_PA2PTE:
  assumes "page_aligned p" "f AND NOT 0x3FF = 0"
  shows "PTE2PA (PA2PTE p OR f) = p"
proof (rule bit_word_eqI)
  fix n assume n: "n < LENGTH(64)"
  have f: "\<not> bit f k" if "10 \<le> k" for k
  proof
    assume b: "bit f k"
    have "bit (f AND NOT (mask 10)) k" using b that bit_imp_le_length [OF b] by (simp add: bit_and_iff bit_not_iff bit_mask_iff)
    then show False using assms(2) by (simp add: mask_eq_exp_minus_1)
  qed
  have p: "\<not> bit p k" if "k < 12" for k
  proof -
    have "bit (p AND mask 12) k = bit (0 :: u64) k" using assms(1) by (simp only: aligned_and)
    then show ?thesis using that by (simp add: bit_and_iff bit_mask_iff)
  qed
  show "bit (PTE2PA (PA2PTE p OR f)) n = bit p n"
  proof (cases "n < 12")
    case False
    then have "10 \<le> n - 12 + 10" by simp
    from f [OF this] show ?thesis using False n
      by (auto simp: PTE2PA_def PA2PTE_def bit_push_bit_iff bit_drop_bit_eq bit_or_iff)
  qed (use p in \<open>simp add: PTE2PA_def bit_push_bit_iff bit_or_iff\<close>)
qed

lemma PTE_V_1: "PTE_V = 1"
  by (simp add: PTE_V_def)

lemma valid_or_V [simp]: "valid (e OR PTE_V)"
  by (simp add: PTE_V_1 and_one_eq mod2_eq_if even_or_iff)

lemma not_valid_0 [simp]: "\<not> valid 0"
  by simp

definition vpn :: "nat \<Rightarrow> u64 \<Rightarrow> nat" where "vpn l va = unat va div 2 ^ (12 + 9 * l)"

lemma vpn_Suc: "vpn (Suc l) va = vpn l va div 512"
proof -
  have "(2::nat) ^ (12 + 9 * Suc l) = 2 ^ (12 + 9 * l) * 512" by (simp add: power_add)
  then show ?thesis by (simp add: vpn_def div_mult2_eq)
qed

lemma vpn_split: "512 * vpn (Suc l) va + vpn l va mod 512 = vpn l va"
  by (simp add: vpn_Suc)

lemma PX_vpn: "PX l va = of_nat (vpn l va mod 512)"
proof -
  have "PX l va = take_bit 9 (drop_bit (12 + 9 * l) va)"
    by (simp add: PX_def take_bit_eq_mask mask_eq_exp_minus_1)
  then have "unat (PX l va) = vpn l va mod 512"
    by (simp only: unsigned_take_bit_eq unsigned_drop_bit_eq)
      (use unat_bound [of va] in \<open>simp add: vpn_def take_bit_eq_mod drop_bit_eq_div\<close>)
  then have "of_nat (unat (PX l va)) = (of_nat (vpn l va mod 512) :: u64)" by (simp only:)
  then show ?thesis by simp
qed

lemma slot_blk: "pt + 8 * PX l va = blk pt 3 (vpn l va mod 512)"
  by (simp add: PX_vpn blk_def)

lemma vpn_0_page: "vpn 0 va = vpn 0 va' \<longleftrightarrow> PGROUNDDOWN va = PGROUNDDOWN va'"
proof -
  have "unat (PGROUNDDOWN a) = 4096 * vpn 0 a" for a
    by (simp add: unat_PGROUNDDOWN vpn_def minus_mod_eq_mult_div)
  then show ?thesis by (simp add: word_unat_eq_iff)
qed

lemma vpn_top: "va \<le> MAX_VA \<Longrightarrow> vpn 3 va = 0"
  by (simp add: vpn_def MAX_VA_def word_le_nat_alt)

section \<open>Well-formed tables\<close>

type_synonym table_map = "u64 \<rightharpoonup> nat \<times> nat"

definition pt_ok :: "(u64 \<Rightarrow> u64) \<Rightarrow> u64 \<Rightarrow> table_map \<Rightarrow> bool" where
  "pt_ok r pt own \<longleftrightarrow> own pt = Some (2, 0) \<and> inj_on own (dom own) \<and> (\<forall>q \<in> dom own. page_aligned q \<and> q \<noteq> 0) \<and>
     (\<forall>q l k. own q = Some (l, k) \<longrightarrow> l \<le> 2) \<and>
     (\<forall>q l k i. own q = Some (Suc l, k) \<longrightarrow> i < 512 \<longrightarrow> valid (r (blk q 3 i)) \<longrightarrow>
        own (PTE2PA (r (blk q 3 i))) = Some (l, 512 * k + i)) \<and>
     (\<forall>q l k. own q = Some (l, k) \<longrightarrow> q = pt \<or> (\<exists>q'. own q' = Some (Suc l, k div 512) \<and>
        valid (r (blk q' 3 (k mod 512))) \<and> PTE2PA (r (blk q' 3 (k mod 512))) = q))"

lemma pt_okD:
  assumes "pt_ok r pt own"
  shows "own pt = Some (2, 0)" "own q = Some x \<Longrightarrow> own q' = Some x \<Longrightarrow> q = q'"
    "own q = Some x \<Longrightarrow> page_aligned q \<and> q \<noteq> 0"
    "own q = Some (Suc l, k) \<Longrightarrow> i < 512 \<Longrightarrow> valid (r (blk q 3 i)) \<Longrightarrow> own (PTE2PA (r (blk q 3 i))) = Some (l, 512 * k + i)"
    "own q = Some (l, k) \<Longrightarrow> q \<noteq> pt \<Longrightarrow> \<exists>q'. own q' = Some (Suc l, k div 512) \<and>
        valid (r (blk q' 3 (k mod 512))) \<and> PTE2PA (r (blk q' 3 (k mod 512))) = q"
    "own q = Some (l, k) \<Longrightarrow> l \<le> 2"
  using assms unfolding pt_ok_def by (blast, metis domI inj_onD, blast, blast, blast, blast)

text \<open>The slot that serves \<open>va\<close>, without creating tables, and the valid leaf found there.\<close>

fun walk_r :: "nat \<Rightarrow> (u64 \<Rightarrow> u64) \<Rightarrow> u64 \<Rightarrow> u64 \<Rightarrow> u64 option" where
  "walk_r 0 r q va = Some (blk q 3 (vpn 0 va mod 512))"
| "walk_r (Suc l) r q va =
     (let e = r (blk q 3 (vpn (Suc l) va mod 512)) in if valid e then walk_r l r (PTE2PA e) va else None)"

definition leaf_at :: "nat \<Rightarrow> (u64 \<Rightarrow> u64) \<Rightarrow> u64 \<Rightarrow> u64 \<Rightarrow> u64 option" where
  "leaf_at l r q va = (case walk_r l r q va of None \<Rightarrow> None | Some p \<Rightarrow> if valid (r p) then Some (r p) else None)"

lemma leaf_at_simps [simp]:
  "leaf_at 0 r q va = (if valid (r (blk q 3 (vpn 0 va mod 512))) then Some (r (blk q 3 (vpn 0 va mod 512))) else None)"
  "leaf_at (Suc l) r q va = (let e = r (blk q 3 (vpn (Suc l) va mod 512)) in if valid e then leaf_at l r (PTE2PA e) va else None)"
  by (simp_all add: leaf_at_def Let_def)

lemma walk_r_table:
  assumes ok: "pt_ok r pt own"
  shows "own q = Some (l, vpn (Suc l) va) \<Longrightarrow> walk_r l r q va = Some p \<Longrightarrow>
    \<exists>q0. own q0 = Some (0, vpn 1 va) \<and> p = blk q0 3 (vpn 0 va mod 512)"
proof (induction l arbitrary: q)
  case (Suc l)
  let ?e = "r (blk q 3 (vpn (Suc l) va mod 512))"
  have v: "valid ?e" "walk_r l r (PTE2PA ?e) va = Some p" using Suc.prems(2) by (auto simp: Let_def split: if_splits)
  have "own (PTE2PA ?e) = Some (l, 512 * vpn (Suc (Suc l)) va + vpn (Suc l) va mod 512)"
    using pt_okD(4) [OF ok Suc.prems(1) _ v(1)] by simp
  then show ?case using Suc.IH v(2) by (simp only: vpn_split)
qed auto

lemma blk3:
  assumes "page_aligned q" "i < 512"
  shows "PGROUNDDOWN (blk q 3 i) = q" "aligned 3 (blk q 3 i)"
  using blk_props [of q i 3] assms by simp_all

lemma blk3_inj:
  assumes "page_aligned q" "page_aligned q'" "i < 512" "j < 512"
  shows "blk q 3 i = blk q' 3 j \<longleftrightarrow> q = q' \<and> i = j"
proof
  assume e: "blk q 3 i = blk q' 3 j"
  then have "q = q'" using blk3(1) assms by metis
  then show "q = q' \<and> i = j" using e blk_inj [of i 3 j q] assms by simp
qed simp

lemma blk3_nonzero: "page_aligned q \<Longrightarrow> q \<noteq> 0 \<Longrightarrow> i < 512 \<Longrightarrow> blk q 3 i \<noteq> 0"
  using blk3(1) [of q i] by auto

text \<open>Slots at different levels, or for different pages, are different words.\<close>

lemma own_slot_eq:
  assumes ok: "pt_ok r pt own" and q: "own q = Some (l, k)" "own q' = Some (l', k')" and i: "i < 512" "j < 512"
  shows "blk q 3 i = blk q' 3 j \<longleftrightarrow> l = l' \<and> k = k' \<and> i = j"
proof
  assume "blk q 3 i = blk q' 3 j"
  then have "q = q'" "i = j" using blk3_inj [of q q' i j] pt_okD(3) [OF ok] q i by auto
  then show "l = l' \<and> k = k' \<and> i = j" using q by simp
next
  assume "l = l' \<and> k = k' \<and> i = j"
  then show "blk q 3 i = blk q' 3 j" using pt_okD(2) [OF ok q(1), of q'] q by simp
qed

lemma slot_vpn_eq:
  assumes ok: "pt_ok r pt own" and q: "own q = Some (0, vpn 1 va)" "own q' = Some (0, vpn 1 va')"
  shows "blk q 3 (vpn 0 va mod 512) = blk q' 3 (vpn 0 va' mod 512) \<longleftrightarrow> vpn 0 va = vpn 0 va'"
proof -
  have "vpn 0 va = vpn 0 va' \<longleftrightarrow> vpn 1 va = vpn 1 va' \<and> vpn 0 va mod 512 = vpn 0 va' mod 512"
    using vpn_split [of 0 va] vpn_split [of 0 va'] by (metis One_nat_def vpn_Suc)
  then show ?thesis using own_slot_eq [OF ok q, of "vpn 0 va mod 512" "vpn 0 va' mod 512"] by simp
qed

section \<open>Updating a leaf\<close>

lemma vpn_cong: "vpn 0 va' = vpn 0 va \<Longrightarrow> vpn l va' = vpn l va"
  by (induction l) (simp_all add: vpn_Suc)

lemma walk_r_vpn: "vpn 0 va' = vpn 0 va \<Longrightarrow> walk_r l r q va' = walk_r l r q va"
  by (induction l arbitrary: q) (simp_all add: Let_def vpn_cong [of va' va])

text \<open>What the walk reads: the slots of the tables above level 0.\<close>

lemma walk_r_cong:
  assumes ok: "pt_ok r pt own" and eq: "\<And>q l k i. own q = Some (Suc l, k) \<Longrightarrow> i < 512 \<Longrightarrow> r' (blk q 3 i) = r (blk q 3 i)"
  shows "own q = Some (l, vpn (Suc l) va) \<Longrightarrow> walk_r l r' q va = walk_r l r q va"
proof (induction l arbitrary: q)
  case (Suc l)
  let ?e = "r (blk q 3 (vpn (Suc l) va mod 512))"
  have e: "r' (blk q 3 (vpn (Suc l) va mod 512)) = ?e" using eq [OF Suc.prems] by simp
  show ?case
  proof (cases "valid ?e")
    case True
    have "own (PTE2PA ?e) = Some (l, vpn (Suc l) va)"
      using pt_okD(4) [OF ok Suc.prems _ True] by (simp add: vpn_split)
    then show ?thesis using Suc.IH e True by (simp add: Let_def)
  qed (simp add: e Let_def)
qed simp

lemma pt_ok_cong:
  assumes ok: "pt_ok r pt own" and eq: "\<And>q l k i. own q = Some (Suc l, k) \<Longrightarrow> i < 512 \<Longrightarrow> r' (blk q 3 i) = r (blk q 3 i)"
  shows "pt_ok r' pt own"
  unfolding pt_ok_def
proof (intro conjI allI impI)
  fix q l k i assume a: "own q = Some (Suc l, k)" "i < 512" "valid (r' (blk q 3 i))"
  then show "own (PTE2PA (r' (blk q 3 i))) = Some (l, 512 * k + i)" using pt_okD(4) [OF ok a(1,2)] eq [OF a(1,2)] by simp
next
  fix q l k assume "own q = Some (l, k)"
  then have "q \<noteq> pt \<Longrightarrow> \<exists>q'. own q' = Some (Suc l, k div 512) \<and> valid (r (blk q' 3 (k mod 512))) \<and> PTE2PA (r (blk q' 3 (k mod 512))) = q"
    by (rule pt_okD(5) [OF ok])
  moreover have "r' (blk q' 3 (k mod 512)) = r (blk q' 3 (k mod 512))" if "own q' = Some (Suc l, k div 512)" for q'
    using eq [OF that, of "k mod 512"] by simp
  ultimately show "q = pt \<or> (\<exists>q'. own q' = Some (Suc l, k div 512) \<and> valid (r' (blk q' 3 (k mod 512))) \<and> PTE2PA (r' (blk q' 3 (k mod 512))) = q)"
    by metis
qed (use ok in \<open>auto simp: pt_ok_def\<close>)

lemma leaf_update:
  assumes ok: "pt_ok r pt own" and q0: "own q0 = Some (0, vpn 1 va)"
    and r': "\<And>q x i. own q = Some x \<Longrightarrow> i < 512 \<Longrightarrow>
      r' (blk q 3 i) = (if blk q 3 i = blk q0 3 (vpn 0 va mod 512) then e else r (blk q 3 i))"
    and w: "walk_r 2 r pt va = Some (blk q0 3 (vpn 0 va mod 512))"
  shows "pt_ok r' pt own"
    "va' \<le> MAX_VA \<Longrightarrow> leaf_at 2 r' pt va' = (if vpn 0 va' = vpn 0 va then if valid e then Some e else None else leaf_at 2 r pt va')"
proof -
  let ?p = "blk q0 3 (vpn 0 va mod 512)"
  have eq: "r' (blk q 3 i) = r (blk q 3 i)" if "own q = Some (Suc l, k)" "i < 512" for q l k i
    using r' [OF that] own_slot_eq [OF ok that(1) q0 that(2), of "vpn 0 va mod 512"] by simp
  show "pt_ok r' pt own" by (rule pt_ok_cong [OF ok eq])
  assume m: "va' \<le> MAX_VA"
  have rt: "own pt = Some (2, vpn (Suc 2) va')" using pt_okD(1) [OF ok] vpn_top [OF m] by (simp add: numeral_3_eq_3)
  have ww: "walk_r 2 r' pt va' = walk_r 2 r pt va'" by (rule walk_r_cong [OF ok eq rt])
  show "leaf_at 2 r' pt va' = (if vpn 0 va' = vpn 0 va then if valid e then Some e else None else leaf_at 2 r pt va')"
  proof (cases "walk_r 2 r pt va'")
    case None
    have "vpn 0 va' \<noteq> vpn 0 va"
    proof
      assume "vpn 0 va' = vpn 0 va"
      then have "walk_r 2 r pt va' = walk_r 2 r pt va" by (rule walk_r_vpn)
      then show False using None w by simp
    qed
    then show ?thesis using None ww by (simp add: leaf_at_def)
  next
    case (Some p)
    then obtain q where q: "own q = Some (0, vpn 1 va')" "p = blk q 3 (vpn 0 va' mod 512)"
      using walk_r_table [OF ok rt] by blast
    then have "r' p = (if vpn 0 va' = vpn 0 va then e else r p)"
      using r' [OF q(1), of "vpn 0 va' mod 512"] slot_vpn_eq [OF ok q(1) q0] by simp
    then show ?thesis using Some ww by (simp add: leaf_at_def)
  qed
qed

section \<open>Adding a table\<close>

lemma pt_ok_unserved:
  assumes ok: "pt_ok r pt own" and q: "own q = Some (Suc l, k)" "i < 512" "\<not> valid (r (blk q 3 i))"
  shows "own q' \<noteq> Some (l, 512 * k + i)"
proof
  assume a: "own q' = Some (l, 512 * k + i)"
  show False
  proof (cases "q' = pt")
    case True
    then have "l = 2" using pt_okD(1) [OF ok] a by simp
    then show False using pt_okD(6) [OF ok q(1)] by simp
  next
    case False
    then obtain q2 where q2: "own q2 = Some (Suc l, (512 * k + i) div 512)" "valid (r (blk q2 3 ((512 * k + i) mod 512)))"
      using pt_okD(5) [OF ok a] by blast
    have d: "(512 * k + i) div 512 = k" "(512 * k + i) mod 512 = i" using q(2) by auto
    have "q2 = q" using pt_okD(2) [OF ok _ q(1)] q2(1) d(1) by simp
    then show False using q2(2) d(2) q(3) by simp
  qed
qed

lemma pt_ok_add:
  assumes ok: "pt_ok r pt own" and q: "own q = Some (Suc l, k)" "i < 512" "\<not> valid (r (blk q 3 i))"
    and pg: "own pg = None" "page_aligned pg" "pg \<noteq> 0" and e: "valid e" "PTE2PA e = pg"
    and old: "\<And>q' x j. own q' = Some x \<Longrightarrow> j < 512 \<Longrightarrow> r' (blk q' 3 j) = (if blk q' 3 j = blk q 3 i then e else r (blk q' 3 j))"
    and new: "\<And>j. j < 512 \<Longrightarrow> r' (blk pg 3 j) = 0"
  shows "pt_ok r' pt (own(pg \<mapsto> (l, 512 * k + i)))"
  unfolding pt_ok_def
proof (intro conjI allI impI)
  let ?own = "own(pg \<mapsto> (l, 512 * k + i))"
  note un = pt_ok_unserved [OF ok q]
  show "?own pt = Some (2, 0)" using pt_okD(1) [OF ok] pg(1) by auto
  show "inj_on ?own (dom ?own)"
  proof (rule inj_onI)
    fix a b assume "a \<in> dom ?own" "b \<in> dom ?own" "?own a = ?own b"
    then show "a = b" using un pt_okD(2) [OF ok] by (auto split: if_splits)
  qed
  show "\<forall>q \<in> dom ?own. page_aligned q \<and> q \<noteq> 0" using pt_okD(3) [OF ok] pg by (auto split: if_splits)
  fix q' l' k'
  show "l' \<le> 2" if "?own q' = Some (l', k')"
    using that pt_okD(6) [OF ok, of q' l' k'] pt_okD(6) [OF ok q(1)] by (auto split: if_splits)
  show "?own (PTE2PA (r' (blk q' 3 j))) = Some (l', 512 * k' + j)"
    if a: "?own q' = Some (Suc l', k')" "j < 512" "valid (r' (blk q' 3 j))" for j
  proof (cases "q' = pg")
    case True
    then show ?thesis using new [OF a(2)] a(3) by simp
  next
    case False
    then have o: "own q' = Some (Suc l', k')" using a(1) by simp
    show ?thesis
    proof (cases "blk q' 3 j = blk q 3 i")
      case True
      then have "l' = l" "k' = k" "j = i" using own_slot_eq [OF ok o q(1) a(2) q(2)] by auto
      then show ?thesis using old [OF o a(2)] True e(2) by simp
    next
      case f: False
      then have r: "r' (blk q' 3 j) = r (blk q' 3 j)" using old [OF o a(2)] by simp
      then have "own (PTE2PA (r (blk q' 3 j))) = Some (l', 512 * k' + j)" using pt_okD(4) [OF ok o a(2)] a(3) by simp
      then show ?thesis using r pg(1) by auto
    qed
  qed
  show "q' = pt \<or> (\<exists>q2. ?own q2 = Some (Suc l', k' div 512) \<and> valid (r' (blk q2 3 (k' mod 512))) \<and> PTE2PA (r' (blk q2 3 (k' mod 512))) = q')"
    if a: "?own q' = Some (l', k')"
  proof (cases "q' = pg")
    case True
    then have "l' = l" "k' div 512 = k" "k' mod 512 = i" using a q(2) by auto
    moreover have "?own q = Some (Suc l, k)" using q(1) pg(1) by auto
    moreover have "r' (blk q 3 i) = e" using old [OF q(1,2)] by simp
    ultimately show ?thesis using e True by blast
  next
    case False
    then have o: "own q' = Some (l', k')" using a by simp
    show ?thesis
    proof (rule disjCI)
      assume "\<not> (\<exists>q2. ?own q2 = Some (Suc l', k' div 512) \<and> valid (r' (blk q2 3 (k' mod 512))) \<and> PTE2PA (r' (blk q2 3 (k' mod 512))) = q')"
      moreover have "\<exists>q2. ?own q2 = Some (Suc l', k' div 512) \<and> valid (r' (blk q2 3 (k' mod 512))) \<and> PTE2PA (r' (blk q2 3 (k' mod 512))) = q'"
        if "q' \<noteq> pt"
      proof -
        obtain q2 where q2: "own q2 = Some (Suc l', k' div 512)" "valid (r (blk q2 3 (k' mod 512)))" "PTE2PA (r (blk q2 3 (k' mod 512))) = q'"
          using pt_okD(5) [OF ok o \<open>q' \<noteq> pt\<close>] by blast
        have "blk q2 3 (k' mod 512) \<noteq> blk q 3 i" using q2(2) q(3) by auto
        then have "r' (blk q2 3 (k' mod 512)) = r (blk q2 3 (k' mod 512))" using old [OF q2(1), of "k' mod 512"] by simp
        moreover have "?own q2 = Some (Suc l', k' div 512)" using q2(1) pg(1) by auto
        ultimately show ?thesis using q2 by metis
      qed
      ultimately show "q' = pt" by blast
    qed
  qed
qed

lemma leaf_at_add:
  assumes ok: "pt_ok r pt own" and q: "own q = Some (Suc l, k)" "i < 512" "\<not> valid (r (blk q 3 i))"
    and e: "valid e" "PTE2PA e = pg"
    and old: "\<And>q' x j. own q' = Some x \<Longrightarrow> j < 512 \<Longrightarrow> r' (blk q' 3 j) = (if blk q' 3 j = blk q 3 i then e else r (blk q' 3 j))"
    and new: "\<And>j. j < 512 \<Longrightarrow> r' (blk pg 3 j) = 0"
  shows "own q' = Some (m, vpn (Suc m) va) \<Longrightarrow> leaf_at m r' q' va = leaf_at m r q' va"
proof (induction m arbitrary: q')
  case 0
  have "blk q' 3 (vpn 0 va mod 512) \<noteq> blk q 3 i" using own_slot_eq [OF ok 0 q(1) _ q(2), of "vpn 0 va mod 512"] by simp
  then show ?case using old [OF 0, of "vpn 0 va mod 512"] by simp
next
  case (Suc m)
  let ?b = "blk q' 3 (vpn (Suc m) va mod 512)"
  show ?case
  proof (cases "?b = blk q 3 i")
    case True
    have "r' (blk pg 3 (vpn m va mod 512)) = 0" using new by simp
    then have "leaf_at m r' pg va = None" by (cases m) (simp_all add: Let_def)
    moreover have "r' ?b = e" using old [OF Suc.prems, of "vpn (Suc m) va mod 512"] True by simp
    ultimately show ?thesis using e q(3) True by (simp add: Let_def)
  next
    case False
    then have r: "r' ?b = r ?b" using old [OF Suc.prems, of "vpn (Suc m) va mod 512"] by simp
    show ?thesis
    proof (cases "valid (r ?b)")
      case True
      have "own (PTE2PA (r ?b)) = Some (m, vpn (Suc m) va)" using pt_okD(4) [OF ok Suc.prems _ True] by (simp add: vpn_split)
      then show ?thesis using Suc.IH r True by (simp add: Let_def)
    qed (simp add: r Let_def)
  qed
qed

section \<open>Tables in memory\<close>

definition pt_inv :: "mstate \<Rightarrow> u64 set \<Rightarrow> u64 \<Rightarrow> table_map \<Rightarrow> bool" where
  "pt_inv s L pt own \<longleftrightarrow> page_inv s L \<and> dom own \<subseteq> L \<and> pt_ok (\<lambda>p. get_pte p s) pt own"

definition leaf :: "mstate \<Rightarrow> u64 \<Rightarrow> u64 \<Rightarrow> u64 option" where
  "leaf s pt va = (if MAX_VA < va then None else leaf_at 2 (\<lambda>p. get_pte p s) pt va)"

lemma pt_invD:
  assumes "pt_inv s L pt own"
  shows "page_inv s L" "dom own \<subseteq> L" "pt_ok (\<lambda>p. get_pte p s) pt own" "own q = Some x \<Longrightarrow> q \<in> L"
  using assms unfolding pt_inv_def by auto

lemma get_set_pte: "aligned 3 p \<Longrightarrow> aligned 3 x \<Longrightarrow> get_pte x (set_pte p e s) = (if x = p then e else get_pte x s)"
  by (auto simp: get_pte_def set_pte_def put_ram_def load64_store64)

lemma page_inv_set_pte [simp]: "page_inv (set_pte p e s) L = page_inv s L"
  by (simp add: set_pte_def)

lemma root_vpn: "pt_ok r pt own \<Longrightarrow> va \<le> MAX_VA \<Longrightarrow> own pt = Some (2, vpn (Suc 2) va)"
  using pt_okD(1) vpn_top [of va] by (simp add: numeral_3_eq_3)

lemma walk_down_False:
  "walk_down False l q va s = (case walk_r l (\<lambda>p. get_pte p s) q va of None \<Rightarrow> (0, s) | Some p \<Rightarrow> (p, s))"
  by (induction l arbitrary: q) (simp_all add: slot_blk Let_def)

lemma walk_r_nonzero:
  assumes "pt_ok r pt own" "own q = Some (l, vpn (Suc l) va)" "walk_r l r q va = Some p"
  shows "p \<noteq> 0" "aligned 3 p"
proof -
  obtain q0 where q0: "own q0 = Some (0, vpn 1 va)" "p = blk q0 3 (vpn 0 va mod 512)"
    using walk_r_table [OF assms] by blast
  then show "p \<noteq> 0" "aligned 3 p"
    using pt_okD(3) [OF assms(1) q0(1)] blk3_nonzero blk3(2) by auto
qed

text \<open>Looking up without creating: the slot, when all tables on the way exist.\<close>

lemma pte_walk_False:
  assumes "pt_inv s L pt own" "va \<le> MAX_VA"
  shows "pte_walk pt va False s = (case walk_r 2 (\<lambda>p. get_pte p s) pt va of None \<Rightarrow> (0, s) | Some p \<Rightarrow> (p, s))"
    "walk_r 2 (\<lambda>p. get_pte p s) pt va = Some p \<Longrightarrow> p \<noteq> 0"
  using assms walk_down_False walk_r_nonzero(1) [OF pt_invD(3) [OF assms(1)] root_vpn [OF pt_invD(3) [OF assms(1)] assms(2)]]
  by (auto simp: pte_walk_def)

lemma pte_walk_leaf:
  assumes "pt_inv s L pt own"
  shows "leaf s pt va = (let p = fst (pte_walk pt va False s) in if p = 0 \<or> \<not> valid (get_pte p s) then None else Some (get_pte p s))"
    "snd (pte_walk pt va False s) = s"
proof -
  show "snd (pte_walk pt va False s) = s" by (auto simp: pte_walk_def walk_down_False split: option.splits)
  show "leaf s pt va = (let p = fst (pte_walk pt va False s) in if p = 0 \<or> \<not> valid (get_pte p s) then None else Some (get_pte p s))"
  proof (cases "MAX_VA < va")
    case False
    then have m: "va \<le> MAX_VA" by simp
    show ?thesis using pte_walk_False [OF assms m] m by (auto simp: leaf_def leaf_at_def Let_def split: option.splits)
  qed (simp add: leaf_def pte_walk_def)
qed

text \<open>
  How a state may change while tables are added: every new page is a table, translations stay,
  and no page but the tables changes.
\<close>

definition pt_grows :: "mstate \<times> u64 set \<times> table_map \<Rightarrow> u64 \<Rightarrow> mstate \<times> u64 set \<times> table_map \<Rightarrow> bool" where
  "pt_grows a pt b = (case (a, b) of ((s, L, own), (s', L', own')) \<Rightarrow>
     pt_inv s' L' pt own' \<and> own \<subseteq>\<^sub>m own' \<and> L' = L \<union> dom own' \<and> dom own' \<inter> (L - dom own) = {} \<and>
     (\<forall>z. PGROUNDDOWN z \<in> L - dom own \<longrightarrow> ram s' z = ram s z))"

lemma pt_grows_refl: "pt_inv s L pt own \<Longrightarrow> pt_grows (s, L, own) pt (s, L, own)"
  using pt_invD(2) [of s L pt own] by (auto simp: pt_grows_def)

lemma pt_growsD:
  assumes "pt_grows (s, L, own) pt (s', L', own')"
  shows "pt_inv s' L' pt own'" "own \<subseteq>\<^sub>m own'" "L' = L \<union> dom own'" "dom own' \<inter> (L - dom own) = {}"
    "PGROUNDDOWN z \<in> L - dom own \<Longrightarrow> ram s' z = ram s z"
  using assms unfolding pt_grows_def by blast+

lemma pt_grows_trans:
  assumes "pt_grows (s, L, own) pt (s1, L1, own1)" "pt_grows (s1, L1, own1) pt (s2, L2, own2)"
  shows "pt_grows (s, L, own) pt (s2, L2, own2)"
proof -
  note g1 = pt_growsD [OF assms(1)] and g2 = pt_growsD [OF assms(2)]
  have sub: "L - dom own \<subseteq> L1 - dom own1" using g1(3,4) by blast
  have d: "dom own1 \<subseteq> dom own2" using g2(2) by (rule map_le_implies_dom_le)
  have "pt_inv s2 L2 pt own2" "own \<subseteq>\<^sub>m own2" using g2(1) g1(2) g2(2) map_le_trans by blast+
  moreover have "L2 = L \<union> dom own2" using g1(3) g2(3) d by blast
  moreover have "dom own2 \<inter> (L - dom own) = {}" using g2(4) sub by blast
  moreover have "ram s2 z = ram s z" if "PGROUNDDOWN z \<in> L - dom own" for z
    using g1(5) [OF that] g2(5) [of z] that sub by auto
  ultimately show ?thesis unfolding pt_grows_def by blast
qed

lemma new_page:
  assumes "page_inv s L" "alloc_page s = (pg, s1)" "pg \<noteq> 0"
  shows "page_aligned pg" "pg \<notin> L" "page_inv s1 (insert pg L)" "ram s1 = mem_fill (ram s) pg 0 4096"
    "\<And>p. aligned 3 p \<Longrightarrow> get_pte p s1 = (if PGROUNDDOWN p = pg then 0 else get_pte p s)"
    "\<And>z. PGROUNDDOWN z \<noteq> pg \<Longrightarrow> ram s1 z = ram s z"
proof -
  note a = pga.alloc_fresh [OF assms(1), of pg s1, unfolded kalloc_def, OF assms(2,3)]
  show "page_aligned pg" "pg \<notin> L" "page_inv s1 (insert pg L)" "ram s1 = mem_fill (ram s) pg 0 4096" using a by auto
  show "\<And>p. aligned 3 p \<Longrightarrow> get_pte p s1 = (if PGROUNDDOWN p = pg then 0 else get_pte p s)"
    using a load64_fill_page by (simp add: get_pte_def)
  show "\<And>z. PGROUNDDOWN z \<noteq> pg \<Longrightarrow> ram s1 z = ram s z"
    using a in_page [of pg] by (auto simp: mem_fill_def)
qed

lemma set_pte_other: "aligned 3 p \<Longrightarrow> PGROUNDDOWN z \<noteq> PGROUNDDOWN p \<Longrightarrow> ram (set_pte p e s) z = ram s z"
proof -
  assume a: "aligned 3 p" "PGROUNDDOWN z \<noteq> PGROUNDDOWN p"
  have "\<not> unat (z - p) < 8"
  proof
    assume "unat (z - p) < 8"
    then have "PGROUNDDOWN (p + (z - p)) = PGROUNDDOWN p" using a(1) by (intro PGROUNDDOWN_block [of 3]) simp_all
    then show False using a(2) by simp
  qed
  then show ?thesis by (simp add: set_pte_def put_ram_def store64_def)
qed

lemma add_table:
  assumes inv: "pt_inv s L pt own" and q: "own q = Some (Suc l, k)" "i < 512" "\<not> valid (get_pte (blk q 3 i) s)"
    and al: "alloc_page s = (pg, s1)" "pg \<noteq> 0"
    and s2: "s2 = set_pte (blk q 3 i) (PA2PTE pg OR PTE_V) s1" and own': "own' = own(pg \<mapsto> (l, 512 * k + i))"
  shows "pt_grows (s, L, own) pt (s2, insert pg L, own')" "leaf s2 pt va = leaf s pt va" "get_pte (blk q 3 i) s2 = PA2PTE pg OR PTE_V"
    "PTE2PA (PA2PTE pg OR PTE_V) = pg"
proof -
  note ok = pt_invD(3) [OF inv] and n = new_page [OF pt_invD(1) [OF inv] al]
  have pg: "own pg = None" using n(2) pt_invD(4) [OF inv, of pg] by (cases "own pg") auto
  have qa: "page_aligned q" "q \<in> L" using pt_okD(3) [OF ok q(1)] pt_invD(4) [OF inv q(1)] by auto
  note b = blk3 [OF qa(1) q(2)]
  show P: "PTE2PA (PA2PTE pg OR PTE_V) = pg" by (rule PTE2PA_PA2PTE [OF n(1)]) (simp add: PTE_V_1)
  have r2: "get_pte p s2 = (if p = blk q 3 i then PA2PTE pg OR PTE_V else if PGROUNDDOWN p = pg then 0 else get_pte p s)"
    if "aligned 3 p" for p using get_set_pte [OF b(2) that] n(5) [OF that] s2 by simp
  show "get_pte (blk q 3 i) s2 = PA2PTE pg OR PTE_V" using r2 [OF b(2)] by simp
  have old: "get_pte (blk q' 3 j) s2 = (if blk q' 3 j = blk q 3 i then PA2PTE pg OR PTE_V else get_pte (blk q' 3 j) s)"
    if "own q' = Some x" "j < 512" for q' x j
  proof -
    have "page_aligned q'" "q' \<noteq> pg" using pt_okD(3) [OF ok that(1)] pg that(1) by auto
    then show ?thesis using r2 blk3 [of q' j] that(2) by auto
  qed
  have new: "get_pte (blk pg 3 j) s2 = 0" if "j < 512" for j
    using r2 blk3 [OF n(1) that] b qa(2) n(2) by auto
  have ok': "pt_ok (\<lambda>p. get_pte p s2) pt own'"
    unfolding own' by (rule pt_ok_add [OF ok q pg n(1) al(2) valid_or_V P old new])
  have "ram s2 z = ram s z" if "PGROUNDDOWN z \<in> L" "PGROUNDDOWN z \<noteq> q" for z
  proof -
    have "PGROUNDDOWN z \<noteq> pg" using that(1) n(2) by auto
    then show ?thesis using set_pte_other [OF b(2), of z] that(2) n(6) [of z] b(1) s2 by simp
  qed
  then show "pt_grows (s, L, own) pt (s2, insert pg L, own')"
    using ok' n(2,3) pt_invD(2) [OF inv] q(1) pg s2 unfolding pt_grows_def pt_inv_def own'
    by (auto simp: map_le_def)
  show "leaf s2 pt va = leaf s pt va"
    using leaf_at_add [OF ok q valid_or_V P old new root_vpn [OF ok, of va]] by (simp add: leaf_def)
qed

lemma child_entry:
  assumes ok: "pt_ok r pt own" and q: "own q = Some (Suc l, k)" "own q1 = Some (l, 512 * k + i)" "i < 512"
  shows "valid (r (blk q 3 i)) \<and> PTE2PA (r (blk q 3 i)) = q1"
proof -
  have "l \<noteq> 2" using pt_okD(6) [OF ok q(1)] by simp
  then have "q1 \<noteq> pt" using pt_okD(1) [OF ok] q(2) by auto
  then obtain q' where q': "own q' = Some (Suc l, (512 * k + i) div 512)" "valid (r (blk q' 3 ((512 * k + i) mod 512)))"
    "PTE2PA (r (blk q' 3 ((512 * k + i) mod 512))) = q1" using pt_okD(5) [OF ok q(2)] by blast
  have d: "(512 * k + i) div 512 = k" "(512 * k + i) mod 512 = i" using q(3) by auto
  have "q' = q" using pt_okD(2) [OF ok _ q(1)] q'(1) d(1) by simp
  then show ?thesis using q'(2,3) d(2) by simp
qed

lemma walk_create:
  "pt_inv s L pt own \<Longrightarrow> own q = Some (l, vpn (Suc l) va) \<Longrightarrow> walk_down True l q va s = (p, s') \<Longrightarrow>
   \<exists>L' own'. pt_grows (s, L, own) pt (s', L', own') \<and> (\<forall>x. leaf s' pt x = leaf s pt x) \<and>
     (p = 0 \<or> walk_r l (\<lambda>p. get_pte p s') q va = Some p)"
proof (induction l arbitrary: q s L own)
  case 0
  then show ?case using pt_grows_refl [OF 0(1)] by (auto simp: slot_blk)
next
  case (Suc l)
  let ?i = "vpn (Suc l) va mod 512"
  let ?e = "get_pte (blk q 3 ?i) s"
  note ok = pt_invD(3) [OF Suc.prems(1)]
  have step: "walk_r (Suc l) (\<lambda>p. get_pte p s') q va = Some p"
    if g: "pt_grows (s1, L1, own1) pt (s', L', own')" and o: "own1 q = own q" "own1 q1 = Some (l, vpn (Suc l) va)"
      and w: "walk_r l (\<lambda>p. get_pte p s') q1 va = Some p" for s1 L1 own1 L' own' q1
  proof -
    have "own' q = own q" "own' q1 = Some (l, vpn (Suc l) va)" and ok': "pt_ok (\<lambda>p. get_pte p s') pt own'"
      using g o Suc.prems(2) unfolding pt_grows_def pt_inv_def map_le_def by (auto simp: dom_def)
    then have "valid (get_pte (blk q 3 ?i) s')" "PTE2PA (get_pte (blk q 3 ?i) s') = q1"
      using child_entry [OF ok', of q l "vpn (Suc (Suc l)) va" q1 ?i] Suc.prems(2) by (auto simp: vpn_split)
    then show ?thesis using w by (simp add: Let_def)
  qed
  show ?case
  proof (cases "valid ?e")
    case True
    have o: "own (PTE2PA ?e) = Some (l, vpn (Suc l) va)" using pt_okD(4) [OF ok Suc.prems(2) _ True] by (simp add: vpn_split)
    have w: "walk_down True l (PTE2PA ?e) va s = (p, s')" using Suc.prems(3) True by (simp add: slot_blk Let_def)
    obtain L' own' where g: "pt_grows (s, L, own) pt (s', L', own')" "\<forall>x. leaf s' pt x = leaf s pt x"
      "p = 0 \<or> walk_r l (\<lambda>p. get_pte p s') (PTE2PA ?e) va = Some p" using Suc.IH [OF Suc.prems(1) o w] by blast
    show ?thesis using g step [OF g(1) refl o] by blast
  next
    case False
    obtain pg s1 where al: "alloc_page s = (pg, s1)" by (cases "alloc_page s")
    show ?thesis
    proof (cases "pg = 0")
      case True
      then have "s1 = s" using pga.alloc_null [OF pt_invD(1) [OF Suc.prems(1)]] al by (simp add: kalloc_def)
      then show ?thesis using Suc.prems False al True pt_grows_refl [OF Suc.prems(1)] by (auto simp: slot_blk Let_def)
    next
      case pg: False
      have n: "own pg = None"
        using new_page(2) [OF pt_invD(1) [OF Suc.prems(1)] al pg] pt_invD(4) [OF Suc.prems(1), of pg] by (cases "own pg") auto
      define s2 where "s2 = set_pte (blk q 3 ?i) (PA2PTE pg OR PTE_V) s1"
      define own2 where "own2 = own(pg \<mapsto> (l, 512 * vpn (Suc (Suc l)) va + ?i))"
      have i: "?i < 512" by simp
      note t = add_table [OF Suc.prems(1,2) i False al pg s2_def own2_def]
      have inv2: "pt_inv s2 (insert pg L) pt own2" using t(1) unfolding pt_grows_def by blast
      have o: "own2 pg = Some (l, vpn (Suc l) va)" by (simp add: own2_def vpn_split)
      have w: "walk_down True l pg va s2 = (p, s')" using Suc.prems(3) False al pg by (simp add: slot_blk Let_def s2_def)
      obtain L' own' where g: "pt_grows (s2, insert pg L, own2) pt (s', L', own')" "\<forall>x. leaf s' pt x = leaf s2 pt x"
        "p = 0 \<or> walk_r l (\<lambda>p. get_pte p s') pg va = Some p" using Suc.IH [OF inv2 o w] by blast
      have "own2 q = own q" using Suc.prems(2) n by (auto simp: own2_def)
      then have "p = 0 \<or> walk_r (Suc l) (\<lambda>p. get_pte p s') q va = Some p" using g(3) step [OF g(1) _ o] by blast
      then show ?thesis using g(2) t(2) pt_grows_trans [OF t(1) g(1)] by auto
    qed
  qed
qed

section \<open>The translation as a map\<close>

text \<open>The leaf entries of the page-aligned addresses.\<close>

definition maps :: "mstate \<Rightarrow> u64 \<Rightarrow> u64 \<rightharpoonup> u64" where
  "maps s pt va = (if page_aligned va then leaf s pt va else None)"

lemma maps_cong: "(\<And>x. leaf s' pt x = leaf s pt x) \<Longrightarrow> maps s' pt = maps s pt"
  by (simp add: maps_def fun_eq_iff)

lemma pte_walk_create:
  assumes inv: "pt_inv s L pt own" and w: "pte_walk pt va True s = (p, s')"
  obtains L' own' where "pt_grows (s, L, own) pt (s', L', own')" "maps s' pt = maps s pt" "leaf s' pt va = leaf s pt va"
    "p = 0 \<or> va \<le> MAX_VA \<and> walk_r 2 (\<lambda>p. get_pte p s') pt va = Some p"
proof (cases "MAX_VA < va")
  case True
  then have "p = 0" "s' = s" using w by (simp_all add: pte_walk_def)
  then show ?thesis using that [of L own] pt_grows_refl [OF inv] by simp
next
  case False
  then have m: "va \<le> MAX_VA" "walk_down True 2 pt va s = (p, s')" using w by (simp_all add: pte_walk_def)
  obtain L' own' where "pt_grows (s, L, own) pt (s', L', own')" "\<forall>x. leaf s' pt x = leaf s pt x"
     "p = 0 \<or> walk_r 2 (\<lambda>p. get_pte p s') pt va = Some p"
    using walk_create [OF inv root_vpn [OF pt_invD(3) [OF inv] m(1)] m(2)] by blast
  then show ?thesis using that [of L' own'] maps_cong [of s' pt s] m(1) by auto
qed

lemma page_vpn_eq: "page_aligned x \<Longrightarrow> page_aligned va \<Longrightarrow> vpn 0 x = vpn 0 va \<longleftrightarrow> x = va"
  by (simp add: vpn_0_page)

lemma set_leaf:
  assumes inv: "pt_inv s L pt own" and va: "va \<le> MAX_VA" "page_aligned va"
    and w: "walk_r 2 (\<lambda>p. get_pte p s) pt va = Some p"
  shows "pt_grows (s, L, own) pt (set_pte p e s, L, own)"
    "maps (set_pte p e s) pt = (maps s pt)(va := if valid e then Some e else None)"
proof -
  note ok = pt_invD(3) [OF inv]
  obtain q0 where q0: "own q0 = Some (0, vpn 1 va)" "p = blk q0 3 (vpn 0 va mod 512)"
    using walk_r_table [OF ok root_vpn [OF ok va(1)] w] by blast
  have qa: "page_aligned q0" using pt_okD(3) [OF ok q0(1)] by simp
  then have p: "aligned 3 p" "PGROUNDDOWN p = q0" using blk3 q0(2) by simp_all
  have r': "get_pte (blk q 3 i) (set_pte p e s) = (if blk q 3 i = blk q0 3 (vpn 0 va mod 512) then e else get_pte (blk q 3 i) s)"
    if "own q = Some x" "i < 512" for q x i
    using get_set_pte [OF p(1)] blk3(2) pt_okD(3) [OF ok that(1)] that(2) q0(2) by simp
  note u = leaf_update [OF ok q0(1) r' w [unfolded q0(2)]]
  have "ram (set_pte p e s) z = ram s z" if "PGROUNDDOWN z \<in> L - dom own" for z
  proof -
    have "PGROUNDDOWN z \<noteq> PGROUNDDOWN p" using that p(2) q0(1) by auto
    then show ?thesis using set_pte_other [OF p(1)] by simp
  qed
  then show "pt_grows (s, L, own) pt (set_pte p e s, L, own)"
    using u(1) pt_invD(1,2) [OF inv] by (auto simp: pt_grows_def pt_inv_def)
  show "maps (set_pte p e s) pt = (maps s pt)(va := if valid e then Some e else None)"
    using u(2) va page_vpn_eq [OF _ va(2)] by (auto simp: maps_def leaf_def fun_eq_iff)
qed

section \<open>Mapping a run of pages\<close>

fun map_run :: "(u64 \<rightharpoonup> u64) \<Rightarrow> u64 \<Rightarrow> u64 \<Rightarrow> u64 \<Rightarrow> nat \<Rightarrow> u64 \<rightharpoonup> u64" where
  "map_run m va pa f 0 = m"
| "map_run m va pa f (Suc n) = map_run (m(va \<mapsto> PA2PTE pa OR f OR PTE_V)) (va + 4096) (pa + 4096) f n"

lemma page_aligned_next [simp]: "page_aligned a \<Longrightarrow> page_aligned (a + 4096)"
  by (rule aligned_add) (simp_all add: aligned_def)

lemma page_run_neq:
  assumes "0 < n" "n < 2 ^ 52"
  shows "a + of_nat n * 4096 \<noteq> (a :: u64)"
proof
  assume "a + of_nat n * 4096 = a"
  then have "(of_nat (n * 4096) :: u64) = 0" by simp
  moreover have "unat (of_nat (n * 4096) :: u64) = n * 4096" using assms(2) by (intro unat_of_nat_small) simp
  ultimately show False using assms(1) by simp
qed

end
