(* ===== verification/VmOps.thy ===== *)
theory VmOps
  imports VmInv
begin

text \<open>
  What the operations of mm/vm.c do to the translation of a page table.
\<close>

section \<open>Mapping\<close>

lemma map_run_other: "page_aligned x \<Longrightarrow> (\<And>j. j < n \<Longrightarrow> x \<noteq> va + of_nat j * 4096) \<Longrightarrow> map_run m va pa f n x = m x"
proof (induction n arbitrary: m va pa)
  case (Suc n)
  have "x \<noteq> va" using Suc.prems(2) [of 0] by simp
  moreover have "x \<noteq> va + 4096 + of_nat j * 4096" if "j < n" for j
    using Suc.prems(2) [of "Suc j"] that by (simp add: algebra_simps)
  ultimately show ?case using Suc.IH [OF Suc.prems(1), of "va + 4096"] by simp
qed simp

lemma valid_entry: "valid (a OR b OR PTE_V)"
  by (simp add: PTE_V_1 and_one_eq mod2_eq_if even_or_iff)

lemma map_one:
  assumes inv: "pt_inv s L pt own" and a: "page_aligned a" and w: "pte_walk pt a True s = (p, s1)"
  obtains (full) L1 own1 where "p = 0" "pt_grows (s, L, own) pt (s1, L1, own1)" "maps s1 pt = maps s pt"
  | (mapped) "p \<noteq> 0" "valid (get_pte p s1)" "maps s pt a \<noteq> None"
  | (new) L1 own1 where "p \<noteq> 0" "\<not> valid (get_pte p s1)"
      "\<And>e. valid e \<Longrightarrow> pt_grows (s, L, own) pt (set_pte p e s1, L1, own1) \<and> maps (set_pte p e s1) pt = (maps s pt)(a \<mapsto> e)"
proof -
  obtain L1 own1 where g: "pt_grows (s, L, own) pt (s1, L1, own1)" "maps s1 pt = maps s pt" "leaf s1 pt a = leaf s pt a"
    "p = 0 \<or> a \<le> MAX_VA \<and> walk_r 2 (\<lambda>p. get_pte p s1) pt a = Some p" by (rule pte_walk_create [OF inv w])
  note inv1 = pt_growsD(1) [OF g(1)]
  show ?thesis
  proof (cases "p = 0")
    case True
    then show ?thesis using full g(1,2) by blast
  next
    case False
    then have m: "a \<le> MAX_VA" "walk_r 2 (\<lambda>p. get_pte p s1) pt a = Some p" using g(4) by auto
    show ?thesis
    proof (cases "valid (get_pte p s1)")
      case True
      then have "leaf s1 pt a \<noteq> None" using m by (simp add: leaf_def leaf_at_def)
      then show ?thesis using mapped [OF False True] g(3) a by (simp add: maps_def)
    next
      case nv: False
      note sl = set_leaf [OF inv1 m(1) a m(2)]
      show ?thesis using new [OF False nv, of L1 own1] sl g(2) pt_grows_trans [OF g(1) sl(1)] by simp
    qed
  qed
qed

lemma mappages_loop_ok:
  "pt_inv s L pt own \<Longrightarrow> page_aligned a \<Longrightarrow> lst = a + of_nat n * 4096 \<Longrightarrow> n < 2 ^ 52 \<Longrightarrow>
   \<exists>r. mappages_loop pt a lst pa perm s = Some r \<and>
     (case r of Inl e \<Rightarrow> e = Panic ''mappages: remap'' \<and> (\<exists>j \<le> n. maps s pt (a + of_nat j * 4096) \<noteq> None)
      | Inr (st, s') \<Rightarrow> \<exists>k L' own'. pt_grows (s, L, own) pt (s', L', own') \<and>
          maps s' pt = map_run (maps s pt) a pa (scast perm) k \<and> (st = 0 \<and> k = Suc n \<or> st = - 1 \<and> k \<le> n))"
proof (induction n arbitrary: s L own a pa)
  case (0 s L own a pa)
  obtain p s1 where w: "pte_walk pt a True s = (p, s1)" by (cases "pte_walk pt a True s")
  from 0(1,2) w show ?case
  proof (cases rule: map_one)
    case full
    then show ?thesis using w by (subst mappages_loop.simps) (auto intro!: exI [of _ "0::nat"])
  next
    case mapped
    then show ?thesis using w by (subst mappages_loop.simps) auto
  next
    case (new L1 own1)
    let ?e = "PA2PTE pa OR scast perm OR PTE_V"
    have "mappages_loop pt a lst pa perm s = Some (Inr (0, set_pte p ?e s1))"
      using w new(1,2) 0(3) by (subst mappages_loop.simps) (simp add: Let_def)
    moreover have "valid ?e" by (rule valid_entry)
    ultimately show ?thesis using new(3) [of ?e] by (auto intro!: exI [of _ "1::nat"])
  qed
next
  case (Suc n s L own a pa)
  obtain p s1 where w: "pte_walk pt a True s = (p, s1)" by (cases "pte_walk pt a True s")
  have ne: "a \<noteq> lst" using page_run_neq [OF zero_less_Suc Suc.prems(4), of a] unfolding Suc.prems(3) by (rule not_sym)
  from Suc.prems(1,2) w show ?case
  proof (cases rule: map_one)
    case full
    then show ?thesis using w by (subst mappages_loop.simps) (auto intro!: exI [of _ "0::nat"])
  next
    case mapped
    then show ?thesis using w by (subst mappages_loop.simps) (auto intro!: exI [of _ "0::nat"])
  next
    case (new L1 own1)
    let ?e = "PA2PTE pa OR scast perm OR PTE_V"
    define s2 where "s2 = set_pte p ?e s1"
    have "valid ?e" by (rule valid_entry)
    then have g: "pt_grows (s, L, own) pt (s2, L1, own1)" "maps s2 pt = (maps s pt)(a \<mapsto> ?e)"
      using new(3) by (auto simp: s2_def)
    have step: "mappages_loop pt a lst pa perm s = mappages_loop pt (a + 4096) lst (pa + 4096) perm s2"
      using w new(1,2) ne by (subst mappages_loop.simps) (simp add: Let_def s2_def PG_4K_SIZE_def)
    have lst: "lst = a + 4096 + of_nat n * 4096" using Suc.prems(3) by (simp add: algebra_simps)
    obtain r where r: "mappages_loop pt (a + 4096) lst (pa + 4096) perm s2 = Some r"
      "case r of Inl e \<Rightarrow> e = Panic ''mappages: remap'' \<and> (\<exists>j \<le> n. maps s2 pt (a + 4096 + of_nat j * 4096) \<noteq> None)
       | Inr (st, s') \<Rightarrow> \<exists>k L' own'. pt_grows (s2, L1, own1) pt (s', L', own') \<and>
          maps s' pt = map_run (maps s2 pt) (a + 4096) (pa + 4096) (scast perm) k \<and> (st = 0 \<and> k = Suc n \<or> st = - 1 \<and> k \<le> n)"
      using Suc.IH [OF pt_growsD(1) [OF g(1)] page_aligned_next [OF Suc.prems(2)] lst, of "pa + 4096"] Suc.prems(4) by auto
    show ?thesis
    proof (cases r)
      case (Inl e)
      then obtain j where j: "e = Panic ''mappages: remap''" "j \<le> n" "maps s2 pt (a + 4096 + of_nat j * 4096) \<noteq> None" using r(2) by auto
      have "a + of_nat (Suc j) * 4096 \<noteq> a" using page_run_neq [of "Suc j" a] j(2) Suc.prems(4) by simp
      then have "maps s pt (a + of_nat (Suc j) * 4096) \<noteq> None" using j(3) g(2) by (simp add: algebra_simps)
      then show ?thesis using step r(1) Inl j(1,2) by (intro exI [of _ r]) (auto intro!: exI [of _ "Suc j"])
    next
      case (Inr x)
      obtain st s' where x: "x = (st, s')" by (cases x)
      then obtain k L' own' where k: "pt_grows (s2, L1, own1) pt (s', L', own')"
        "maps s' pt = map_run (maps s2 pt) (a + 4096) (pa + 4096) (scast perm) k" "st = 0 \<and> k = Suc n \<or> st = - 1 \<and> k \<le> n"
        using r(2) Inr by auto
      have "maps s' pt = map_run (maps s pt) a pa (scast perm) (Suc k)" using k(2) g(2) by (simp add: or.assoc)
      then show ?thesis using step r(1) Inr x pt_grows_trans [OF g(1) k(1)] k(3)
        by (intro exI [of _ r]) (auto intro!: exI [of _ "Suc k"])
    qed
  qed
qed

lemma mod_page: "(a :: u64) mod PG_4K_SIZE = 0 \<longleftrightarrow> page_aligned a"
  by (simp add: PG_4K_SIZE_def aligned_def word_unat_eq_iff unat_mod dvd_eq_mod_eq_0)

lemma mappages_ok:
  assumes inv: "pt_inv s L pt own" and al: "page_aligned va" "page_aligned sz" "sz \<noteq> 0"
  shows "\<exists>r. mappages pt va sz pa perm s = Some r \<and>
     (case r of Inl e \<Rightarrow> e = Panic ''mappages: remap'' \<and> (\<exists>j < unat sz div 4096. maps s pt (va + of_nat j * 4096) \<noteq> None)
      | Inr (st, s') \<Rightarrow> \<exists>k L' own'. pt_grows (s, L, own) pt (s', L', own') \<and>
          maps s' pt = map_run (maps s pt) va pa (scast perm) k \<and>
          (st = 0 \<and> k = unat sz div 4096 \<or> st = - 1 \<and> k < unat sz div 4096))"
proof -
  define n where "n = unat sz div 4096 - 1"
  have d: "4096 dvd unat sz" using al(2) by (simp add: aligned_def)
  have "unat sz \<noteq> 0" using al(3) by (simp add: unat_eq_0)
  then have "4096 \<le> unat sz" using d by (auto dest: dvd_imp_le)
  then have n1: "unat sz div 4096 = Suc n" "unat sz = 4096 * Suc n" using d by (auto simp: n_def)
  then have nb: "n < 2 ^ 52" using unat_bound [of sz] by simp
  have "of_nat (unat sz) = (of_nat (4096 * Suc n) :: u64)" using n1(2) by (simp only:)
  then have "sz = 4096 * of_nat n + 4096" by (simp add: algebra_simps)
  then have lst: "va + sz - PG_4K_SIZE = va + of_nat n * 4096" by (simp add: PG_4K_SIZE_def algebra_simps)
  have "mappages pt va sz pa perm s = mappages_loop pt va (va + sz - PG_4K_SIZE) pa perm s"
    using al mod_page by (simp add: mappages_def)
  then show ?thesis
    using mappages_loop_ok [OF inv al(1) lst nb, of pa perm] unfolding n1(1) less_Suc_eq_le by (simp only:)
qed

section \<open>What does not touch the tables\<close>

lemma get_pte_cong:
  assumes "aligned 3 p" "\<And>z. PGROUNDDOWN z = PGROUNDDOWN p \<Longrightarrow> ram s' z = ram s z"
  shows "get_pte p s' = get_pte p s"
  unfolding get_pte_def
proof (rule load64_cong)
  fix i :: nat assume "i < 8"
  then have "PGROUNDDOWN (p + of_nat i) = PGROUNDDOWN p"
    using assms(1) by (intro PGROUNDDOWN_block [of 3]) (simp_all add: unat_of_nat_small)
  then show "ram s' (p + of_nat i) = ram s (p + of_nat i)" by (rule assms(2))
qed

lemma pt_frame:
  assumes inv: "pt_inv s L pt own" and inv': "page_inv s' L'" "dom own \<subseteq> L'"
    and same: "\<And>z. PGROUNDDOWN z \<in> dom own \<Longrightarrow> ram s' z = ram s z"
  shows "pt_inv s' L' pt own" "maps s' pt = maps s pt"
    "va \<le> MAX_VA \<Longrightarrow> walk_r 2 (\<lambda>p. get_pte p s') pt va = walk_r 2 (\<lambda>p. get_pte p s) pt va"
proof -
  note ok = pt_invD(3) [OF inv]
  have eq: "get_pte (blk q 3 i) s' = get_pte (blk q 3 i) s" if "own q = Some x" "i < 512" for q x i
    using blk3 [of q i] pt_okD(3) [OF ok that(1)] that same by (intro get_pte_cong) auto
  have ok': "pt_ok (\<lambda>p. get_pte p s') pt own" by (rule pt_ok_cong [OF ok]) (rule eq)
  then show "pt_inv s' L' pt own" using inv' by (simp add: pt_inv_def)
  have w: "walk_r 2 (\<lambda>p. get_pte p s') pt va = walk_r 2 (\<lambda>p. get_pte p s) pt va" if "va \<le> MAX_VA" for va
    by (rule walk_r_cong [OF ok eq root_vpn [OF ok that]])
  then show "va \<le> MAX_VA \<Longrightarrow> walk_r 2 (\<lambda>p. get_pte p s') pt va = walk_r 2 (\<lambda>p. get_pte p s) pt va" .
  have "leaf s' pt va = leaf s pt va" for va
  proof (cases "MAX_VA < va")
    case False
    then have m: "va \<le> MAX_VA" by simp
    have "get_pte p s' = get_pte p s" if wp: "walk_r 2 (\<lambda>p. get_pte p s) pt va = Some p" for p
    proof -
      obtain q0 where "own q0 = Some (0, vpn 1 va)" "p = blk q0 3 (vpn 0 va mod 512)"
        using walk_r_table [OF ok root_vpn [OF ok m] wp] by blast
      then show ?thesis using eq by simp
    qed
    then show ?thesis using w [OF m] m by (simp add: leaf_def leaf_at_def split: option.splits)
  qed (simp add: leaf_def)
  then show "maps s' pt = maps s pt" by (rule maps_cong)
qed

section \<open>Unmapping\<close>

lemma unmap_look:
  assumes inv: "pt_inv s L pt own" and a: "page_aligned a"
  defines "p \<equiv> fst (pte_walk pt a False s)"
  shows "maps s pt a = (if p = 0 \<or> \<not> valid (get_pte p s) then None else Some (get_pte p s))"
    "p \<noteq> 0 \<Longrightarrow> a \<le> MAX_VA \<and> walk_r 2 (\<lambda>p. get_pte p s) pt a = Some p"
proof -
  show "maps s pt a = (if p = 0 \<or> \<not> valid (get_pte p s) then None else Some (get_pte p s))"
    using pte_walk_leaf(1) [OF inv, of a] a by (simp add: maps_def p_def Let_def)
  show "a \<le> MAX_VA \<and> walk_r 2 (\<lambda>p. get_pte p s) pt a = Some p" if "p \<noteq> 0"
  proof -
    have m: "a \<le> MAX_VA" using that by (auto simp: p_def pte_walk_def split: if_splits)
    then show ?thesis using that pte_walk_False(1) [OF inv m] by (auto simp: p_def split: option.splits)
  qed
qed

definition run_frames :: "(u64 \<rightharpoonup> u64) \<Rightarrow> u64 \<Rightarrow> nat \<Rightarrow> u64 set" where
  "run_frames m a n = {PTE2PA e | j e. j < n \<and> m (a + of_nat j * 4096) = Some e}"

text \<open>The frames of the run are pages of their own: live, no tables, and none mapped twice.\<close>

definition own_frames :: "(u64 \<rightharpoonup> u64) \<Rightarrow> u64 set \<Rightarrow> u64 \<Rightarrow> nat \<Rightarrow> bool" where
  "own_frames m K a n \<longleftrightarrow> run_frames m a n \<subseteq> K \<and>
     (\<forall>i < n. \<forall>j < n. \<forall>d e. m (a + of_nat i * 4096) = Some d \<longrightarrow> m (a + of_nat j * 4096) = Some e \<longrightarrow>
        PTE2PA d = PTE2PA e \<longrightarrow> i = j)"

lemma page_step: "a + 4096 + of_nat j * 4096 = a + of_nat (Suc j) * (4096 :: u64)"
  by (simp add: algebra_simps)

lemma run_frames_Suc: "run_frames m a (Suc n) = (case m a of None \<Rightarrow> {} | Some e \<Rightarrow> {PTE2PA e}) \<union> run_frames m (a + 4096) n"
proof (rule set_eqI, rule iffI)
  fix x assume "x \<in> run_frames m a (Suc n)"
  then obtain j e where j: "j < Suc n" "m (a + of_nat j * 4096) = Some e" "x = PTE2PA e" unfolding run_frames_def by blast
  show "x \<in> (case m a of None \<Rightarrow> {} | Some e \<Rightarrow> {PTE2PA e}) \<union> run_frames m (a + 4096) n"
  proof (cases j)
    case 0
    then show ?thesis using j by simp
  next
    case (Suc i)
    then have "i < n" "m (a + 4096 + of_nat i * 4096) = Some e" using j(1,2) by (simp_all only: page_step Suc_less_eq)
    then show ?thesis using j(3) unfolding run_frames_def by blast
  qed
next
  fix x assume "x \<in> (case m a of None \<Rightarrow> {} | Some e \<Rightarrow> {PTE2PA e}) \<union> run_frames m (a + 4096) n"
  then consider e where "m a = Some e" "x = PTE2PA e" | j e where "j < n" "m (a + of_nat (Suc j) * 4096) = Some e" "x = PTE2PA e"
    unfolding run_frames_def page_step by (auto split: option.splits)
  then show "x \<in> run_frames m a (Suc n)"
  proof cases
    case 1
    then have "0 < Suc n \<and> m (a + of_nat 0 * 4096) = Some e" by simp
    then show ?thesis using 1(2) unfolding run_frames_def by blast
  next
    case 2
    then have "Suc j < Suc n" by simp
    then show ?thesis using 2 unfolding run_frames_def by blast
  qed
qed

lemma own_framesD:
  assumes "own_frames m K a n" "i < n" "j < n" "m (a + of_nat i * 4096) = Some d" "m (a + of_nat j * 4096) = Some e" "PTE2PA d = PTE2PA e"
  shows "i = j"
  using assms unfolding own_frames_def by blast

lemma own_frames_Suc:
  assumes o: "own_frames m K a (Suc n)"
  shows "own_frames m K (a + 4096) n" "m a = Some e \<Longrightarrow> PTE2PA e \<in> K"
    "m a = Some e \<Longrightarrow> PTE2PA e \<notin> run_frames m (a + 4096) n"
proof -
  note i = page_step
  have sub: "run_frames m a (Suc n) \<subseteq> K" using o by (simp add: own_frames_def)
  show "own_frames m K (a + 4096) n"
    unfolding own_frames_def
  proof (intro conjI allI impI)
    show "run_frames m (a + 4096) n \<subseteq> K" using sub by (auto simp: run_frames_Suc)
    fix k j d e assume a: "k < n" "j < n" "m (a + 4096 + of_nat k * 4096) = Some d" "m (a + 4096 + of_nat j * 4096) = Some e"
      "PTE2PA d = PTE2PA e"
    from own_framesD [OF o _ _ a(3,4) [unfolded i] a(5)] show "k = j" using a(1,2) by simp
  qed
  show "m a = Some e \<Longrightarrow> PTE2PA e \<in> K" using sub by (auto simp: run_frames_Suc)
  show "PTE2PA e \<notin> run_frames m (a + 4096) n" if e: "m a = Some e"
  proof
    assume "PTE2PA e \<in> run_frames m (a + 4096) n"
    then obtain j d where j: "j < n" "m (a + of_nat (Suc j) * 4096) = Some d" "PTE2PA e = PTE2PA d"
      unfolding run_frames_def i by blast
    from own_framesD [OF o, of 0 "Suc j", OF _ _ _ j(2,3)] show False using j(1) e by simp
  qed
qed

fun unmap_run :: "(u64 \<rightharpoonup> u64) \<Rightarrow> u64 \<Rightarrow> nat \<Rightarrow> u64 \<rightharpoonup> u64" where
  "unmap_run m va 0 = m"
| "unmap_run m va (Suc n) = unmap_run (m(va := None)) (va + 4096) n"

lemma unmap_run_apply: "unmap_run m a n x = (if \<exists>j < n. x = a + of_nat j * 4096 then None else m x)"
proof (induction n arbitrary: m a)
  case (Suc n)
  have "(\<exists>j < Suc n. x = a + of_nat j * 4096) \<longleftrightarrow> x = a \<or> (\<exists>j < n. x = a + 4096 + of_nat j * 4096)"
    unfolding page_step by (simp add: Ex_less_Suc2 del: of_nat_Suc)
  then show ?case by (auto simp add: Suc.IH simp del: of_nat_Suc)
qed simp

lemma run_cong:
  assumes "\<And>j. j < n \<Longrightarrow> m' (a + of_nat j * 4096) = m (a + of_nat j * 4096)"
  shows "run_frames m' a n = run_frames m a n" "own_frames m' K a n = own_frames m K a n"
proof -
  have "j < n \<and> m' (a + of_nat j * 4096) = Some e \<longleftrightarrow> j < n \<and> m (a + of_nat j * 4096) = Some e" for j e
    using assms [of j] by auto
  then show r: "run_frames m' a n = run_frames m a n" unfolding run_frames_def by simp
  show "own_frames m' K a n = own_frames m K a n" unfolding own_frames_def r using assms by simp
qed

lemma own_frames_mono: "own_frames m K a n \<Longrightarrow> run_frames m a n \<subseteq> K' \<Longrightarrow> own_frames m K' a n"
  by (simp add: own_frames_def)

lemma kfree_frame:
  assumes inv: "pt_inv s L pt own" and f: "f \<in> L - dom own"
  obtains s1 where "kfree s f = Inr s1" "pt_inv s1 (L - {f}) pt own" "maps s1 pt = maps s pt"
    "\<And>va. va \<le> MAX_VA \<Longrightarrow> walk_r 2 (\<lambda>p. get_pte p s1) pt va = walk_r 2 (\<lambda>p. get_pte p s) pt va"
    "\<And>z. PGROUNDDOWN z \<noteq> f \<Longrightarrow> ram s1 z = ram s z"
proof -
  obtain s1 where s1: "kfree s f = Inr s1" "page_inv s1 (L - {f})" "ram s1 = mem_fill (ram s) f 0 4096"
    using pga.free_live [OF pt_invD(1) [OF inv], of f] f by blast
  have "page_aligned f" using pga.live_page [OF pt_invD(1) [OF inv], of f] f by simp
  then have o: "ram s1 z = ram s z" if "PGROUNDDOWN z \<noteq> f" for z
    using in_page [of f z] that s1(3) by (simp add: mem_fill_def)
  have d: "dom own \<subseteq> L - {f}" using pt_invD(2) [OF inv] f by auto
  have "ram s1 z = ram s z" if "PGROUNDDOWN z \<in> dom own" for z using o [of z] that f by auto
  note fr = pt_frame [OF inv s1(2) d this]
  show ?thesis using that [OF s1(1) fr(1,2)] fr(3) o by blast
qed

lemma unat_add_nat: "unat (a :: u64) + m < 18446744073709551616 \<Longrightarrow> unat (a + of_nat m) = unat a + m"
  by (simp add: unat_word_ariths unat_of_nat_small)

lemma page_add_neq:
  assumes "unat (a :: u64) + Suc n * 4096 < 18446744073709551616" "j < n"
  shows "a + 4096 + of_nat j * 4096 \<noteq> a"
proof -
  have "Suc j < 2 ^ 52" using assms by simp
  then show ?thesis unfolding page_step using page_run_neq [of "Suc j" a] by (simp del: of_nat_Suc)
qed

lemma pg_unmap_step:
  assumes "a < stop" "fst (pte_walk pt a False s) = p" "p \<noteq> 0" "valid (get_pte p s)"
    "(if do_free then kfree s (PTE2PA (get_pte p s)) else Inr s) = Inr s1"
  shows "pg_unmap_loop pt a stop do_free s = pg_unmap_loop pt (a + 4096) stop do_free (set_pte p 0 s1)"
  using assms by (subst pg_unmap_loop.simps) (simp add: Let_def PG_4K_SIZE_def split del: if_split)

lemma pg_unmap_loop_ok:
  "pt_inv s L pt own \<Longrightarrow> page_aligned a \<Longrightarrow> unat a + n * 4096 < 18446744073709551616 \<Longrightarrow> stop = a + of_nat n * 4096 \<Longrightarrow>
   (do_free \<Longrightarrow> own_frames (maps s pt) (L - dom own) a n) \<Longrightarrow> F = (if do_free then run_frames (maps s pt) a n else {}) \<Longrightarrow>
   \<exists>s'. pg_unmap_loop pt a stop do_free s = Some (Inr s') \<and> pt_inv s' (L - F) pt own \<and>
     maps s' pt = unmap_run (maps s pt) a n \<and> (\<forall>z. PGROUNDDOWN z \<in> L - dom own - F \<longrightarrow> ram s' z = ram s z)"
proof (induction n arbitrary: s L a F)
  case (0 s L a F)
  then have "F = {}" by (simp add: run_frames_def)
  then show ?case using 0 by (subst pg_unmap_loop.simps) simp
next
  case (Suc n s L a F)
  have b: "unat a + 4096 < 18446744073709551616" using Suc.prems(3) by simp
  have u: "unat (a + 4096) = unat a + 4096"
    using unat_add_nat [of a 4096] b by simp
  have "unat stop = unat a + Suc n * 4096"
    using unat_add_nat [OF Suc.prems(3)] Suc.prems(4) by simp
  then have lt: "a < stop" by (simp add: word_less_nat_alt)
  have stop: "stop = a + 4096 + of_nat n * 4096" using Suc.prems(4) page_step [of a n] by simp
  have nb: "unat (a + 4096) + n * 4096 < 18446744073709551616" using Suc.prems(3) u by simp
  have al: "page_aligned (a + 4096)" using Suc.prems(2) by simp
  define p where "p = fst (pte_walk pt a False s)"
  note lk = unmap_look [OF Suc.prems(1,2), folded p_def]
  show ?case
  proof (cases "p = 0 \<or> \<not> valid (get_pte p s)")
    case True
    then have none: "maps s pt a = None" using lk(1) by simp
    have F: "F = (if do_free then run_frames (maps s pt) (a + 4096) n else {})"
      using Suc.prems(6) none by (simp add: run_frames_Suc)
    have "pg_unmap_loop pt a stop do_free s = pg_unmap_loop pt (a + 4096) stop do_free s"
      using lt True by (subst pg_unmap_loop.simps) (simp add: p_def Let_def PG_4K_SIZE_def)
    moreover have "(maps s pt)(a := None) = maps s pt" using none by auto
    ultimately show ?thesis
      using Suc.IH [OF Suc.prems(1) al nb stop own_frames_Suc(1) [OF Suc.prems(5)] F] by simp
  next
    case False
    define e where "e = get_pte p s"
    have some: "maps s pt a = Some e" using lk(1) False by (simp add: e_def)
    have w: "a \<le> MAX_VA" "walk_r 2 (\<lambda>p. get_pte p s) pt a = Some p" using lk(2) False by auto
    define F0 where "F0 = (if do_free then {PTE2PA e} else {})"
    obtain s1 where s1: "(if do_free then kfree s (PTE2PA e) else Inr s) = Inr s1" "pt_inv s1 (L - F0) pt own" "maps s1 pt = maps s pt"
      "walk_r 2 (\<lambda>p. get_pte p s1) pt a = Some p" "\<And>z. PGROUNDDOWN z \<notin> F0 \<Longrightarrow> ram s1 z = ram s z"
    proof (cases do_free)
      case True
      have f: "PTE2PA e \<in> L - dom own" using own_frames_Suc(2) [OF Suc.prems(5) [OF True] some] .
      show ?thesis by (rule kfree_frame [OF Suc.prems(1) f]) (use True w that in \<open>simp add: F0_def\<close>)
    next
      case False
      then show ?thesis using that [of s] Suc.prems(1) w by (simp add: F0_def)
    qed
    define s2 where "s2 = set_pte p 0 s1"
    note sl = set_leaf [OF s1(2) w(1) Suc.prems(2) s1(4), of 0, folded s2_def]
    have m2: "maps s2 pt = (maps s pt)(a := None)" using sl(2) s1(3) by simp
    have inv2: "pt_inv s2 (L - F0) pt own" using pt_growsD(1) [OF sl(1)] .
    have eq: "maps s2 pt (a + 4096 + of_nat j * 4096) = maps s pt (a + 4096 + of_nat j * 4096)" if "j < n" for j
      using m2 page_add_neq [OF Suc.prems(3) that] by simp
    note c = run_cong [where m' = "maps s2 pt" and m = "maps s pt" and a = "a + 4096" and n = n, OF eq]
    have o2: "own_frames (maps s2 pt) (L - F0 - dom own) (a + 4096) n" if "do_free"
    proof -
      note os = own_frames_Suc [OF Suc.prems(5) [OF that]]
      have "run_frames (maps s pt) (a + 4096) n \<subseteq> L - F0 - dom own"
        using os(1) os(3) [OF some] that by (auto simp: own_frames_def F0_def)
      then show ?thesis using own_frames_mono [OF os(1)] c(2) by simp
    qed
    obtain s' where s': "pg_unmap_loop pt (a + 4096) stop do_free s2 = Some (Inr s')"
      "pt_inv s' (L - F0 - (if do_free then run_frames (maps s2 pt) (a + 4096) n else {})) pt own"
      "maps s' pt = unmap_run (maps s2 pt) (a + 4096) n"
      "\<forall>z. PGROUNDDOWN z \<in> L - F0 - dom own - (if do_free then run_frames (maps s2 pt) (a + 4096) n else {}) \<longrightarrow> ram s' z = ram s2 z"
      using Suc.IH [OF inv2 al nb stop o2 refl] by blast
    have F: "F = F0 \<union> (if do_free then run_frames (maps s2 pt) (a + 4096) n else {})"
      using Suc.prems(6) some c(1) by (simp add: run_frames_Suc F0_def)
    have "pg_unmap_loop pt a stop do_free s = pg_unmap_loop pt (a + 4096) stop do_free s2"
      unfolding s2_def by (rule pg_unmap_step [OF lt p_def [symmetric] _ _ s1(1) [unfolded e_def]]) (use False in simp_all)
    moreover have "ram s' z = ram s z" if "PGROUNDDOWN z \<in> L - dom own - F" for z
      using s'(4) pt_growsD(5) [OF sl(1), of z] s1(5) [of z] that F by auto
    moreover have "L - F = L - F0 - (if do_free then run_frames (maps s2 pt) (a + 4096) n else {})" using F by auto
    ultimately show ?thesis using s'(1-3) m2 by simp
  qed
qed

lemma pg_unmap_ok:
  assumes inv: "pt_inv s L pt own" and a: "page_aligned va" "unat va + unat n * 4096 < 18446744073709551616"
    and fr: "do_free \<Longrightarrow> own_frames (maps s pt) (L - dom own) va (unat n)"
    and F: "F = (if do_free then run_frames (maps s pt) va (unat n) else {})"
  shows "\<exists>s'. pg_unmap pt va n do_free s = Some (Inr s') \<and> pt_inv s' (L - F) pt own \<and>
     maps s' pt = unmap_run (maps s pt) va (unat n) \<and> (\<forall>z. PGROUNDDOWN z \<in> L - dom own - F \<longrightarrow> ram s' z = ram s z)"
proof -
  have "va + n * PG_4K_SIZE = va + of_nat (unat n) * 4096" by (simp add: PG_4K_SIZE_def)
  then show ?thesis
    using pg_unmap_loop_ok [OF inv a _ fr F] mod_page a(1) by (simp add: pg_unmap_def)
qed

section \<open>Reading the translation\<close>

lemma walkaddr_maps:
  assumes "pt_inv s L pt own" "page_aligned va"
  shows "walkaddr pt va s = (case maps s pt va of None \<Rightarrow> 0
    | Some e \<Rightarrow> if MAX_VA \<le> va \<or> e AND PTE_U = 0 then 0 else PTE2PA e)"
  using unmap_look(1) [OF assms] by (auto simp: walkaddr_def Let_def)

lemma va2pa_level_leaf:
  "va2pa_level l q va s = (case leaf_at l (\<lambda>p. get_pte p s) q va of None \<Rightarrow> - 1 | Some e \<Rightarrow> PTE2PA e OR (va AND 0xFFF))"
  by (induction l arbitrary: q) (simp_all add: slot_blk Let_def)

lemma leaf_at_page: "leaf_at l r q (PGROUNDDOWN va) = leaf_at l r q va"
proof -
  have "vpn 0 (PGROUNDDOWN va) = vpn 0 va" by (simp add: vpn_0_page)
  from walk_r_vpn [OF this] show ?thesis by (simp add: leaf_at_def)
qed

lemma va2pa_maps:
  assumes "PGROUNDDOWN va \<le> MAX_VA"
  shows "va2pa pt va s = (case maps s pt (PGROUNDDOWN va) of None \<Rightarrow> - 1 | Some e \<Rightarrow> PTE2PA e OR (va AND 0xFFF))"
proof -
  have "\<not> MAX_VA < PGROUNDDOWN va" using assms by simp
  then show ?thesis by (simp add: va2pa_def va2pa_level_leaf maps_def leaf_def leaf_at_page)
qed

section \<open>Page faults\<close>

lemma user_perm_eq: "scast user_perm OR PTE_V = (PTE_V OR PTE_W OR PTE_R OR PTE_U)"
  by code_simp

lemma fresh_frame:
  assumes inv: "pt_inv s L pt own" and al: "kalloc s = (pa, s1)" "pa \<noteq> 0"
  defines "s2 \<equiv> put_ram (memset (ram s1) pa 0 PG_4K_SIZE) s1"
  shows "pt_inv s2 (insert pa L) pt own" "maps s2 pt = maps s pt" "pa \<notin> L" "page_aligned pa"
    "\<And>z. PGROUNDDOWN z = pa \<Longrightarrow> ram s2 z = 0" "\<And>z. PGROUNDDOWN z \<noteq> pa \<Longrightarrow> ram s2 z = ram s z"
proof -
  note n = new_page [OF pt_invD(1) [OF inv] al(1) [unfolded kalloc_def] al(2)]
  have r: "ram s2 z = (if PGROUNDDOWN z = pa then 0 else ram s z)" for z
    using in_page [OF n(1), of z] n(4) by (simp add: s2_def put_ram_def memset_page_size mem_fill_def)
  show "pa \<notin> L" "page_aligned pa" using n by auto
  show "\<And>z. PGROUNDDOWN z = pa \<Longrightarrow> ram s2 z = 0" "\<And>z. PGROUNDDOWN z \<noteq> pa \<Longrightarrow> ram s2 z = ram s z" using r by auto
  have "page_inv s2 (insert pa L)" "dom own \<subseteq> insert pa L" using n(3) pt_invD(2) [OF inv] by (auto simp: s2_def)
  moreover have "ram s2 z = ram s z" if "PGROUNDDOWN z \<in> dom own" for z
    using r that n(2) pt_invD(2) [OF inv] by auto
  ultimately show "pt_inv s2 (insert pa L) pt own" "maps s2 pt = maps s pt" using pt_frame [OF inv] by blast+
qed

lemma page_fault_ok:
  assumes inv: "pt_inv s L (task_pg ts) own" and ty: "type = PF_LOAD \<or> type = PF_STORE"
    and h: "heap_start ts \<le> a" "a < heap_brk ts" and un: "maps s (task_pg ts) (PGROUNDDOWN a) = None"
  shows "\<exists>st pa s' L' own'. do_page_fault_with_new_pa ts a type s = Some (Inr (st, pa, s')) \<and>
    pt_inv s' L' (task_pg ts) own' \<and> L \<subseteq> L' \<and> dom own' \<inter> (L - dom own) = {} \<and>
    (\<forall>z. PGROUNDDOWN z \<in> L - dom own \<longrightarrow> ram s' z = ram s z) \<and>
    (st = - 1 \<and> maps s' (task_pg ts) = maps s (task_pg ts) \<or>
     st = 0 \<and> maps s' (task_pg ts) = (maps s (task_pg ts))(PGROUNDDOWN a \<mapsto> PA2PTE pa OR PTE_V OR PTE_W OR PTE_R OR PTE_U) \<and>
       pa \<noteq> 0 \<and> pa \<notin> L \<and> pa \<in> L' - dom own' \<and> (\<forall>z. PGROUNDDOWN z = pa \<longrightarrow> ram s' z = 0))"
proof -
  define pt where "pt = task_pg ts"
  define va where "va = PGROUNDDOWN a"
  note inv = inv [folded pt_def]
  have g: "\<not> (type \<noteq> PF_LOAD \<and> type \<noteq> PF_STORE)" "\<not> (a < heap_start ts \<or> heap_brk ts \<le> a)" using ty h by auto
  obtain pa s1 where al: "kalloc s = (pa, s1)" by (cases "kalloc s")
  show ?thesis
  proof (cases "pa = 0")
    case True
    then have "s1 = s" using pga.alloc_null [OF pt_invD(1) [OF inv]] al by simp
    then have "do_page_fault_with_new_pa ts a type s = Some (Inr (- 1, 0, s))"
      unfolding do_page_fault_with_new_pa_def if_not_P [OF g(1)] if_not_P [OF g(2)] Let_def using al True by simp
    moreover have "dom own \<inter> (L - dom own) = {}" by auto
    ultimately show ?thesis using inv unfolding pt_def by blast
  next
    case False
    define s2 where "s2 = put_ram (memset (ram s1) pa 0 PG_4K_SIZE) s1"
    note f = fresh_frame [OF inv al False, folded s2_def]
    have e1: "unat (4096::u64) div 4096 = 1" by simp
    have va4: "page_aligned va" "page_aligned 4096" "(4096::u64) \<noteq> 0" by (simp add: va_def, simp add: aligned_def, simp)
    obtain r where r: "mappages pt va 4096 pa user_perm s2 = Some r"
      "case r of Inl e \<Rightarrow> e = Panic ''mappages: remap'' \<and> (\<exists>j < 1. maps s2 pt (va + of_nat j * 4096) \<noteq> None)
       | Inr (st, s') \<Rightarrow> \<exists>k L' own'. pt_grows (s2, insert pa L, own) pt (s', L', own') \<and>
          maps s' pt = map_run (maps s2 pt) va pa (scast user_perm) k \<and> (st = 0 \<and> k = 1 \<or> st = - 1 \<and> k < 1)"
      using mappages_ok [OF f(1) va4, of pa user_perm] unfolding e1 by blast
    have un': "maps s2 pt va = None" using un f(2) by (simp add: pt_def va_def)
    obtain st s3 k L3 own3 where x: "r = Inr (st, s3)" "pt_grows (s2, insert pa L, own) pt (s3, L3, own3)"
      "maps s3 pt = map_run (maps s2 pt) va pa (scast user_perm) k" "st = 0 \<and> k = 1 \<or> st = - 1 \<and> k = 0"
      using r(2) un' by (cases r) auto
    note gr = pt_growsD [OF x(2)]
    have pa3: "pa \<in> L3 - dom own3" using gr(3,4) f(3) pt_invD(2) [OF inv] by auto
    have sub: "L \<subseteq> L3 - {pa}" "L \<subseteq> L3" "dom own3 \<inter> (L - dom own) = {}" using gr(3,4) f(3) by auto
    have ram3: "ram s3 z = ram s z" if "PGROUNDDOWN z \<in> L - dom own" for z
    proof -
      have "PGROUNDDOWN z \<noteq> pa" using that f(3) by auto
      then show ?thesis using gr(5) [of z] f(6) [of z] that by auto
    qed
    have step: "do_page_fault_with_new_pa ts a type s =
        (if st < 0 then (case free_page s3 pa of Inl e \<Rightarrow> Some (Inl e) | Inr s4 \<Rightarrow> Some (Inr (- 1, 0, s4))) else Some (Inr (0, pa, s3)))"
      unfolding do_page_fault_with_new_pa_def if_not_P [OF g(1)] if_not_P [OF g(2)] Let_def
      using al False r(1) x(1) by (simp add: s2_def pt_def va_def PG_4K_SIZE_def [symmetric])
    show ?thesis
    proof (cases "st = 0")
      case True
      have "maps s3 pt = (maps s pt)(va \<mapsto> PA2PTE pa OR PTE_V OR PTE_W OR PTE_R OR PTE_U)"
        using x(3,4) True f(2) by (simp add: user_perm_eq)
      moreover have "ram s3 z = 0" if "PGROUNDDOWN z = pa" for z
        using gr(5) [of z] f(5) [OF that] that f(3) pt_invD(2) [OF inv] by auto
      ultimately show ?thesis using step True gr(1) sub(2,3) ram3 False f(3) pa3 unfolding pt_def va_def
        by (intro exI [of _ 0] exI [of _ pa] exI [of _ s3] exI [of _ L3] exI [of _ own3]) simp
    next
      case neg: False
      then have st: "st = - 1" "maps s3 pt = maps s pt" using x(3,4) f(2) by auto
      show ?thesis
      proof (rule kfree_frame [OF gr(1) pa3])
        fix s4 assume k: "kfree s3 pa = Inr s4" "pt_inv s4 (L3 - {pa}) pt own3" "maps s4 pt = maps s3 pt"
          "\<And>z. PGROUNDDOWN z \<noteq> pa \<Longrightarrow> ram s4 z = ram s3 z"
        have "ram s4 z = ram s z" if "PGROUNDDOWN z \<in> L - dom own" for z
          using k(4) [of z] ram3 [OF that] that f(3) by auto
        then show ?thesis using step st k(1-3) sub unfolding pt_def kfree_def
          by (intro exI [of _ "- 1"] exI [of _ 0] exI [of _ s4] exI [of _ "L3 - {pa}"] exI [of _ own3]) simp
      qed
    qed
  qed
qed

end
