(* ===== verification/VmCopy.thy ===== *)
theory VmCopy
  imports VmOps
begin

text \<open>
  Copies between kernel buffers and user memory (\<^verbatim>\<open>copy_to_user\<close>, \<^verbatim>\<open>copy_from_user\<close>), page by
  page through the translation.
\<close>

section \<open>Bytes through a translation\<close>

fun put_bytes :: "(u64 \<Rightarrow> u64) \<Rightarrow> u64 \<Rightarrow> u8 list \<Rightarrow> memory \<Rightarrow> memory" where
  "put_bytes xl d [] m = m"
| "put_bytes xl d (b # bs) m = put_bytes xl (d + 1) bs (m(xl d := b))"

lemma put_bytes_append: "put_bytes xl d (xs @ ys) m = put_bytes xl (d + of_nat (length xs)) ys (put_bytes xl d xs m)"
  by (induction xs arbitrary: d m) (simp_all add: algebra_simps)

lemma put_bytes_other: "(\<And>i. i < length bs \<Longrightarrow> xl (d + of_nat i) \<noteq> z) \<Longrightarrow> put_bytes xl d bs m z = m z"
proof (induction bs arbitrary: d m)
  case (Cons b bs)
  have "xl d \<noteq> z" using Cons.prems [of 0] by simp
  moreover have "xl (d + 1 + of_nat i) \<noteq> z" if "i < length bs" for i
    using Cons.prems [of "Suc i"] that by (simp add: algebra_simps)
  ultimately show ?case using Cons.IH [of "d + 1"] by simp
qed simp

lemma put_bytes_read:
  assumes "\<And>i j. i < length bs \<Longrightarrow> j < length bs \<Longrightarrow> xl (d + of_nat i) = xl (d + of_nat j) \<Longrightarrow> i = j" "k < length bs"
  shows "put_bytes xl d bs m (xl (d + of_nat k)) = bs ! k"
  using assms
proof (induction bs arbitrary: d m k)
  case (Cons b bs)
  have inj: "i = j" if "i < length bs" "j < length bs" "xl (d + 1 + of_nat i) = xl (d + 1 + of_nat j)" for i j
    using Cons.prems(1) [of "Suc i" "Suc j"] that by (simp add: algebra_simps)
  show ?case
  proof (cases k)
    case 0
    have "xl (d + 1 + of_nat i) \<noteq> xl d" if "i < length bs" for i
      using Cons.prems(1) [of "Suc i" 0] that by (auto simp: algebra_simps)
    then show ?thesis using 0 put_bytes_other [of bs xl "d + 1" "xl d"] by simp
  next
    case (Suc j)
    then have "put_bytes xl (d + 1) bs (m(xl d := b)) (xl (d + 1 + of_nat j)) = bs ! j"
      using Cons.prems(2) by (intro Cons.IH inj) auto
    then show ?thesis using Suc by (simp add: algebra_simps)
  qed
qed simp

lemma put_bytes_cong: "(\<And>i. i < length bs \<Longrightarrow> xl (d + of_nat i) = xl' (d' + of_nat i)) \<Longrightarrow> put_bytes xl d bs m = put_bytes xl' d' bs m"
proof (induction bs arbitrary: d d' m)
  case (Cons b bs)
  have "xl d = xl' d'" using Cons.prems [of 0] by simp
  moreover have "xl (d + 1 + of_nat i) = xl' (d' + 1 + of_nat i)" if "i < length bs" for i
    using Cons.prems [of "Suc i"] that by (simp add: algebra_simps)
  ultimately show ?case using Cons.IH [of "d + 1" "d' + 1"] by simp
qed simp

lemma bytes_append: "bytes m a (n + k) = bytes m a n @ bytes m (a + of_nat n) k"
proof -
  have "[0..<n + k] = [0..<n] @ map (\<lambda>i. i + n) [0..<k]"
    using upt_add_eq_append [of 0 n k] map_add_upt [of n k] by (simp add: add.commute)
  then show ?thesis by (simp add: bytes_def o_def ac_simps)
qed

lemma put_bytes_copy:
  assumes "n \<le> 18446744073709551616"
  shows "put_bytes (\<lambda>x. x) d (bytes m s n) m = mem_copy m d s n"
proof
  fix z
  have u: "unat (of_nat i :: u64) = i" if "i < n" for i using that assms by (intro unat_of_nat_small) simp
  show "put_bytes (\<lambda>x. x) d (bytes m s n) m z = mem_copy m d s n z"
  proof (cases "unat (z - d) < n")
    case True
    define k where "k = unat (z - d)"
    have z: "z = d + of_nat k" by (simp add: k_def)
    have "put_bytes (\<lambda>x. x) d (bytes m s n) m (d + of_nat k) = bytes m s n ! k"
    proof (rule put_bytes_read [where xl = "\<lambda>x. x"])
      fix i j assume "i < length (bytes m s n)" "j < length (bytes m s n)" "d + of_nat i = d + of_nat j"
      then have ij: "i < n" "j < n" "(of_nat i :: u64) = of_nat j" by simp_all
      show "i = j" using u [OF ij(1)] u [OF ij(2)] ij(3) by metis
    qed (use True k_def in simp)
    also have "\<dots> = m (s + of_nat k)" using True by (simp add: bytes_def k_def)
    also have "s + of_nat k = s + (z - d)" by (simp add: k_def)
    finally show ?thesis using True z [symmetric] by (simp add: mem_copy_def)
  next
    case False
    have "d + of_nat i \<noteq> z" if "i < n" for i using False u [OF that] that by auto
    then show ?thesis using False put_bytes_other [of "bytes m s n" "\<lambda>x. x" d z m] by (simp add: mem_copy_def)
  qed
qed


section \<open>User memory\<close>

text \<open>
  The bytes from \<open>va\<close> on are mapped for the user (writable when \<open>w\<close>), in frames of \<open>K\<close>.
\<close>

definition user_mapped :: "(u64 \<rightharpoonup> u64) \<Rightarrow> u64 set \<Rightarrow> bool \<Rightarrow> u64 \<Rightarrow> nat \<Rightarrow> bool" where
  "user_mapped m K w va n \<longleftrightarrow> unat va + n \<le> 2 ^ 38 \<and>
     (\<forall>i < n. \<exists>e. m (PGROUNDDOWN (va + of_nat i)) = Some e \<and> e AND PTE_U \<noteq> 0 \<and> (w \<longrightarrow> e AND PTE_W \<noteq> 0) \<and> PTE2PA e \<in> K)"

text \<open>The physical address of a mapped user byte.\<close>

definition upa :: "(u64 \<rightharpoonup> u64) \<Rightarrow> u64 \<Rightarrow> u64" where
  "upa m va = PTE2PA (the (m (PGROUNDDOWN va))) + (va - PGROUNDDOWN va)"

lemma user_mappedD:
  assumes "user_mapped m K w va n" "i < n"
  obtains e where "m (PGROUNDDOWN (va + of_nat i)) = Some e" "e AND PTE_U \<noteq> 0" "w \<Longrightarrow> e AND PTE_W \<noteq> 0" "PTE2PA e \<in> K"
  using assms unfolding user_mapped_def by blast

lemma user_mapped_drop:
  assumes "user_mapped m K w va n" "k \<le> n"
  shows "user_mapped m K w (va + of_nat k) (n - k)"
  unfolding user_mapped_def
proof (intro conjI allI impI)
  have b: "unat va + n \<le> 2 ^ 38" using assms(1) by (simp add: user_mapped_def)
  then have "unat (va + of_nat k) = unat va + k" using assms(2) by (intro unat_add_nat) simp
  then show "unat (va + of_nat k) + (n - k) \<le> 2 ^ 38" using b assms(2) by simp
  fix i assume "i < n - k"
  then have "k + i < n" by simp
  have eq: "va + of_nat k + of_nat i = va + of_nat (k + i)" by simp
  show "\<exists>e. m (PGROUNDDOWN (va + of_nat k + of_nat i)) = Some e \<and> e AND PTE_U \<noteq> 0 \<and>
      (w \<longrightarrow> e AND PTE_W \<noteq> 0) \<and> PTE2PA e \<in> K"
    unfolding eq by (rule user_mappedD [OF assms(1) \<open>k + i < n\<close>]) blast
qed

lemma PTE2PA_aligned [simp]: "page_aligned (PTE2PA e)"
proof -
  have "PTE2PA e AND mask 12 = 0" unfolding PTE2PA_def by (rule bit_word_eqI) (auto simp: bit_and_iff bit_mask_iff bit_push_bit_iff)
  then show ?thesis by (simp only: aligned_and)
qed

lemma upa_page:
  assumes "m (PGROUNDDOWN va) = Some e"
  shows "PGROUNDDOWN (upa m va) = PTE2PA e"
  unfolding upa_def using assms by (simp add: PGROUNDDOWN_plus page_offset_less)

lemma upa_step:
  assumes "unat (va - PGROUNDDOWN va) + i < 4096"
  shows "PGROUNDDOWN (va + of_nat i) = PGROUNDDOWN va" "upa m (va + of_nat i) = upa m va + of_nat i"
proof -
  have "va + of_nat i = PGROUNDDOWN va + (va - PGROUNDDOWN va + of_nat i)" by simp
  moreover have "unat (va - PGROUNDDOWN va + of_nat i) < 4096" using assms unat_add_nat [of "va - PGROUNDDOWN va" i] by simp
  ultimately show p: "PGROUNDDOWN (va + of_nat i) = PGROUNDDOWN va"
    using PGROUNDDOWN_plus [of "PGROUNDDOWN va" "va - PGROUNDDOWN va + of_nat i"] by simp
  show "upa m (va + of_nat i) = upa m va + of_nat i" unfolding upa_def p by simp
qed

text \<open>The part of a copy that lies in the first page.\<close>

definition chunk :: "u64 \<Rightarrow> u64 \<Rightarrow> u64" where
  "chunk va len = (let n0 = PG_4K_SIZE - (va - PGROUNDDOWN va) in if len < n0 then len else n0)"

lemma chunk_props:
  assumes "0 < len"
  shows "0 < unat (chunk va len)" "unat (chunk va len) \<le> unat len" "unat (chunk va len) \<le> 4096"
    "unat (va - PGROUNDDOWN va) + unat (chunk va len) \<le> 4096"
    "chunk va len \<noteq> len \<Longrightarrow> PGROUNDDOWN va + PG_4K_SIZE = va + chunk va len"
proof -
  define k where "k = unat (va - PGROUNDDOWN va)"
  have k: "k < 4096" using page_offset_less [of va] by (simp add: k_def)
  have n0: "unat (PG_4K_SIZE - (va - PGROUNDDOWN va)) = 4096 - k"
    using k unat_sub [of "va - PGROUNDDOWN va" "4096 :: u64"] by (simp add: k_def word_le_nat_alt)
  have l: "0 < unat len" using assms by (simp add: word_less_nat_alt)
  have u: "unat (chunk va len) = min (unat len) (4096 - k)"
    unfolding chunk_def Let_def using n0 by (auto simp: word_less_nat_alt min_def)
  show "0 < unat (chunk va len)" "unat (chunk va len) \<le> unat len" "unat (chunk va len) \<le> 4096"
    "unat (va - PGROUNDDOWN va) + unat (chunk va len) \<le> 4096" using u l k by (auto simp: k_def [symmetric])
  show "PGROUNDDOWN va + PG_4K_SIZE = va + chunk va len" if "chunk va len \<noteq> len"
    using that by (auto simp: chunk_def Let_def split: if_splits)
qed

lemma live_page_bound: "page_inv s L \<Longrightarrow> p \<in> L \<Longrightarrow> unat p + 4096 < 18446744073709551616"
  by (rule page_inv_live) (auto simp: page_addr_unat page_bound_def)

lemma put_ram_put_ram [simp]: "put_ram m2 (put_ram m1 s) = put_ram m2 s"
  by (simp add: put_ram_def)

lemma ram_put_ram [simp]: "ram (put_ram m s) = m"
  by (simp add: put_ram_def)

lemma page_inv_put_ram [simp]: "page_inv (put_ram m s) L = page_inv s L"
  by (rule pga.inv_put)

lemma put_bytes_pages:
  assumes "user_mapped m K w d (length bs)" "PGROUNDDOWN z \<notin> K"
  shows "put_bytes (upa m) d bs mem z = mem z"
proof (rule put_bytes_other)
  fix i assume "i < length bs"
  from user_mappedD [OF assms(1) this] obtain e where "m (PGROUNDDOWN (d + of_nat i)) = Some e" "PTE2PA e \<in> K" by blast
  then show "upa m (d + of_nat i) \<noteq> z" using upa_page [of m "d + of_nat i" e] assms(2) by auto
qed

lemma user_write:
  assumes inv: "pt_inv s L pt own" and K: "K \<subseteq> L - dom own" and um: "user_mapped (maps s pt) K w d (length bs)"
  shows "pt_inv (put_ram (put_bytes (upa (maps s pt)) d bs (ram s)) s) L pt own"
    "maps (put_ram (put_bytes (upa (maps s pt)) d bs (ram s)) s) pt = maps s pt"
proof -
  let ?s = "put_ram (put_bytes (upa (maps s pt)) d bs (ram s)) s"
  have "ram ?s z = ram s z" if "PGROUNDDOWN z \<in> dom own" for z
    using put_bytes_pages [OF um, of z "ram s"] that K by auto
  then show "pt_inv ?s L pt own" "maps ?s pt = maps s pt"
    using pt_frame [OF inv, of ?s L] pt_invD(1,2) [OF inv] by auto
qed

text \<open>One page of a copy: where the first byte goes, and the physical move as bytes.\<close>

lemma user_chunk:
  assumes inv: "pt_inv s L pt own" and K: "K \<subseteq> L" and um: "user_mapped (maps s pt) K w va (unat len)" and len: "0 < len"
  obtains e where "maps s pt (PGROUNDDOWN va) = Some e" "walkaddr pt (PGROUNDDOWN va) s = PTE2PA e" "PTE2PA e \<noteq> 0"
    "\<not> MAX_VA < PGROUNDDOWN va" "PTE2PA e \<in> K" "w \<Longrightarrow> e AND PTE_W \<noteq> 0" "upa (maps s pt) va = PTE2PA e + (va - PGROUNDDOWN va)"
    "unat (upa (maps s pt) va) + unat (chunk va len) < 18446744073709551616"
proof -
  have l: "0 < unat len" using len by (simp add: word_less_nat_alt)
  obtain e where e: "maps s pt (PGROUNDDOWN (va + of_nat 0)) = Some e" "e AND PTE_U \<noteq> 0" "w \<Longrightarrow> e AND PTE_W \<noteq> 0" "PTE2PA e \<in> K"
    by (rule user_mappedD [OF um l]) blast
  have b: "unat va < 2 ^ 38" using um l by (simp add: user_mapped_def)
  moreover have "unat (PGROUNDDOWN va) \<le> unat va" by (simp add: unat_PGROUNDDOWN)
  ultimately have lt: "PGROUNDDOWN va < MAX_VA" by (simp add: MAX_VA_def word_less_nat_alt)
  have live: "PTE2PA e \<noteq> 0" "unat (PTE2PA e) + 4096 < 18446744073709551616"
    using pga.live_page [OF pt_invD(1) [OF inv]] live_page_bound [OF pt_invD(1) [OF inv]] e(4) K by blast+
  have u: "upa (maps s pt) va = PTE2PA e + (va - PGROUNDDOWN va)" using e(1) by (simp add: upa_def)
  have "unat (PTE2PA e + (va - PGROUNDDOWN va)) = unat (PTE2PA e) + unat (va - PGROUNDDOWN va)"
    using unat_aligned_plus [OF PTE2PA_aligned, of "va - PGROUNDDOWN va" e] page_offset_less [of va] by simp
  then have "unat (upa (maps s pt) va) + unat (chunk va len) < 18446744073709551616"
    using chunk_props(4) [OF len, of va] live(2) u by simp
  moreover have nle: "\<not> MAX_VA \<le> PGROUNDDOWN va" "\<not> MAX_VA < PGROUNDDOWN va" using lt by auto
  then have "walkaddr pt (PGROUNDDOWN va) s = PTE2PA e"
    using walkaddr_maps [OF inv, of "PGROUNDDOWN va"] e(1,2) by simp
  ultimately show ?thesis using that [of e] e live nle u by simp
qed

lemma ucast_chunk: "0 < len \<Longrightarrow> unat (ucast (chunk va len) :: u32) = unat (chunk va len)"
  using chunk_props(3) [of len va] by (simp add: unsigned_ucast_eq take_bit_nat_eq_self)

lemma copy_to_user_ok:
  "pt_inv s L pt own \<Longrightarrow> maps s pt = m \<Longrightarrow> K \<subseteq> L - dom own \<Longrightarrow> user_mapped m K True dst (unat len) \<Longrightarrow>
   unat src + unat len < 18446744073709551616 \<Longrightarrow> (\<And>i. i < unat len \<Longrightarrow> PGROUNDDOWN (src + of_nat i) \<notin> K) \<Longrightarrow>
   copy_to_user ts pt dst src len s =
     Some (Inr (0, put_ram (put_bytes (upa m) dst (bytes (ram s) src (unat len)) (ram s)) s))"
proof (induction "unat len" arbitrary: len dst src s rule: less_induct)
  case less
  show ?case
  proof (cases "0 < len")
    case False
    then have "len = 0" by (simp add: word_gt_0)
    then show ?thesis by (subst copy_to_user.simps) (simp add: bytes_def put_ram_def)
  next
    case True
    define n where "n = chunk dst len"
    note c = chunk_props [OF True, of dst, folded n_def]
    have K: "K \<subseteq> L" using less.prems(3) by auto
    note um = less.prems(4)
    obtain e where e: "maps s pt (PGROUNDDOWN dst) = Some e" "walkaddr pt (PGROUNDDOWN dst) s = PTE2PA e" "PTE2PA e \<noteq> 0"
      "\<not> MAX_VA < PGROUNDDOWN dst" "PTE2PA e \<in> K" "e AND PTE_W \<noteq> 0" "upa m dst = PTE2PA e + (dst - PGROUNDDOWN dst)"
      "unat (upa m dst) + unat n < 18446744073709551616"
      using user_chunk [OF less.prems(1) K _ True, of True dst] um less.prems(2) n_def by metis
    define p where "p = fst (pte_walk pt (PGROUNDDOWN dst) False s)"
    have p: "p \<noteq> 0" "get_pte p s = e"
      using unmap_look(1) [OF less.prems(1), of "PGROUNDDOWN dst"] e(1) by (auto simp: p_def split: if_splits)
    define s1 where "s1 = put_ram (memmove (ram s) (upa m dst) src (ucast n)) s"
    have step: "copy_to_user ts pt dst src len s = copy_to_user ts pt (PGROUNDDOWN dst + PG_4K_SIZE) (src + n) (len - n) s1"
      using True e(2,3,4,6) p
      by (subst copy_to_user.simps)
        (simp add: Let_def user_page_def p_def [symmetric] s1_def e(7) n_def chunk_def)
    have un: "unat (ucast n :: u32) = unat n" using ucast_chunk [OF True] by (simp add: n_def)
    have "memmove (ram s) (upa m dst) src (ucast n) = mem_copy (ram s) (upa m dst) src (unat n)"
      using memmove_eq [of src "ucast n" "upa m dst"] un e(8) c(2) less.prems(5) by simp
    also have "\<dots> = put_bytes (\<lambda>x. x) (upa m dst) (bytes (ram s) src (unat n)) (ram s)"
      using c(3) by (simp add: put_bytes_copy)
    also have "\<dots> = put_bytes (upa m) dst (bytes (ram s) src (unat n)) (ram s)"
      using upa_step(2) c(4) by (intro put_bytes_cong) simp
    finally have s1: "s1 = put_ram (put_bytes (upa m) dst (bytes (ram s) src (unat n)) (ram s)) s" by (simp add: s1_def)
    have um_n: "user_mapped m K True dst (unat n)" using um c(2) by (auto simp: user_mapped_def)
    show ?thesis
    proof (cases "n = len")
      case True
      then have "copy_to_user ts pt (PGROUNDDOWN dst + PG_4K_SIZE) (src + n) (len - n) s1 = Some (Inr (0, s1))"
        by (subst copy_to_user.simps) simp
      then show ?thesis using step s1 True by simp
    next
      case False
      then have d: "PGROUNDDOWN dst + PG_4K_SIZE = dst + n" using c(5) by (simp add: n_def)
      have ul: "unat (len - n) = unat len - unat n" using c(2) by (simp add: unat_sub word_le_nat_alt)
      have lt: "unat (len - n) < unat len" using ul c(1,2) by simp
      have inv1: "pt_inv s1 L pt own" "maps s1 pt = m"
        using user_write [OF less.prems(1,3), of True dst "bytes (ram s) src (unat n)"] um_n less.prems(2) s1 by simp_all
      have um1: "user_mapped m K True (dst + n) (unat (len - n))" using user_mapped_drop [OF um c(2)] ul by simp
      have us: "unat (src + n) = unat src + unat n" using unat_add_nat [of src "unat n"] c(2) less.prems(5) by simp
      have b1: "unat (src + n) + unat (len - n) < 18446744073709551616" using us ul c(2) less.prems(5) by simp
      have off: "PGROUNDDOWN (src + n + of_nat i) \<notin> K" if "i < unat (len - n)" for i
        using less.prems(6) [of "unat n + i"] that ul by (simp add: add.assoc)
      have "bytes (ram s1) (src + n) (unat (len - n)) = bytes (ram s) (src + n) (unat (len - n))"
        unfolding bytes_def using off put_bytes_pages [of m K True dst "bytes (ram s) src (unat n)"] um_n s1 by (intro map_cong) simp_all
      moreover have "bytes (ram s) src (unat len) = bytes (ram s) src (unat n) @ bytes (ram s) (src + n) (unat (len - n))"
        using bytes_append [of "ram s" src "unat n" "unat (len - n)"] ul c(2) by simp
      ultimately show ?thesis
        using less.hyps [OF lt inv1 less.prems(3) um1 b1 off] step d s1 by (simp add: put_bytes_append)
    qed
  qed
qed

text \<open>The bytes of user memory from \<open>va\<close> on.\<close>

definition user_bytes :: "(u64 \<rightharpoonup> u64) \<Rightarrow> memory \<Rightarrow> u64 \<Rightarrow> nat \<Rightarrow> u8 list" where
  "user_bytes m mem va n = map (\<lambda>i. mem (upa m (va + of_nat i))) [0..<n]"

lemma user_bytes_append: "user_bytes m mem va (n + k) = user_bytes m mem va n @ user_bytes m mem (va + of_nat n) k"
  using bytes_append [of "\<lambda>x. mem (upa m x)" va n k] by (simp add: user_bytes_def bytes_def)

lemma length_user_bytes [simp]: "length (user_bytes m mem va n) = n"
  by (simp add: user_bytes_def)

lemma copy_from_user_ok:
  "pt_inv s L pt own \<Longrightarrow> maps s pt = m \<Longrightarrow> K \<subseteq> L \<Longrightarrow> user_mapped m K False srcva (unat len) \<Longrightarrow>
   unat dst + unat len < 18446744073709551616 \<Longrightarrow> (\<And>i. i < unat len \<Longrightarrow> PGROUNDDOWN (dst + of_nat i) \<notin> K \<union> dom own) \<Longrightarrow>
   copy_from_user ts pt dst srcva len s =
     Some (Inr (0, put_ram (put_bytes (\<lambda>x. x) dst (user_bytes m (ram s) srcva (unat len)) (ram s)) s))"
proof (induction "unat len" arbitrary: len dst srcva s rule: less_induct)
  case less
  show ?case
  proof (cases "0 < len")
    case False
    then have "len = 0" by (simp add: word_gt_0)
    then show ?thesis by (subst copy_from_user.simps) (simp add: user_bytes_def put_ram_def)
  next
    case True
    define n where "n = chunk srcva len"
    note c = chunk_props [OF True, of srcva, folded n_def]
    note um = less.prems(4)
    obtain e where e: "walkaddr pt (PGROUNDDOWN srcva) s = PTE2PA e" "PTE2PA e \<noteq> 0"
      "\<not> MAX_VA < PGROUNDDOWN srcva" "upa m srcva = PTE2PA e + (srcva - PGROUNDDOWN srcva)"
      "unat (upa m srcva) + unat n < 18446744073709551616"
      using user_chunk [OF less.prems(1,3) _ True, of False srcva] um less.prems(2) n_def by metis
    define s1 where "s1 = put_ram (memmove (ram s) dst (upa m srcva) (ucast n)) s"
    have step: "copy_from_user ts pt dst srcva len s = copy_from_user ts pt (dst + n) (PGROUNDDOWN srcva + PG_4K_SIZE) (len - n) s1"
      using True e(1-3)
      by (subst copy_from_user.simps) (simp add: Let_def user_page_def s1_def e(4) n_def chunk_def)
    have un: "unat (ucast n :: u32) = unat n" using ucast_chunk [OF True] by (simp add: n_def)
    have ub: "bytes (ram s) (upa m srcva) (unat n) = user_bytes m (ram s) srcva (unat n)"
      unfolding bytes_def user_bytes_def using upa_step(2) [of srcva _ m] c(4) by (intro map_cong) simp_all
    have "memmove (ram s) dst (upa m srcva) (ucast n) = mem_copy (ram s) dst (upa m srcva) (unat n)"
      using memmove_eq [of "upa m srcva" "ucast n" dst] un e(5) c(2) less.prems(5) by simp
    then have s1: "s1 = put_ram (put_bytes (\<lambda>x. x) dst (user_bytes m (ram s) srcva (unat n)) (ram s)) s"
      using put_bytes_copy [of "unat n" dst "ram s" "upa m srcva"] c(3) ub by (simp add: s1_def)
    have ot: "ram s1 z = ram s z" if "PGROUNDDOWN z \<in> K \<union> dom own" for z
    proof -
      have "dst + of_nat i \<noteq> z" if "i < unat n" for i
        using less.prems(6) [of i] that c(2) \<open>PGROUNDDOWN z \<in> K \<union> dom own\<close> by auto
      then show ?thesis using s1 put_bytes_other [of "user_bytes m (ram s) srcva (unat n)" "\<lambda>x. x" dst z "ram s"] by simp
    qed
    show ?thesis
    proof (cases "n = len")
      case True
      then have "copy_from_user ts pt (dst + n) (PGROUNDDOWN srcva + PG_4K_SIZE) (len - n) s1 = Some (Inr (0, s1))"
        by (subst copy_from_user.simps) simp
      then show ?thesis using step s1 True by simp
    next
      case False
      then have d: "PGROUNDDOWN srcva + PG_4K_SIZE = srcva + n" using c(5) by (simp add: n_def)
      have ul: "unat (len - n) = unat len - unat n" using c(2) by (simp add: unat_sub word_le_nat_alt)
      have lt: "unat (len - n) < unat len" using ul c(1,2) by simp
      have inv1: "pt_inv s1 L pt own" "maps s1 pt = m"
        using pt_frame [OF less.prems(1), of s1 L] ot pt_invD(1,2) [OF less.prems(1)] less.prems(2) s1 by auto
      have um1: "user_mapped m K False (srcva + n) (unat (len - n))" using user_mapped_drop [OF um c(2)] ul by simp
      have us: "unat (dst + n) = unat dst + unat n" using unat_add_nat [of dst "unat n"] c(2) less.prems(5) by simp
      have b1: "unat (dst + n) + unat (len - n) < 18446744073709551616" using us ul c(2) less.prems(5) by simp
      have off: "PGROUNDDOWN (dst + n + of_nat i) \<notin> K \<union> dom own" if "i < unat (len - n)" for i
        using less.prems(6) [of "unat n + i"] that ul by (simp add: add.assoc)
      have "ram s1 (upa m (srcva + n + of_nat i)) = ram s (upa m (srcva + n + of_nat i))" if "i < unat (len - n)" for i
      proof (rule user_mappedD [OF um1 that])
        fix e assume "m (PGROUNDDOWN (srcva + n + of_nat i)) = Some e" "PTE2PA e \<in> K"
        then show ?thesis using ot upa_page by simp
      qed
      then have "user_bytes m (ram s1) (srcva + n) (unat (len - n)) = user_bytes m (ram s) (srcva + n) (unat (len - n))"
        unfolding user_bytes_def by simp
      moreover have "user_bytes m (ram s) srcva (unat len) = user_bytes m (ram s) srcva (unat n) @ user_bytes m (ram s) (srcva + n) (unat (len - n))"
        using user_bytes_append [of m "ram s" srcva "unat n" "unat (len - n)"] ul c(2) by simp
      ultimately show ?thesis
        using less.hyps [OF lt inv1 less.prems(3) um1 b1 off] step d s1 by (simp add: put_bytes_append)
    qed
  qed
qed

end
