(* ===== verification/VmSpec.thy ===== *)
theory VmSpec
  imports VmCopy
begin

text \<open>
  The contract of the page tables and the properties of mm/vm.c.
\<close>

section \<open>A page table is a map\<close>

text \<open>
  \<open>look s\<close> is the translation of the state: mapping one page adds an entry or fails without
  effect, and stops the kernel only on a page that is already mapped; unmapping removes it.
\<close>

locale page_mapper =
  fixes inv :: "'s \<Rightarrow> bool"
    and look :: "'s \<Rightarrow> u64 \<rightharpoonup> u64"
    and map1 :: "u64 \<Rightarrow> u64 \<Rightarrow> i32 \<Rightarrow> 's \<Rightarrow> (int \<times> 's) kres option"
    and unmap1 :: "u64 \<Rightarrow> 's \<Rightarrow> 's kres option"
    and entry :: "u64 \<Rightarrow> i32 \<Rightarrow> u64"
  assumes map1_cases: "inv s \<Longrightarrow> page_aligned va \<Longrightarrow>
      \<exists>r. map1 va pa perm s = Some r \<and>
        (case r of Inl e \<Rightarrow> look s va \<noteq> None
         | Inr (st, s') \<Rightarrow> inv s' \<and> (st = 0 \<and> look s' = (look s)(va \<mapsto> entry pa perm) \<or> st = - 1 \<and> look s' = look s))"
    and unmap1_ok: "inv s \<Longrightarrow> page_aligned va \<Longrightarrow> va < - 4096 \<Longrightarrow>
      \<exists>s'. unmap1 va s = Some (Inr s') \<and> inv s' \<and> look s' = (look s)(va := None)"

datatype map_op = VMap u64 u64 i32 | VUnmap u64

text \<open>Running requests, with the status of each (0 for an unmapping); a panic gives \<open>None\<close>.\<close>

fun run_map_ops :: "(u64 \<Rightarrow> u64 \<Rightarrow> i32 \<Rightarrow> 's \<Rightarrow> (int \<times> 's) kres option) \<Rightarrow> (u64 \<Rightarrow> 's \<Rightarrow> 's kres option) \<Rightarrow>
    map_op list \<Rightarrow> 's \<Rightarrow> (int list \<times> 's) option" where
  "run_map_ops map1 unmap1 [] s = Some ([], s)"
| "run_map_ops map1 unmap1 (VMap va pa perm # ops) s =
     (case map1 va pa perm s of
        Some (Inr (st, s')) \<Rightarrow> map_option (\<lambda>(sts, t). (st # sts, t)) (run_map_ops map1 unmap1 ops s')
      | _ \<Rightarrow> None)"
| "run_map_ops map1 unmap1 (VUnmap va # ops) s =
     (case unmap1 va s of
        Some (Inr s') \<Rightarrow> map_option (\<lambda>(sts, t). (0 # sts, t)) (run_map_ops map1 unmap1 ops s')
      | _ \<Rightarrow> None)"

text \<open>The specification: a finite map, on which the requests that failed have no effect.\<close>

fun spec_map_ops :: "(u64 \<Rightarrow> i32 \<Rightarrow> u64) \<Rightarrow> map_op list \<Rightarrow> int list \<Rightarrow> (u64 \<rightharpoonup> u64) \<Rightarrow> (u64 \<rightharpoonup> u64)" where
  "spec_map_ops entry (VMap va pa perm # ops) (st # sts) m =
     spec_map_ops entry ops sts (if st = 0 then m(va \<mapsto> entry pa perm) else m)"
| "spec_map_ops entry (VUnmap va # ops) (st # sts) m = spec_map_ops entry ops sts (m(va := None))"
| "spec_map_ops entry _ _ m = m"

definition map_op_ok :: "map_op \<Rightarrow> bool" where
  "map_op_ok op = (case op of VMap va pa perm \<Rightarrow> page_aligned va | VUnmap va \<Rightarrow> page_aligned va \<and> va < - 4096)"

context page_mapper
begin

lemma run_refines:
  "inv s \<Longrightarrow> list_all map_op_ok ops \<Longrightarrow> run_map_ops map1 unmap1 ops s = Some (sts, s') \<Longrightarrow>
   inv s' \<and> look s' = spec_map_ops entry ops sts (look s)"
proof (induction ops arbitrary: s sts)
  case (Cons op ops)
  show ?case
  proof (cases op)
    case (VMap va pa perm)
    then have al: "page_aligned va" using Cons.prems(2) by (simp add: map_op_ok_def)
    from Cons.prems(3) VMap obtain st s1 sts' where o: "map1 va pa perm s = Some (Inr (st, s1))"
      "run_map_ops map1 unmap1 ops s1 = Some (sts', s')" "sts = st # sts'"
      by (auto split: option.splits sum.splits)
    have "inv s1" "look s1 = (if st = 0 then (look s)(va \<mapsto> entry pa perm) else look s)"
      using map1_cases [OF Cons.prems(1) al, of pa perm] o(1) by auto
    then show ?thesis using Cons.IH [OF _ _ o(2)] Cons.prems(2) o(3) VMap by simp
  next
    case (VUnmap va)
    then have al: "page_aligned va" "va < - 4096" using Cons.prems(2) by (simp_all add: map_op_ok_def)
    obtain s1 where o: "unmap1 va s = Some (Inr s1)" "inv s1" "look s1 = (look s)(va := None)"
      using unmap1_ok [OF Cons.prems(1) al] by blast
    obtain sts' where r: "run_map_ops map1 unmap1 ops s1 = Some (sts', s')" "sts = 0 # sts'"
      using Cons.prems(3) VUnmap o(1) by (auto split: option.splits)
    show ?thesis using Cons.IH [OF o(2) _ r(1)] Cons.prems(2) o(3) r(2) VUnmap by (simp add: fun_upd_def)
  qed
qed simp

end

definition pt_state :: "u64 \<Rightarrow> mstate \<Rightarrow> bool" where
  "pt_state pt s \<longleftrightarrow> (\<exists>L own. pt_inv s L pt own)"

definition leaf_entry :: "u64 \<Rightarrow> i32 \<Rightarrow> u64" where
  "leaf_entry pa perm = PA2PTE pa OR scast perm OR PTE_V"

interpretation pm: page_mapper "pt_state pt" "\<lambda>s. maps s pt" "\<lambda>va pa perm. mappages pt va PG_4K_SIZE pa perm"
  "\<lambda>va. pg_unmap pt va 1 False" leaf_entry for pt
proof
  fix s va pa perm assume i: "pt_state pt s" and va: "page_aligned va"
  obtain L own where inv: "pt_inv s L pt own" using i by (auto simp: pt_state_def)
  have e1: "unat (4096::u64) div 4096 = 1" by simp
  have a4: "page_aligned (4096::u64)" "(4096::u64) \<noteq> 0" by (simp add: aligned_def, simp)
  obtain r where r: "mappages pt va 4096 pa perm s = Some r"
    "case r of Inl e \<Rightarrow> e = Panic ''mappages: remap'' \<and> (\<exists>j < 1. maps s pt (va + of_nat j * 4096) \<noteq> None)
       | Inr (st, s') \<Rightarrow> \<exists>k L' own'. pt_grows (s, L, own) pt (s', L', own') \<and>
          maps s' pt = map_run (maps s pt) va pa (scast perm) k \<and> (st = 0 \<and> k = 1 \<or> st = - 1 \<and> k < 1)"
    using mappages_ok [OF inv va a4, of pa perm] unfolding e1 by blast
  have "case r of Inl e \<Rightarrow> maps s pt va \<noteq> None
     | Inr (st, s') \<Rightarrow> pt_state pt s' \<and> (st = 0 \<and> maps s' pt = (maps s pt)(va \<mapsto> leaf_entry pa perm) \<or> st = - 1 \<and> maps s' pt = maps s pt)"
  proof (cases r)
    case (Inl e)
    then show ?thesis using r(2) by simp
  next
    case (Inr x)
    obtain st s' where x: "x = (st, s')" by (cases x)
    obtain k L' own' where k: "pt_grows (s, L, own) pt (s', L', own')"
      "maps s' pt = map_run (maps s pt) va pa (scast perm) k" "st = 0 \<and> k = 1 \<or> st = - 1 \<and> k = 0" using r(2) Inr x by auto
    have "pt_state pt s'" using pt_growsD(1) [OF k(1)] by (auto simp: pt_state_def)
    then show ?thesis using Inr x k(2,3) by (auto simp: leaf_entry_def)
  qed
  then show "\<exists>r. mappages pt va PG_4K_SIZE pa perm s = Some r \<and> (case r of Inl e \<Rightarrow> maps s pt va \<noteq> None
     | Inr (st, s') \<Rightarrow> pt_state pt s' \<and> (st = 0 \<and> maps s' pt = (maps s pt)(va \<mapsto> leaf_entry pa perm) \<or> st = - 1 \<and> maps s' pt = maps s pt))"
    using r(1) by (simp add: PG_4K_SIZE_def)
next
  fix s va assume i: "pt_state pt s" and va: "page_aligned va" "va < - 4096"
  obtain L own where inv: "pt_inv s L pt own" using i by (auto simp: pt_state_def)
  have b: "unat va + unat (1::u64) * 4096 < 18446744073709551616" using va(2) by (simp add: word_less_nat_alt)
  show "\<exists>s'. pg_unmap pt va 1 False s = Some (Inr s') \<and> pt_state pt s' \<and> maps s' pt = (maps s pt)(va := None)"
    using pg_unmap_ok [OF inv va(1) b, of False "{}"] by (auto simp: pt_state_def)
qed

lemma PTE2PA_offset: "PTE2PA e OR (va AND 0xFFF) = PTE2PA e + (va - PGROUNDDOWN va)"
proof -
  have "PTE2PA e AND (va AND mask 12) = 0"
    unfolding PTE2PA_def by (rule bit_word_eqI) (auto simp: bit_and_iff bit_mask_iff bit_push_bit_iff)
  then have "PTE2PA e AND (va AND 0xFFF) = 0" by (simp add: mask_eq_exp_minus_1)
  then have "PTE2PA e + (va AND 0xFFF) = PTE2PA e OR (va AND 0xFFF)" by (rule disjunctive_add_eq_or)
  then show ?thesis by (simp add: PGROUNDDOWN_sub)
qed

section \<open>Properties\<close>

text \<open>
  (C3) A page table refines a finite map. Over any sequence of one-page \<^verbatim>\<open>mappages\<close> and \<^verbatim>\<open>pg_unmap\<close>
  requests that does not panic, the translation in memory is the one obtained on a map from
  virtual pages to entries, where a request with status \<open>-1\<close> (no page left for a table) has no
  effect. No entry of another page is ever touched, whatever tables are shared or created.
\<close>

theorem pagetable_refines_map:
  assumes "pt_state pt s" "list_all map_op_ok ops"
    and "run_map_ops (\<lambda>va pa perm. mappages pt va PG_4K_SIZE pa perm) (\<lambda>va. pg_unmap pt va 1 False) ops s = Some (sts, s')"
  shows "pt_state pt s' \<and> maps s' pt = spec_map_ops leaf_entry ops sts (maps s pt)"
  using assms by (rule pm.run_refines)

text \<open>
  (C31) \<^verbatim>\<open>mappages\<close> on an aligned, non-empty range always returns. It panics only when a page of the range is already mapped. With status 0 exactly the pages of the range are mapped, each
  to its physical page with the given permissions; with status \<open>-1\<close> a strict prefix is. New
  live pages are tables, and no live page other than the tables changes.
\<close>

theorem mappages_spec:
  assumes "pt_inv s L pt own" "page_aligned va" "page_aligned sz" "sz \<noteq> 0"
  shows "\<exists>r. mappages pt va sz pa perm s = Some r \<and>
     (case r of Inl e \<Rightarrow> e = Panic ''mappages: remap'' \<and> (\<exists>j < unat sz div 4096. maps s pt (va + of_nat j * 4096) \<noteq> None)
      | Inr (st, s') \<Rightarrow> \<exists>k L' own'. pt_grows (s, L, own) pt (s', L', own') \<and>
          maps s' pt = map_run (maps s pt) va pa (scast perm) k \<and>
          (st = 0 \<and> k = unat sz div 4096 \<or> st = - 1 \<and> k < unat sz div 4096))"
  using assms by (rule mappages_ok)

text \<open>
  (C32) \<^verbatim>\<open>pg_unmap\<close> with \<^verbatim>\<open>do_free\<close> removes the entries of the range and gives back exactly the
  frames they pointed to, provided those frames are live pages of their own; the contents of
  all other pages stay.
\<close>

theorem pg_unmap_spec:
  assumes "pt_inv s L pt own" "page_aligned va" "unat va + unat n * 4096 < 2 ^ 64"
    and "own_frames (maps s pt) (L - dom own) va (unat n)"
  shows "\<exists>s'. pg_unmap pt va n True s = Some (Inr s') \<and>
     pt_inv s' (L - run_frames (maps s pt) va (unat n)) pt own \<and>
     (\<forall>x. maps s' pt x = (if \<exists>j < unat n. x = va + of_nat j * 4096 then None else maps s pt x)) \<and>
     (\<forall>z. PGROUNDDOWN z \<in> L - dom own - run_frames (maps s pt) va (unat n) \<longrightarrow> ram s' z = ram s z)"
proof -
  obtain s' where s': "pg_unmap pt va n True s = Some (Inr s')" "pt_inv s' (L - run_frames (maps s pt) va (unat n)) pt own"
    "maps s' pt = unmap_run (maps s pt) va (unat n)"
    "\<forall>z. PGROUNDDOWN z \<in> L - dom own - run_frames (maps s pt) va (unat n) \<longrightarrow> ram s' z = ram s z"
    using pg_unmap_ok [OF assms(1,2), of n True "run_frames (maps s pt) va (unat n)"] assms(3,4) by auto
  have "maps s' pt x = (if \<exists>j < unat n. x = va + of_nat j * 4096 then None else maps s pt x)" for x
    unfolding s'(3) by (rule unmap_run_apply)
  then show ?thesis using s'(1,2,4) by blast
qed

text \<open>
  (C33) The three ways the kernel reads a translation agree: \<^verbatim>\<open>va2pa\<close> gives frame and offset of the
  entry that \<^verbatim>\<open>pte_walk\<close> finds, and \<^verbatim>\<open>walkaddr\<close> gives its frame when the user may access it.
\<close>

theorem translations_agree:
  assumes "pt_inv s L pt own" "PGROUNDDOWN va < MAX_VA"
  shows "case maps s pt (PGROUNDDOWN va) of
      None \<Rightarrow> va2pa pt va s = - 1 \<and> walkaddr pt (PGROUNDDOWN va) s = 0
    | Some e \<Rightarrow> va2pa pt va s = PTE2PA e + (va - PGROUNDDOWN va) \<and>
        walkaddr pt (PGROUNDDOWN va) s = (if e AND PTE_U = 0 then 0 else PTE2PA e) \<and>
        get_pte (fst (pte_walk pt (PGROUNDDOWN va) False s)) s = e"
proof -
  have m: "PGROUNDDOWN va \<le> MAX_VA" "\<not> MAX_VA \<le> PGROUNDDOWN va" using assms(2) by auto
  note v = va2pa_maps [OF m(1), of pt s] and w = walkaddr_maps [OF assms(1), of "PGROUNDDOWN va"]
    and l = unmap_look(1) [OF assms(1), of "PGROUNDDOWN va"]
  show ?thesis
  proof (cases "maps s pt (PGROUNDDOWN va)")
    case None
    then show ?thesis using v w by simp
  next
    case (Some e)
    then show ?thesis using v w l m(2) PTE2PA_offset by (simp split: if_splits)
  qed
qed

text \<open>
  (C34) A page fault in the heap of the current task on a page that is not mapped either maps
  that page to a fresh zeroed frame, readable and writable by the user, or reports failure with
  the translation unchanged; other pages keep their contents.
\<close>

theorem page_fault_spec:
  assumes "pt_inv s L (task_pg ts) own" "type = PF_LOAD \<or> type = PF_STORE"
    and "heap_start ts \<le> a" "a < heap_brk ts" "maps s (task_pg ts) (PGROUNDDOWN a) = None"
  shows "\<exists>st pa s' L' own'. do_page_fault_with_new_pa ts a type s = Some (Inr (st, pa, s')) \<and>
    pt_inv s' L' (task_pg ts) own' \<and> L \<subseteq> L' \<and> dom own' \<inter> (L - dom own) = {} \<and>
    (\<forall>z. PGROUNDDOWN z \<in> L - dom own \<longrightarrow> ram s' z = ram s z) \<and>
    (st = - 1 \<and> maps s' (task_pg ts) = maps s (task_pg ts) \<or>
     st = 0 \<and> maps s' (task_pg ts) = (maps s (task_pg ts))(PGROUNDDOWN a \<mapsto> PA2PTE pa OR PTE_V OR PTE_W OR PTE_R OR PTE_U) \<and>
       pa \<noteq> 0 \<and> pa \<notin> L \<and> pa \<in> L' - dom own' \<and> (\<forall>z. PGROUNDDOWN z = pa \<longrightarrow> ram s' z = 0))"
  using assms by (rule page_fault_ok)

text \<open>
  (C35) \<^verbatim>\<open>copy_to_user\<close> into memory the user may write returns 0 and stores the source bytes
  at the translations of \<open>dst\<close>, \<open>dst + 1\<close>, ..., across page boundaries, and nothing else.
\<close>

theorem copy_to_user_spec:
  assumes "pt_inv s L pt own" "K \<subseteq> L - dom own" "user_mapped (maps s pt) K True dst (unat len)"
    and "unat src + unat len < 2 ^ 64" "\<forall>i < unat len. PGROUNDDOWN (src + of_nat i) \<notin> K"
  shows "copy_to_user ts pt dst src len s =
     Some (Inr (0, put_ram (put_bytes (upa (maps s pt)) dst (bytes (ram s) src (unat len)) (ram s)) s))"
  using copy_to_user_ok [OF assms(1) refl assms(2,3)] assms(4,5) by simp

text \<open>
  (C11) What \<^verbatim>\<open>copy_to_user\<close> puts into user memory, \<^verbatim>\<open>copy_from_user\<close> reads back: the second buffer
  then holds the bytes of the first, when no frame is mapped twice in the range.
\<close>

theorem user_copy_roundtrip:
  assumes "pt_inv s L pt own" "K \<subseteq> L - dom own" "user_mapped (maps s pt) K True va (unat len)"
    and "unat src + unat len < 2 ^ 64" "\<forall>i < unat len. PGROUNDDOWN (src + of_nat i) \<notin> K"
    and "unat dst + unat len < 2 ^ 64" "\<forall>i < unat len. PGROUNDDOWN (dst + of_nat i) \<notin> K \<union> dom own"
    and "inj_on (\<lambda>i. upa (maps s pt) (va + of_nat i)) {0..<unat len}"
  shows "\<exists>s1 s2. copy_to_user ts pt va src len s = Some (Inr (0, s1)) \<and> copy_from_user ts pt dst va len s1 = Some (Inr (0, s2)) \<and>
    bytes (ram s2) dst (unat len) = bytes (ram s) src (unat len)"
proof -
  define m n bs where "m = maps s pt" and "n = unat len" and "bs = bytes (ram s) src n"
  note um = assms(3) [folded m_def n_def]
  define s1 where "s1 = put_ram (put_bytes (upa m) va bs (ram s)) s"
  have c1: "copy_to_user ts pt va src len s = Some (Inr (0, s1))"
    using copy_to_user_ok [OF assms(1) refl assms(2,3)] assms(4,5) by (simp add: s1_def m_def n_def bs_def)
  have um': "user_mapped (maps s pt) K True va (length bs)" using assms(3) by (simp add: bs_def n_def)
  have inv1: "pt_inv s1 L pt own" "maps s1 pt = m"
    using user_write [OF assms(1,2) um'] by (simp_all add: s1_def m_def)
  have umf: "user_mapped m K False va n" using um unfolding user_mapped_def by blast
  have "ram s1 (upa m (va + of_nat k)) = bs ! k" if "k < n" for k
    unfolding s1_def ram_put_ram
  proof (rule put_bytes_read)
    fix i j assume "i < length bs" "j < length bs" "upa m (va + of_nat i) = upa m (va + of_nat j)"
    then show "i = j" using inj_onD [OF assms(8), of i j] by (simp add: bs_def n_def m_def)
  qed (simp add: bs_def that)
  then have ub: "user_bytes m (ram s1) va n = bs"
    by (intro nth_equalityI) (simp_all add: bs_def user_bytes_def)
  define s2 where "s2 = put_ram (put_bytes (\<lambda>x. x) dst bs (ram s1)) s1"
  have "K \<subseteq> L" using assms(2) by auto
  then have c2: "copy_from_user ts pt dst va len s1 = Some (Inr (0, s2))"
    using copy_from_user_ok [OF inv1, of K va len dst] umf assms(6,7) ub by (simp add: s2_def n_def)
  have "n < 18446744073709551616" using unat_bound [of len] by (simp add: n_def)
  then have "i = j" if "i < n" "j < n" "dst + of_nat i = dst + of_nat j" for i j
  proof -
    have "unat (of_nat i :: u64) = unat (of_nat j :: u64)" using that(3) by simp
    then show ?thesis using \<open>n < _\<close> that(1,2) by (simp add: unat_of_nat_small)
  qed
  then have "ram s2 (dst + of_nat k) = bs ! k" if "k < n" for k
    unfolding s2_def ram_put_ram using that by (intro put_bytes_read [where xl = "\<lambda>x. x"]) (simp_all add: bs_def)
  then have "bytes (ram s2) dst n = bs" by (intro nth_equalityI) (simp_all add: bs_def bytes_def)
  then show ?thesis using c1 c2 by (auto simp: bs_def n_def)
qed

section \<open>A concrete page table\<close>

text \<open>
  Pages 1, 2 and 3 are the tables of the three levels, page 4 is a user frame mapped at
  \<open>0x1000\<close>, page 5 belongs to the kernel, pages 6 and 7 are free.
\<close>

definition vm_words :: "u64 \<Rightarrow> u64" where
  "vm_words a = (if a = blk (page_addr 1) 3 0 then PA2PTE (page_addr 2) OR PTE_V
     else if a = blk (page_addr 2) 3 0 then PA2PTE (page_addr 3) OR PTE_V
     else if a = blk (page_addr 3) 3 1 then leaf_entry (page_addr 4) 22 else 0)"

definition demo_pt :: u64 where "demo_pt = page_addr 1"
definition demo_vm :: mstate where "demo_vm = used_pages 5 (mem_of_words vm_words)"
definition demo_own :: table_map where "demo_own = [page_addr 1 \<mapsto> (2, 0), page_addr 2 \<mapsto> (1, 0), page_addr 3 \<mapsto> (0, 0)]"
definition demo_task :: vm_task where "demo_task = \<lparr>heap_start = 0x2000, heap_brk = 0x4000, task_pg = demo_pt\<rparr>"

lemma demo_page [simp]: "i < 100 \<Longrightarrow> page_aligned (page_addr i)" "i < 100 \<Longrightarrow> j < 100 \<Longrightarrow> page_addr i = page_addr j \<longleftrightarrow> i = j"
  "i < 100 \<Longrightarrow> page_addr i \<noteq> 0"
proof -
  assume i: "i < 100"
  then show "page_aligned (page_addr i)" by (intro page_addr_aligned) (simp add: page_bound_def)
  show "j < 100 \<Longrightarrow> page_addr i = page_addr j \<longleftrightarrow> i = j" using page_addr_inj [of i j] i by (simp add: page_bound_def)
  show "page_addr i \<noteq> 0" using i by (intro page_addr_nz) (simp add: page_bound_def)
qed

lemma blk_eq:
  assumes "page_aligned q" "page_aligned q'" "i < 512" "j < 512"
  shows "blk q 3 i = blk q' 3 j \<longleftrightarrow> q = q' \<and> i = j"
proof
  assume eq: "blk q 3 i = blk q' 3 j"
  have "PGROUNDDOWN (blk q 3 i) = q" "PGROUNDDOWN (blk q' 3 j) = q'" using assms by (simp_all add: blk_props(1))
  then have "q = q'" using eq by simp
  then show "q = q' \<and> i = j" using eq blk_inj [of i 3 j q] assms(3,4) by simp
qed simp

lemma demo_pte:
  assumes "k < 100" "i < 512"
  shows "get_pte (blk (page_addr k) 3 i) demo_vm =
    (if k = 1 \<and> i = 0 then PA2PTE (page_addr 2) OR PTE_V else if k = 2 \<and> i = 0 then PA2PTE (page_addr 3) OR PTE_V
     else if k = 3 \<and> i = 1 then leaf_entry (page_addr 4) 22 else 0)"
proof -
  have "aligned 3 (blk (page_addr k) 3 i)" using blk_props(2) [of "page_addr k" i 3] assms by simp
  then have "get_pte (blk (page_addr k) 3 i) demo_vm = vm_words (blk (page_addr k) 3 i)"
    by (simp add: get_pte_def demo_vm_def load64_mem_of_words)
  moreover have "blk (page_addr k) 3 i = blk (page_addr k') 3 j \<longleftrightarrow> k = k' \<and> i = j" if "k' < 100" "j < 512" for k' j
    using assms that by (simp add: blk_eq)
  then have "blk (page_addr k) 3 i = blk (page_addr 1) 3 0 \<longleftrightarrow> k = 1 \<and> i = 0" "blk (page_addr k) 3 i = blk (page_addr 2) 3 0 \<longleftrightarrow> k = 2 \<and> i = 0"
    "blk (page_addr k) 3 i = blk (page_addr 3) 3 1 \<longleftrightarrow> k = 3 \<and> i = 1" by simp_all
  ultimately show ?thesis unfolding vm_words_def by (simp only:)
qed

lemma demo_entry [simp]: "PTE2PA (PA2PTE (page_addr 2) OR PTE_V) = page_addr 2" "PTE2PA (PA2PTE (page_addr 3) OR PTE_V) = page_addr 3"
  "PTE2PA (leaf_entry (page_addr 4) 22) = page_addr 4" "leaf_entry (page_addr 4) 22 AND PTE_U \<noteq> 0" "leaf_entry (page_addr 4) 22 AND PTE_W \<noteq> 0"
  by (simp_all add: PTE2PA_def PA2PTE_def leaf_entry_def page_addr_def MEMORY_START_def PTE_V_def PTE_U_def PTE_W_def)

lemma demo_entry_V [simp]: "valid (leaf_entry pa perm)"
  unfolding leaf_entry_def or.assoc [symmetric] by (rule valid_or_V)

lemma PTE_V_nz [simp]: "PTE_V \<noteq> 0"
  by (simp add: PTE_V_def)

lemma demo_own_simps: "demo_own q = Some x \<longleftrightarrow> q = page_addr 1 \<and> x = (2, 0) \<or> q = page_addr 2 \<and> x = (1, 0) \<or> q = page_addr 3 \<and> x = (0, 0)"
  by (auto simp: demo_own_def)

lemma demo_dom: "dom demo_own = page_addr ` {1, 2, 3}"
  by (auto simp: demo_own_def)

lemma demo_vm_inv: "pt_inv demo_vm (page_addr ` {1..5}) demo_pt demo_own"
proof -
  have inj: "inj_on demo_own (dom demo_own)" unfolding demo_dom by (auto simp: inj_on_def demo_own_def)
  have p1: "get_pte (blk (page_addr 1) 3 i) demo_vm = (if i = 0 then PA2PTE (page_addr 2) OR PTE_V else 0)"
    and p2: "get_pte (blk (page_addr 2) 3 i) demo_vm = (if i = 0 then PA2PTE (page_addr 3) OR PTE_V else 0)" if "i < 512" for i
    using that demo_pte [of 1 i] demo_pte [of 2 i] by simp_all
  have o: "demo_own (page_addr 1) = Some (2, 0)" "demo_own (page_addr 2) = Some (1, 0)" "demo_own (page_addr 3) = Some (0, 0)"
    by (simp_all add: demo_own_def)
  have down: "demo_own (PTE2PA (get_pte (blk q 3 i) demo_vm)) = Some (l, 512 * k + i)"
    if q: "demo_own q = Some (Suc l, k)" and i: "i < 512" and v: "valid (get_pte (blk q 3 i) demo_vm)" for q l k i
  proof -
    consider "q = page_addr 1" "l = 1" "k = 0" | "q = page_addr 2" "l = 0" "k = 0"
      using q unfolding demo_own_simps by auto
    then show ?thesis using v o(2,3) p1 [OF i] p2 [OF i] by cases (simp_all split: if_splits)
  qed
  have up: "q = page_addr 1 \<or> (\<exists>q'. demo_own q' = Some (Suc l, k div 512) \<and>
      valid (get_pte (blk q' 3 (k mod 512)) demo_vm) \<and> PTE2PA (get_pte (blk q' 3 (k mod 512)) demo_vm) = q)"
    if q: "demo_own q = Some (l, k)" for q l k
  proof -
    consider "q = page_addr 1" | "q = page_addr 2" "l = 1" "k = 0" | "q = page_addr 3" "l = 0" "k = 0"
      using q unfolding demo_own_simps by auto
    then show ?thesis
    proof cases
      case 2
      then show ?thesis using o(1) p1 [of 0] by (intro disjI2 exI [of _ "page_addr 1"]) simp
    next
      case 3
      then show ?thesis using o(2) p2 [of 0] by (intro disjI2 exI [of _ "page_addr 2"]) simp
    qed simp
  qed
  have lv: "l \<le> 2" if "demo_own q = Some (l, k)" for q l k using that unfolding demo_own_simps by auto
  have al: "page_aligned q \<and> q \<noteq> 0" if "q \<in> dom demo_own" for q using that unfolding demo_dom by auto
  have "pt_ok (\<lambda>p. get_pte p demo_vm) (page_addr 1) demo_own"
    unfolding pt_ok_def using inj o(1) al lv down up by blast
  moreover have "dom demo_own \<subseteq> page_addr ` {1..5}" unfolding demo_dom by (rule image_mono) auto
  ultimately show ?thesis using used_pages_inv [of 5] unfolding demo_pt_def by (simp add: pt_inv_def demo_vm_def)
qed

lemma demo_maps:
  assumes "unat va < 2 ^ 21"
  shows "maps demo_vm demo_pt va =
    (if page_aligned va \<and> unat va div 4096 = 1 then Some (leaf_entry (page_addr 4) 22) else None)"
proof -
  have v: "vpn (Suc (Suc 0)) va = 0" "vpn (Suc 0) va = 0" "vpn 0 va = unat va div 4096" using assms by (simp_all add: vpn_def)
  have m: "\<not> MAX_VA < va" using assms by (simp add: MAX_VA_def word_less_nat_alt)
  have q: "unat va div 4096 < 512" using assms by simp
  have p: "get_pte (blk demo_pt 3 0) demo_vm = PA2PTE (page_addr 2) OR PTE_V"
    "get_pte (blk (page_addr 2) 3 0) demo_vm = PA2PTE (page_addr 3) OR PTE_V"
    "get_pte (blk (page_addr 3) 3 (unat va div 4096)) demo_vm = (if unat va div 4096 = 1 then leaf_entry (page_addr 4) 22 else 0)"
    using demo_pte [of 1 0] demo_pte [of 2 0] demo_pte [of 3 "unat va div 4096"] q by (simp_all add: demo_pt_def)
  have "leaf demo_vm demo_pt va = (if unat va div 4096 = 1 then Some (leaf_entry (page_addr 4) 22) else None)"
  proof -
    have "leaf demo_vm demo_pt va = leaf_at (Suc (Suc 0)) (\<lambda>p. get_pte p demo_vm) demo_pt va"
      using m by (simp add: leaf_def numeral_2_eq_2)
    also have "\<dots> = leaf_at (Suc 0) (\<lambda>p. get_pte p demo_vm) (page_addr 2) va" unfolding leaf_at_simps(2) [of "Suc 0"] using v(1) p(1) by (simp only: Let_def mod_0 valid_or_V demo_entry if_True simp_thms)
    also have "\<dots> = leaf_at 0 (\<lambda>p. get_pte p demo_vm) (page_addr 3) va" unfolding leaf_at_simps(2) using v(2) p(2) by (simp only: Let_def mod_0 valid_or_V demo_entry if_True simp_thms)
    finally show ?thesis using v(3) p(3) q by (cases "unat va div 4096 = 1") simp_all
  qed
  then show ?thesis by (simp add: maps_def)
qed

lemma demo_maps_at: "maps demo_vm demo_pt 0x1000 = Some (leaf_entry (page_addr 4) 22)" "maps demo_vm demo_pt 0x2000 = None"
  using demo_maps [of "0x1000"] demo_maps [of "0x2000"] by (simp_all add: aligned_def)

lemma demo_user: "user_mapped (maps demo_vm demo_pt) {page_addr 4} True 0x1010 32"
proof -
  have "PGROUNDDOWN (0x1000 + of_nat (16 + i)) = 0x1000" if "i < 32" for i
    by (rule PGROUNDDOWN_plus) (use that in \<open>simp_all add: aligned_def unat_of_nat_small del: of_nat_add\<close>)
  then have "PGROUNDDOWN (0x1010 + of_nat i) = 0x1000" if "i < 32" for i using that by (simp add: add.assoc [symmetric])
  then show ?thesis by (simp add: user_mapped_def demo_maps_at)
qed

lemma demo_frames: "{page_addr 4} \<subseteq> page_addr ` {1..5} - dom demo_own"
  unfolding demo_dom by auto

text \<open>Addresses of page \<open>k\<close>, written from its start.\<close>

lemma in_demo_page: "k < 100 \<Longrightarrow> j < 4096 \<Longrightarrow> PGROUNDDOWN (page_addr k + of_nat j) = page_addr k"
  by (rule PGROUNDDOWN_plus) (simp_all add: unat_of_nat_small)

theorem pagetable_refines_map_witness:
  "\<exists>s'. run_map_ops (\<lambda>va pa perm. mappages demo_pt va PG_4K_SIZE pa perm) (\<lambda>va. pg_unmap demo_pt va 1 False) [VUnmap 0x1000] demo_vm = Some ([0], s') \<and>
     maps s' demo_pt = (maps demo_vm demo_pt)(0x1000 := None)"
proof -
  have st: "pt_state demo_pt demo_vm" using demo_vm_inv by (auto simp: pt_state_def)
  have ok: "list_all map_op_ok [VUnmap 0x1000]" by (simp add: map_op_ok_def aligned_def word_less_nat_alt)
  obtain s' where "pg_unmap demo_pt 0x1000 1 False demo_vm = Some (Inr s')"
    using pm.unmap1_ok [OF st, of "0x1000"] by (auto simp: aligned_def word_less_nat_alt)
  then have "run_map_ops (\<lambda>va pa perm. mappages demo_pt va PG_4K_SIZE pa perm) (\<lambda>va. pg_unmap demo_pt va 1 False) [VUnmap 0x1000] demo_vm = Some ([0], s')" by simp
  with pagetable_refines_map [OF st ok this] show ?thesis by auto
qed

theorem mappages_spec_witness:
  "\<exists>r. mappages demo_pt 0x2000 0x1000 (page_addr 5) 22 demo_vm = Some r \<and> (\<forall>e. r \<noteq> Inl e)"
proof -
  obtain r where r: "mappages demo_pt 0x2000 0x1000 (page_addr 5) 22 demo_vm = Some r"
    "case r of Inl e \<Rightarrow> e = Panic ''mappages: remap'' \<and> (\<exists>j < 1. maps demo_vm demo_pt (0x2000 + of_nat j * 4096) \<noteq> None) | Inr x \<Rightarrow> True"
    using mappages_spec [OF demo_vm_inv, of "0x2000" "0x1000" "page_addr 5" 22] by (fastforce simp: aligned_def split: sum.splits)
  then show ?thesis by (auto simp: demo_maps_at split: sum.splits)
qed

theorem pg_unmap_spec_witness:
  "\<exists>s'. pg_unmap demo_pt 0x1000 1 True demo_vm = Some (Inr s') \<and> page_inv s' (page_addr ` {1, 2, 3, 5})"
proof -
  have f: "run_frames (maps demo_vm demo_pt) 0x1000 1 = {page_addr 4}" by (auto simp: run_frames_def demo_maps_at)
  have "own_frames (maps demo_vm demo_pt) (page_addr ` {1..5} - dom demo_own) 0x1000 1"
    unfolding own_frames_def f using demo_frames by simp
  then obtain s' where s': "pg_unmap demo_pt 0x1000 1 True demo_vm = Some (Inr s')"
    "pt_inv s' (page_addr ` {1..5} - {page_addr 4}) demo_pt demo_own"
    using pg_unmap_spec [OF demo_vm_inv, of "0x1000" 1] f by (auto simp: aligned_def)
  have "page_addr ` {1..5} - {page_addr 4} = page_addr ` ({1..5} - {4})" by (subst inj_on_image_set_diff [of page_addr "{1..5}"]) (auto simp: inj_on_def)
  also have "{1..5} - {4} = {1, 2, 3, 5 :: nat}" by auto
  finally show ?thesis using s' by (auto simp: pt_inv_def)
qed

theorem translations_agree_witness:
  "va2pa demo_pt 0x1000 demo_vm = page_addr 4 \<and> walkaddr demo_pt 0x1000 demo_vm = page_addr 4"
proof -
  have r: "PGROUNDDOWN 0x1000 = 0x1000" using PGROUNDDOWN_plus [of "0x1000" 0] by (simp add: aligned_def)
  then show ?thesis using translations_agree [OF demo_vm_inv, of "0x1000"] by (simp add: demo_maps_at MAX_VA_def)
qed

theorem page_fault_spec_witness:
  "\<exists>st pa s'. do_page_fault_with_new_pa demo_task 0x2010 PF_STORE demo_vm = Some (Inr (st, pa, s')) \<and> (st = 0 \<or> st = - 1)"
proof -
  have r: "PGROUNDDOWN 0x2010 = 0x2000" using PGROUNDDOWN_plus [of "0x2000" "0x10"] by (simp add: aligned_def)
  have t: "task_pg demo_task = demo_pt" "heap_start demo_task = 0x2000" "heap_brk demo_task = 0x4000" by (simp_all add: demo_task_def)
  show ?thesis using page_fault_spec [of demo_vm "page_addr ` {1..5}" demo_task demo_own PF_STORE "0x2010"] demo_vm_inv demo_maps_at(2) r t by auto
qed

theorem copy_to_user_spec_witness:
  "\<exists>s'. copy_to_user demo_task demo_pt 0x1010 (page_addr 5) 32 demo_vm = Some (Inr (0, s'))"
proof -
  have k: "\<forall>i < unat (32 :: u64). PGROUNDDOWN (page_addr 5 + of_nat i) \<notin> {page_addr 4}" by (simp add: in_demo_page)
  have b: "unat (page_addr 5) + unat (32 :: u64) < 2 ^ 64" by (simp add: page_addr_def MEMORY_START_def)
  show ?thesis using copy_to_user_spec [OF demo_vm_inv demo_frames _ b k] demo_user by simp
qed

theorem user_copy_roundtrip_witness:
  "\<exists>s1 s2. copy_to_user demo_task demo_pt 0x1010 (page_addr 5) 32 demo_vm = Some (Inr (0, s1)) \<and>
     copy_from_user demo_task demo_pt (page_addr 5 + 64) 0x1010 32 s1 = Some (Inr (0, s2)) \<and>
     bytes (ram s2) (page_addr 5 + 64) 32 = bytes (ram demo_vm) (page_addr 5) 32"
proof -
  have k: "\<forall>i < unat (32 :: u64). PGROUNDDOWN (page_addr 5 + of_nat i) \<notin> {page_addr 4}" by (simp add: in_demo_page)
  have "PGROUNDDOWN (page_addr 5 + 64 + of_nat i) = page_addr 5" if "i < 32" for i using in_demo_page [of 5 "64 + i"] that by (simp add: add.assoc)
  then have d: "\<forall>i < unat (32 :: u64). PGROUNDDOWN (page_addr 5 + 64 + of_nat i) \<notin> {page_addr 4} \<union> dom demo_own"
    unfolding demo_dom by auto
  have b: "unat (page_addr 5) + unat (32 :: u64) < 2 ^ 64" "unat (page_addr 5 + 64) + unat (32 :: u64) < 2 ^ 64"
    by (simp_all add: page_addr_def MEMORY_START_def)
  have "upa (maps demo_vm demo_pt) (0x1010 + of_nat i) = page_addr 4 + (0x10 + of_nat i)" if "i < 32" for i
  proof -
    have "PGROUNDDOWN (0x1000 + of_nat (16 + i)) = 0x1000"
      by (rule PGROUNDDOWN_plus) (use that in \<open>simp_all add: aligned_def unat_of_nat_small del: of_nat_add\<close>)
    then have "PGROUNDDOWN (0x1010 + of_nat i) = 0x1000" by (simp add: add.assoc [symmetric])
    then show ?thesis by (simp add: upa_def demo_maps_at)
  qed
  then have inj: "inj_on (\<lambda>i. upa (maps demo_vm demo_pt) (0x1010 + of_nat i)) {0..<unat (32 :: u64)}"
    by (simp add: inj_on_def) (simp add: word_unat_eq_iff unat_of_nat_small)
  show ?thesis using user_copy_roundtrip [OF demo_vm_inv demo_frames _ b(1) k b(2) d inj] demo_user by simp
qed

end
