(* ===== verification/Dma.thy ===== *)
theory Dma
  imports Vm
begin

text \<open>
  The DMA buffer allocator of mm/dma.c: a window of virtual addresses handed out from the bottom
  up and never given back. The critical section under \<^verbatim>\<open>dma_alloc_lock\<close> is one step.
\<close>

section \<open>The model\<close>

record dma_state =
  dma_buf_start :: u64
  dma_buf_end :: u64

definition init_dma :: "dma_state \<Rightarrow> dma_state" where
  "init_dma d = d\<lparr>dma_buf_start := DMA_START_BASE, dma_buf_end := DMA_END\<rparr>"

definition dma_alloc :: "u64 \<Rightarrow> dma_state \<Rightarrow> u64 \<times> dma_state" where
  "dma_alloc sz d =
     (if dma_buf_end d < dma_buf_start d + sz then (0, d)
      else (dma_buf_start d, d\<lparr>dma_buf_start := dma_buf_start d + sz\<rparr>))"

fun dma_allocs :: "u64 list \<Rightarrow> dma_state \<Rightarrow> (u64 \<times> u64) list \<times> dma_state" where
  "dma_allocs [] d = ([], d)"
| "dma_allocs (sz # szs) d =
     (let (p, d1) = dma_alloc sz d; (ps, d2) = dma_allocs szs d1 in ((p, sz) # ps, d2))"

section \<open>Buffers\<close>

text \<open>Sizes below \<open>2 ^ 63\<close> cannot wrap around the address space.\<close>

lemma dma_alloc_step:
  assumes "unat (dma_buf_start d) \<le> unat (dma_buf_end d)" "unat (dma_buf_end d) < 2 ^ 63" "unat sz < 2 ^ 63" "dma_alloc sz d = (p, d')"
  shows "p = 0 \<and> d' = d \<and> unat (dma_buf_end d) < unat (dma_buf_start d) + unat sz \<or>
    p = dma_buf_start d \<and> dma_buf_end d' = dma_buf_end d \<and> unat (dma_buf_start d') = unat (dma_buf_start d) + unat sz \<and>
    unat (dma_buf_start d') \<le> unat (dma_buf_end d)"
proof -
  have "unat (dma_buf_start d + sz) = unat (dma_buf_start d) + unat sz"
    using assms(1-3) by (simp add: unat_word_ariths)
  then show ?thesis using assms(4) by (auto simp: dma_alloc_def word_less_nat_alt split: if_splits)
qed

text \<open>The buffers of a run, as address ranges, follow each other inside the window.\<close>

fun stacked :: "nat \<Rightarrow> nat \<Rightarrow> (u64 \<times> u64) list \<Rightarrow> bool" where
  "stacked lo hi [] \<longleftrightarrow> lo \<le> hi"
| "stacked lo hi ((p, sz) # ps) \<longleftrightarrow>
     (if p = 0 then hi < lo + unat sz \<and> stacked lo hi ps else unat p = lo \<and> stacked (lo + unat sz) hi ps)"

lemma dma_allocs_stacked:
  "unat (dma_buf_start d) \<le> unat (dma_buf_end d) \<Longrightarrow> unat (dma_buf_end d) < 2 ^ 63 \<Longrightarrow> 0 < unat (dma_buf_start d) \<Longrightarrow>
   \<forall>sz \<in> set szs. unat sz < 2 ^ 63 \<Longrightarrow> stacked (unat (dma_buf_start d)) (unat (dma_buf_end d)) (fst (dma_allocs szs d))"
proof (induction szs arbitrary: d)
  case (Cons sz szs)
  obtain p d1 where d1: "dma_alloc sz d = (p, d1)" by (cases "dma_alloc sz d")
  have nz: "dma_buf_start d \<noteq> 0" using Cons.prems(3) by auto
  have sz: "unat sz < 2 ^ 63" using Cons.prems(4) by simp
  show ?case
    using dma_alloc_step [OF Cons.prems(1,2) sz d1] Cons.IH [of d1] Cons.prems d1 nz
    by (auto simp: split_def Let_def)
qed simp

lemma stacked_bounds: "stacked lo hi ps \<Longrightarrow> (p, sz) \<in> set ps \<Longrightarrow> p \<noteq> 0 \<Longrightarrow> lo \<le> unat p \<and> unat p + unat sz \<le> hi"
proof (induction lo hi ps rule: stacked.induct)
  case (2 lo hi q s ps)
  have "lo \<le> hi" if "stacked lo hi ps" for lo hi and ps :: "(u64 \<times> u64) list"
    using that by (induction lo hi ps rule: stacked.induct) (auto split: if_splits)
  then show ?case using 2 by (fastforce split: if_splits)
qed simp

lemma stacked_disjoint:
  "stacked lo hi ps \<Longrightarrow> i < j \<Longrightarrow> j < length ps \<Longrightarrow> fst (ps ! i) \<noteq> 0 \<Longrightarrow> fst (ps ! j) \<noteq> 0 \<Longrightarrow>
   unat (fst (ps ! i)) + unat (snd (ps ! i)) \<le> unat (fst (ps ! j))"
proof (induction lo hi ps arbitrary: i j rule: stacked.induct)
  case (2 lo hi q s ps)
  obtain j' where j: "j = Suc j'" using 2(4) by (cases j) simp_all
  show ?case
  proof (cases i)
    case 0
    have "(fst (ps ! j'), snd (ps ! j')) \<in> set ps" using 2(5) j by simp
    then show ?thesis using 0 j 2(3,6,7) stacked_bounds [of "lo + unat s" hi ps "fst (ps ! j')" "snd (ps ! j')"] by simp
  next
    case (Suc i')
    then show ?thesis using 2 j by (auto split: if_splits)
  qed
qed simp

section \<open>Properties\<close>

text \<open>
  (C36) After \<^verbatim>\<open>init_dma\<close>, whatever sizes below \<open>2 ^ 63\<close> are requested, each non-null buffer of
  \<^verbatim>\<open>dma_alloc\<close> lies in the DMA window and no two of them overlap.
\<close>

theorem dma_buffers_disjoint:
  assumes "\<forall>sz \<in> set szs. unat sz < 2 ^ 63" and "dma_allocs szs (init_dma d) = (ps, d')"
    and "i < length ps" "ps ! i = (p, m)" "p \<noteq> 0"
  shows "unat DMA_START_BASE \<le> unat p \<and> unat p + unat m \<le> unat DMA_END \<and>
    (\<forall>j q n. j < length ps \<longrightarrow> j \<noteq> i \<longrightarrow> ps ! j = (q, n) \<longrightarrow> q \<noteq> 0 \<longrightarrow> unat q + unat n \<le> unat p \<or> unat p + unat m \<le> unat q)"
proof -
  have s: "stacked (unat DMA_START_BASE) (unat DMA_END) ps"
    using dma_allocs_stacked [of "init_dma d" szs] assms(1,2)
    by (simp add: init_dma_def DMA_START_BASE_def DMA_END_def END_OF_KERNEL_STACK_def PG_4K_SIZE_def DMA_PAGE_COUNT_def)
  have "unat q + unat n \<le> unat p \<or> unat p + unat m \<le> unat q"
    if "j < length ps" "j \<noteq> i" "ps ! j = (q, n)" "q \<noteq> 0" for j q n
    using stacked_disjoint [OF s, of i j] stacked_disjoint [OF s, of j i] that assms(3-5) by (cases "i < j") auto
  moreover have "(p, m) \<in> set ps" using assms(3,4) nth_mem by force
  ultimately show ?thesis using stacked_bounds [OF s] assms(5) by blast
qed

theorem dma_buffers_disjoint_witness:
  "fst (dma_allocs [4096, 8192] (init_dma (init_dma undefined))) = [(DMA_START_BASE, 4096), (DMA_START_BASE + 4096, 8192)] \<and>
   unat DMA_START_BASE + 4096 \<le> unat (DMA_START_BASE + 4096)"
proof -
  let ?d = "init_dma undefined :: dma_state"
  have r: "fst (dma_allocs [4096, 8192] (init_dma ?d)) = [(DMA_START_BASE, 4096), (DMA_START_BASE + 4096, 8192)]"
    by (simp add: dma_alloc_def init_dma_def DMA_START_BASE_def DMA_END_def END_OF_KERNEL_STACK_def PG_4K_SIZE_def DMA_PAGE_COUNT_def)
  then obtain d' where r': "dma_allocs [4096, 8192] (init_dma ?d) = ([(DMA_START_BASE, 4096), (DMA_START_BASE + 4096, 8192)], d')"
    by (metis prod.collapse)
  have "DMA_START_BASE \<noteq> 0" "DMA_START_BASE + 4096 \<noteq> 0" "unat (DMA_START_BASE + 4096) = unat DMA_START_BASE + 4096"
    by (simp_all add: DMA_START_BASE_def DMA_END_def END_OF_KERNEL_STACK_def PG_4K_SIZE_def DMA_PAGE_COUNT_def)
  then show ?thesis using r dma_buffers_disjoint [OF _ r', of 0 DMA_START_BASE 4096] by auto
qed

text \<open>A size that wraps around passes the check and moves the window start backwards.\<close>

lemma dma_alloc_wraps:
  "dma_alloc (- 4096) (init_dma d) = (DMA_START_BASE, (init_dma d)\<lparr>dma_buf_start := DMA_START_BASE - 4096\<rparr>)"
  by (simp add: dma_alloc_def init_dma_def DMA_START_BASE_def DMA_END_def END_OF_KERNEL_STACK_def PG_4K_SIZE_def DMA_PAGE_COUNT_def)

end
