(* ===== verification/Hashmap.thy ===== *)
theory Hashmap
  imports SlabInit
begin

text \<open>
  utils/hashmap.c: hash tables with chained buckets, allocated from the slab allocator. The
  structures are kept in typed stores indexed by their addresses (tables, nodes, cells of the
  bucket arrays); the keys are bytes of the memory of the slab state. \<^verbatim>\<open>panic_wrong\<close> only prints. The
  critical section under \<^verbatim>\<open>ht->lock\<close>, with the hashing before it, is one step.
\<close>

section \<open>The model\<close>

record hash_node =
  nkey :: u64
  nvalue :: u64
  nkey_len :: u32
  nhash :: u32
  nnext :: u64

type_synonym hash_fun = "memory \<Rightarrow> u64 \<Rightarrow> u32 \<Rightarrow> u32"
type_synonym equal_fun = "memory \<Rightarrow> u64 \<Rightarrow> u64 \<Rightarrow> u32 \<Rightarrow> bool"

record hash_table =
  buckets :: u64
  tsize :: u32
  tcount :: u32
  hash_func :: hash_fun
  key_equal :: equal_fun

record hash_heap =
  hslab :: slab_state
  tables :: "u64 \<Rightarrow> hash_table"
  nodes :: "u64 \<Rightarrow> hash_node"
  cells :: "u64 \<Rightarrow> u64"

abbreviation hmem :: "hash_heap \<Rightarrow> memory" where "hmem h \<equiv> ram (pages (hslab h))"

definition HASH_TABLE_LOAD_FACTOR :: u32 where "HASH_TABLE_LOAD_FACTOR = 75"
definition HASH_TABLE_MIN_SIZE :: u32 where "HASH_TABLE_MIN_SIZE = 8"

fun fnv_loop :: "u32 \<Rightarrow> u8 list \<Rightarrow> u32" where
  "fnv_loop hash [] = hash"
| "fnv_loop hash (b # bs) = fnv_loop ((hash XOR ucast b) * 16777619) bs"

definition default_hash_func :: hash_fun where
  "default_hash_func m key len = fnv_loop 2166136261 (bytes m key (unat len))"

fun equal_loop :: "memory \<Rightarrow> u64 \<Rightarrow> u64 \<Rightarrow> nat \<Rightarrow> bool" where
  "equal_loop m k1 k2 0 = True"
| "equal_loop m k1 k2 (Suc n) = (if m k1 \<noteq> m k2 then False else equal_loop m (k1 + 1) (k2 + 1) n)"

definition default_key_equal :: equal_fun where
  "default_key_equal m key1 key2 len =
     (if key1 = key2 then True else if key1 = 0 \<or> key2 = 0 then False else equal_loop m key1 key2 (unat len))"

partial_function (option) pow2_loop :: "u32 \<Rightarrow> u32 \<Rightarrow> u32 option" where
  "pow2_loop p n = (if p < n then pow2_loop (push_bit 1 p) n else Some p)"

definition round_up_pow2 :: "u32 \<Rightarrow> u32 option" where "round_up_pow2 n = pow2_loop HASH_TABLE_MIN_SIZE n"

definition cell :: "u64 \<Rightarrow> u32 \<Rightarrow> u64" where "cell a i = a + 8 * ucast i"

fun clear_cells :: "u64 \<Rightarrow> nat \<Rightarrow> (u64 \<Rightarrow> u64) \<Rightarrow> (u64 \<Rightarrow> u64)" where
  "clear_cells a 0 c = c"
| "clear_cells a (Suc n) c = (clear_cells a n c)(a + 8 * of_nat n := 0)"

text \<open>\<^verbatim>\<open>slab_alloc\<close> and \<^verbatim>\<open>slab_free\<close> on the heap; \<open>sizeof(hash_table_t)\<close> is 48, \<open>sizeof(hash_node_t)\<close> is 32.\<close>

definition halloc :: "u64 \<Rightarrow> hash_heap \<Rightarrow> (u64 \<times> hash_heap) kres option" where
  "halloc n h = Option.bind (slab_alloc (ucast n) (hslab h)) (\<lambda>r.
     case r of Inl e \<Rightarrow> Some (Inl e) | Inr (p, st) \<Rightarrow> Some (Inr (p, h\<lparr>hslab := st\<rparr>)))"

definition hfree :: "u64 \<Rightarrow> hash_heap \<Rightarrow> hash_heap kres" where
  "hfree p h = (case slab_free p (hslab h) of Inl e \<Rightarrow> Inl e | Inr st \<Rightarrow> Inr (h\<lparr>hslab := st\<rparr>))"

text \<open>A missing function is the default one.\<close>

definition hash_table_create :: "u32 \<Rightarrow> hash_fun option \<Rightarrow> equal_fun option \<Rightarrow> hash_heap \<Rightarrow> (u64 \<times> hash_heap) kres option" where
  "hash_table_create initial_size hf ke h =
     Option.bind (round_up_pow2 (if initial_size < HASH_TABLE_MIN_SIZE then HASH_TABLE_MIN_SIZE else initial_size)) (\<lambda>n.
     Option.bind (halloc 48 h) (\<lambda>r1. case r1 of
         Inl e \<Rightarrow> Some (Inl e)
       | Inr (ht, h1) \<Rightarrow> if ht = 0 then Some (Inr (0, h1))
     else Option.bind (halloc (8 * ucast n) h1) (\<lambda>r2. case r2 of
         Inl e \<Rightarrow> Some (Inl e)
       | Inr (b, h2) \<Rightarrow>
           if b = 0 then (case hfree ht h2 of Inl e \<Rightarrow> Some (Inl e) | Inr h3 \<Rightarrow> Some (Inr (0, h3)))
           else Some (Inr (ht, h2\<lparr>cells := clear_cells b (unat n) (cells h2),
             tables := (tables h2)(ht := \<lparr>buckets = b, tsize = n, tcount = 0,
               hash_func = (case hf of None \<Rightarrow> default_hash_func | Some f \<Rightarrow> f),
               key_equal = (case ke of None \<Rightarrow> default_key_equal | Some f \<Rightarrow> f)\<rparr>)\<rparr>)))))"

text \<open>The first node of a chain with the key; 0 if there is none.\<close>

definition node_matches :: "hash_heap \<Rightarrow> hash_table \<Rightarrow> u32 \<Rightarrow> u64 \<Rightarrow> u32 \<Rightarrow> u64 \<Rightarrow> bool" where
  "node_matches h t hash key len node =
     (nhash (nodes h node) = hash \<and> nkey_len (nodes h node) = len \<and> key_equal t (hmem h) (nkey (nodes h node)) key len)"

partial_function (option) find_node :: "hash_heap \<Rightarrow> hash_table \<Rightarrow> u32 \<Rightarrow> u64 \<Rightarrow> u32 \<Rightarrow> u64 \<Rightarrow> u64 option" where
  "find_node h t hash key len node =
     (if node \<noteq> 0 then
        if node_matches h t hash key len node then Some node else find_node h t hash key len (nnext (nodes h node))
      else Some 0)"

text \<open>Moving the nodes to the new bucket array \<open>nb\<close> of \<open>n\<close> cells.\<close>

definition move_node :: "u64 \<Rightarrow> u32 \<Rightarrow> u64 \<Rightarrow> hash_heap \<Rightarrow> hash_heap" where
  "move_node nb n node h =
     (let c = cell nb (nhash (nodes h node) mod n) in
      h\<lparr>nodes := (nodes h)(node := (nodes h node)\<lparr>nnext := cells h c\<rparr>), cells := (cells h)(c := node)\<rparr>)"

partial_function (option) move_chain :: "u64 \<Rightarrow> u32 \<Rightarrow> u64 \<Rightarrow> hash_heap \<Rightarrow> hash_heap option" where
  "move_chain nb n node h =
     (if node \<noteq> 0 then move_chain nb n (nnext (nodes h node)) (move_node nb n node h) else Some h)"

fun move_buckets :: "u64 \<Rightarrow> u64 \<Rightarrow> u32 \<Rightarrow> nat \<Rightarrow> nat \<Rightarrow> hash_heap \<Rightarrow> hash_heap option" where
  "move_buckets ob nb n i 0 h = Some h"
| "move_buckets ob nb n i (Suc k) h =
     Option.bind (move_chain nb n (cells h (ob + 8 * of_nat i)) h) (\<lambda>h1. move_buckets ob nb n (Suc i) k h1)"

definition hash_table_resize :: "u64 \<Rightarrow> u32 \<Rightarrow> hash_heap \<Rightarrow> (bool \<times> hash_heap) kres option" where
  "hash_table_resize ht new_size h =
     Option.bind (round_up_pow2 new_size) (\<lambda>n.
       if n < HASH_TABLE_MIN_SIZE then Some (Inr (False, h))
       else Option.bind (halloc (8 * ucast n) h) (\<lambda>r. case r of
           Inl e \<Rightarrow> Some (Inl e)
         | Inr (nb, h1) \<Rightarrow>
             if nb = 0 then Some (Inr (False, h1))
             else let t = tables h1 ht in
               Option.bind (move_buckets (buckets t) nb n 0 (unat (tsize t)) (h1\<lparr>cells := clear_cells nb (unat n) (cells h1)\<rparr>)) (\<lambda>h2.
               case hfree (buckets t) h2 of
                 Inl e \<Rightarrow> Some (Inl e)
               | Inr h3 \<Rightarrow> Some (Inr (True, h3\<lparr>tables := (tables h3)(ht := t\<lparr>buckets := nb, tsize := n\<rparr>)\<rparr>)))))"

text \<open>The second half of an insertion, once the key is known to be absent.\<close>

definition add_node :: "u64 \<Rightarrow> u64 \<Rightarrow> u32 \<Rightarrow> u64 \<Rightarrow> u32 \<Rightarrow> hash_heap \<Rightarrow> (bool \<times> hash_heap) kres option" where
  "add_node ht key len v hash h =
     Option.bind (halloc 32 h) (\<lambda>r. case r of
         Inl e \<Rightarrow> Some (Inl e)
       | Inr (node, h1) \<Rightarrow>
           if node = 0 then Some (Inr (False, h1))
           else let t = tables h1 ht; c = cell (buckets t) (hash mod tsize t) in
             Some (Inr (True, h1\<lparr>
               nodes := (nodes h1)(node := \<lparr>nkey = key, nvalue = v, nkey_len = len, nhash = hash, nnext = cells h1 c\<rparr>),
               cells := (cells h1)(c := node),
               tables := (tables h1)(ht := t\<lparr>tcount := tcount t + 1\<rparr>)\<rparr>)))"

definition insert_new :: "u64 \<Rightarrow> u64 \<Rightarrow> u32 \<Rightarrow> u64 \<Rightarrow> u32 \<Rightarrow> hash_heap \<Rightarrow> (bool \<times> hash_heap) kres option" where
  "insert_new ht key len v hash h =
     (let t = tables h ht in
      Option.bind (if HASH_TABLE_LOAD_FACTOR < (tcount t + 1) * 100 div tsize t
          then hash_table_resize ht (tsize t * 2) h else Some (Inr (True, h))) (\<lambda>r. case r of
        Inl e \<Rightarrow> Some (Inl e)
      | Inr (resized, h1) \<Rightarrow> add_node ht key len v hash h1))"

definition find_in :: "u64 \<Rightarrow> u64 \<Rightarrow> u32 \<Rightarrow> hash_heap \<Rightarrow> u64 option" where
  "find_in ht key len h =
     (let t = tables h ht; hash = hash_func t (hmem h) key len in
      find_node h t hash key len (cells h (cell (buckets t) (hash mod tsize t))))"

definition hash_table_insert :: "u64 \<Rightarrow> u64 \<Rightarrow> u32 \<Rightarrow> u64 \<Rightarrow> bool \<Rightarrow> hash_heap \<Rightarrow> (bool \<times> hash_heap) kres option" where
  "hash_table_insert ht key len v overwrite h =
     (if ht = 0 \<or> key = 0 \<or> len = 0 then Some (Inr (False, h))
      else Option.bind (find_in ht key len h) (\<lambda>node.
        if node \<noteq> 0 then
          if overwrite then Some (Inr (True, h\<lparr>nodes := (nodes h)(node := (nodes h node)\<lparr>nvalue := v\<rparr>)\<rparr>))
          else Some (Inr (False, h))
        else insert_new ht key len v (hash_func (tables h ht) (hmem h) key len) h))"

definition hash_table_insert_if_absent :: "u64 \<Rightarrow> u64 \<Rightarrow> u32 \<Rightarrow> u64 \<Rightarrow> hash_heap \<Rightarrow> (bool \<times> hash_heap) kres option" where
  "hash_table_insert_if_absent ht key len v h =
     (if ht = 0 \<or> key = 0 \<or> len = 0 then Some (Inr (False, h))
      else Option.bind (find_in ht key len h) (\<lambda>node.
        if node \<noteq> 0 then Some (Inr (False, h))
        else insert_new ht key len v (hash_func (tables h ht) (hmem h) key len) h))"

definition hash_table_lookup :: "u64 \<Rightarrow> u64 \<Rightarrow> u32 \<Rightarrow> hash_heap \<Rightarrow> u64 option" where
  "hash_table_lookup ht key len h =
     (if ht = 0 \<or> key = 0 \<or> len = 0 then Some 0
      else map_option (\<lambda>node. if node \<noteq> 0 then nvalue (nodes h node) else 0) (find_in ht key len h))"

text \<open>The search of a deletion: the predecessor (0 at the front) and the node found.\<close>

partial_function (option) find_prev :: "hash_heap \<Rightarrow> hash_table \<Rightarrow> u32 \<Rightarrow> u64 \<Rightarrow> u32 \<Rightarrow> u64 \<Rightarrow> u64 \<Rightarrow> (u64 \<times> u64) option" where
  "find_prev h t hash key len prev node =
     (if node \<noteq> 0 then
        if node_matches h t hash key len node then Some (prev, node) else find_prev h t hash key len node (nnext (nodes h node))
      else Some (prev, 0))"

definition unlink_node :: "u64 \<Rightarrow> u64 \<Rightarrow> u64 \<Rightarrow> hash_heap \<Rightarrow> hash_heap" where
  "unlink_node c prev node h =
     (if prev \<noteq> 0 then h\<lparr>nodes := (nodes h)(prev := (nodes h prev)\<lparr>nnext := nnext (nodes h node)\<rparr>)\<rparr>
      else h\<lparr>cells := (cells h)(c := nnext (nodes h node))\<rparr>)"

definition hash_table_delete :: "u64 \<Rightarrow> u64 \<Rightarrow> u32 \<Rightarrow> hash_heap \<Rightarrow> (bool \<times> hash_heap) kres option" where
  "hash_table_delete ht key len h =
     (if ht = 0 \<or> key = 0 \<or> len = 0 then Some (Inr (False, h))
      else let t = tables h ht; hash = hash_func t (hmem h) key len; c = cell (buckets t) (hash mod tsize t) in
        Option.bind (find_prev h t hash key len 0 (cells h c)) (\<lambda>(prev, node).
          if node = 0 then Some (Inr (False, h))
          else case hfree node (unlink_node c prev node h) of
            Inl e \<Rightarrow> Some (Inl e)
          | Inr h1 \<Rightarrow>
              let t1 = t\<lparr>tcount := tcount t - 1\<rparr>; h2 = h1\<lparr>tables := (tables h1)(ht := t1)\<rparr> in
              if HASH_TABLE_MIN_SIZE < tsize t1 \<and> tcount t1 * 100 div tsize t1 < HASH_TABLE_LOAD_FACTOR div 2 then
                Option.bind (hash_table_resize ht (tsize t1 div 2) h2) (\<lambda>r. case r of
                    Inl e \<Rightarrow> Some (Inl e)
                  | Inr (_, h3) \<Rightarrow> Some (Inr (True, h3)))
              else Some (Inr (True, h2))))"

definition hash_table_count :: "u64 \<Rightarrow> hash_heap \<Rightarrow> u32" where
  "hash_table_count ht h = (if ht = 0 then 0 else tcount (tables h ht))"

text \<open>\<^verbatim>\<open>hash_table_foreach\<close> threads the state a callback changes through all entries; a null callback is \<open>None\<close>.\<close>

partial_function (option) foreach_chain :: "(u64 \<Rightarrow> u32 \<Rightarrow> u64 \<Rightarrow> 'c \<Rightarrow> 'c) \<Rightarrow> hash_heap \<Rightarrow> u64 \<Rightarrow> 'c \<Rightarrow> 'c option" where
  "foreach_chain cb h node x =
     (if node \<noteq> 0 then let n = nodes h node in foreach_chain cb h (nnext n) (cb (nkey n) (nkey_len n) (nvalue n) x) else Some x)"

fun foreach_buckets :: "(u64 \<Rightarrow> u32 \<Rightarrow> u64 \<Rightarrow> 'c \<Rightarrow> 'c) \<Rightarrow> hash_heap \<Rightarrow> u64 \<Rightarrow> nat \<Rightarrow> nat \<Rightarrow> 'c \<Rightarrow> 'c option" where
  "foreach_buckets cb h b i 0 x = Some x"
| "foreach_buckets cb h b i (Suc k) x =
     Option.bind (foreach_chain cb h (cells h (b + 8 * of_nat i)) x) (foreach_buckets cb h b (Suc i) k)"

definition hash_table_foreach :: "(u64 \<Rightarrow> u32 \<Rightarrow> u64 \<Rightarrow> 'c \<Rightarrow> 'c) option \<Rightarrow> u64 \<Rightarrow> hash_heap \<Rightarrow> 'c \<Rightarrow> 'c option" where
  "hash_table_foreach callback ht h x = (case callback of
       None \<Rightarrow> Some x
     | Some cb \<Rightarrow> if ht = 0 then Some x
         else foreach_buckets cb h (buckets (tables h ht)) 0 (unat (tsize (tables h ht))) x)"

partial_function (option) free_chain :: "u64 \<Rightarrow> hash_heap \<Rightarrow> hash_heap kres option" where
  "free_chain node h =
     (if node \<noteq> 0 then let nxt_node = nnext (nodes h node) in
        case hfree node h of Inl e \<Rightarrow> Some (Inl e) | Inr h1 \<Rightarrow> free_chain nxt_node h1
      else Some (Inr h))"

fun free_buckets :: "u64 \<Rightarrow> nat \<Rightarrow> nat \<Rightarrow> hash_heap \<Rightarrow> hash_heap kres option" where
  "free_buckets b i 0 h = Some (Inr h)"
| "free_buckets b i (Suc k) h =
     Option.bind (free_chain (cells h (b + 8 * of_nat i)) h) (\<lambda>r. case r of
         Inl e \<Rightarrow> Some (Inl e)
       | Inr h1 \<Rightarrow> free_buckets b (Suc i) k h1)"

definition hash_table_destroy :: "u64 \<Rightarrow> hash_heap \<Rightarrow> hash_heap kres option" where
  "hash_table_destroy ht h =
     (if ht = 0 then Some (Inr h)
      else let t = tables h ht in
        Option.bind (free_buckets (buckets t) 0 (unat (tsize t)) h) (\<lambda>r. case r of
            Inl e \<Rightarrow> Some (Inl e)
          | Inr h1 \<Rightarrow> Some (case hfree (buckets t) h1 of Inl e \<Rightarrow> Inl e | Inr h2 \<Rightarrow> hfree ht h2)))"

end
