(* ===== verification/HashmapShape.thy ===== *)
theory HashmapShape
  imports Hashmap
begin

text \<open>
  The chains of a hash table. Bucket \<open>i\<close> chains exactly the nodes whose hash is \<open>i\<close> modulo the
  number of buckets; linking, moving, searching and unlinking are stated over the set of nodes.
\<close>

section \<open>Rounding up\<close>

lemma unat_pow2_32: "k < 32 \<Longrightarrow> unat (2 ^ k :: u32) = 2 ^ k"
proof -
  assume "k < 32"
  then have "(2::nat) ^ k < 2 ^ 32" by (intro power_strict_increasing) simp_all
  then show ?thesis using take_bit_nat_eq_self [of "2 ^ k" 32] unat_of_nat [where 'a = 32, of "2 ^ k"] by (simp add: take_bit_nat_def)
qed

lemma pow2_le_32: "k \<le> j \<Longrightarrow> j < 32 \<Longrightarrow> (2 ^ k :: u32) \<le> 2 ^ j"
  by (simp add: word_le_nat_alt unat_pow2_32 power_increasing)

lemma pow2_loop_reaches:
  assumes "k \<le> j" "j < 32" "n \<le> 2 ^ j" "j = k \<or> 2 ^ (j - 1) < (n :: u32)"
  shows "pow2_loop (2 ^ k) n = Some (2 ^ j)"
  using assms
proof (induction "j - k" arbitrary: k)
  case 0
  then have "\<not> (2 ^ k :: u32) < n" by (simp add: not_less)
  then show ?case using 0 by (simp add: pow2_loop.simps [of "2 ^ k"])
next
  case (Suc d)
  then have kj: "k \<le> j - 1" "j - 1 < 32" "2 ^ (j - 1) < n" by auto
  have "(2 ^ k :: u32) \<le> 2 ^ (j - 1)" using kj(1,2) by (rule pow2_le_32)
  then have "(2 ^ k :: u32) < n" using kj(3) by (rule le_less_trans)
  moreover have "pow2_loop (2 ^ Suc k) n = Some (2 ^ j)" using Suc by (intro Suc.hyps(1)) auto
  ultimately show ?case by (simp add: pow2_loop.simps [of "2 ^ k"] push_bit_eq_mult mult.commute)
qed

lemma pow2_double: "k < 32 \<Longrightarrow> (\<exists>j < 32. 2 * 2 ^ k = (2 ^ j :: u32)) \<or> 2 * 2 ^ k = (0 :: u32)"
proof (cases "k = 31")
  case False
  moreover assume "k < 32"
  ultimately show ?thesis by (intro disjI1 exI [of _ "Suc k"]) simp
qed simp

lemma pow2_loop_result:
  assumes "pow2_loop p n = Some y"
  shows "(\<exists>k < 32. p = 2 ^ k) \<or> p = 0 \<longrightarrow> n \<le> y \<and> ((\<exists>k < 32. y = 2 ^ k) \<or> y = 0)"
proof (rule pow2_loop.raw_induct [where P = "\<lambda>p n y. (\<exists>k < 32. p = 2 ^ k) \<or> p = 0 \<longrightarrow> n \<le> y \<and> ((\<exists>k < 32. y = 2 ^ k) \<or> y = 0)", OF _ assms])
  fix loop :: "u32 \<Rightarrow> u32 \<Rightarrow> u32 option" and p n y :: u32
  assume IH: "\<And>p n y. loop p n = Some y \<Longrightarrow> (\<exists>k < 32. p = 2 ^ k) \<or> p = 0 \<longrightarrow> n \<le> y \<and> ((\<exists>k < 32. y = 2 ^ k) \<or> y = 0)"
    and r: "(if p < n then loop (push_bit 1 p) n else Some p) = Some y"
  show "(\<exists>k < 32. p = 2 ^ k) \<or> p = 0 \<longrightarrow> n \<le> y \<and> ((\<exists>k < 32. y = 2 ^ k) \<or> y = 0)"
  proof (cases "p < n")
    case True
    have "(\<exists>k < 32. p = 2 ^ k) \<or> p = 0 \<Longrightarrow> (\<exists>k < 32. push_bit 1 p = 2 ^ k) \<or> push_bit 1 p = 0"
      using pow2_double by (metis mult_zero_right push_bit_eq_mult mult.commute power_one_right)
    moreover have "loop (push_bit 1 p) n = Some y" using r True by (simp only: if_True)
    ultimately show ?thesis using IH [of "push_bit 1 p" n y] by blast
  next
    case False
    then have "y = p" using r by (simp only: if_False option.inject)
    then show ?thesis using False by (simp add: not_less)
  qed
qed

lemma round_up_pow2_ok:
  assumes "n \<le> 2 ^ 31"
  obtains k where "3 \<le> k" "k < 32" "round_up_pow2 n = Some (2 ^ k)" "n \<le> 2 ^ k" "k = 3 \<or> 2 ^ (k - 1) < n"
proof -
  define k where "k = (LEAST k. 3 \<le> k \<and> n \<le> 2 ^ k)"
  have "3 \<le> (31::nat) \<and> n \<le> 2 ^ 31" using assms by simp
  then have k: "3 \<le> k \<and> n \<le> 2 ^ k" "k \<le> 31" unfolding k_def by (rule LeastI, rule Least_le)
  have "k = 3 \<or> 2 ^ (k - 1) < n"
  proof (rule disjCI)
    assume "\<not> 2 ^ (k - 1) < n"
    then show "k = 3" using not_less_Least [of "k - 1" "\<lambda>k. 3 \<le> k \<and> n \<le> 2 ^ k"] k unfolding k_def [symmetric] by fastforce
  qed
  moreover have "round_up_pow2 n = Some (2 ^ k)"
    using pow2_loop_reaches [of 3 k n] k calculation by (simp add: round_up_pow2_def HASH_TABLE_MIN_SIZE_def)
  ultimately show thesis using k by (intro that) auto
qed

lemma round_up_pow2_diverges:
  assumes "2 ^ 31 < n"
  shows "round_up_pow2 n = None"
proof (rule ccontr)
  assume "round_up_pow2 n \<noteq> None"
  then obtain y where y: "pow2_loop 8 n = Some y" by (auto simp: round_up_pow2_def HASH_TABLE_MIN_SIZE_def)
  have "\<exists>k < 32. (8 :: u32) = 2 ^ k" by (intro exI [of _ 3]) simp
  then have "n \<le> y" "(\<exists>k < 32. y = 2 ^ k) \<or> y = 0" using pow2_loop_result [OF y] by blast+
  moreover have "y \<le> 2 ^ 31" using calculation(2) pow2_le_32 [of _ 31] by force
  ultimately show False using assms by (meson leD order_trans)
qed

text \<open>
  (C10) Termination of \<^verbatim>\<open>round_up_pow2\<close>: the loop ends exactly for requests up to \<open>2 ^ 31\<close>, and then
  yields the least power of two that is at least 8 and at least the request. Beyond that the
  shifted value becomes 0 and the loop runs forever.
\<close>

theorem round_up_pow2_termination:
  "case round_up_pow2 n of
     None \<Rightarrow> 2 ^ 31 < n
   | Some y \<Rightarrow> n \<le> 2 ^ 31 \<and> (\<exists>k. 3 \<le> k \<and> k < 32 \<and> y = 2 ^ k \<and> n \<le> y \<and> (k = 3 \<or> 2 ^ (k - 1) < n))"
proof (cases "n \<le> 2 ^ 31")
  case True
  obtain k where "3 \<le> k" "k < 32" "round_up_pow2 n = Some (2 ^ k)" "n \<le> 2 ^ k" "k = 3 \<or> 2 ^ (k - 1) < n"
    by (rule round_up_pow2_ok [OF True])
  then show ?thesis using True by auto
next
  case False
  then show ?thesis using round_up_pow2_diverges [of n] by (simp add: not_le)
qed

section \<open>Chains and buckets\<close>

fun nlist :: "(u64 \<Rightarrow> hash_node) \<Rightarrow> u64 \<Rightarrow> u64 list \<Rightarrow> bool" where
  "nlist nd p [] \<longleftrightarrow> p = 0"
| "nlist nd p (x # xs) \<longleftrightarrow> p = x \<and> x \<noteq> 0 \<and> nlist nd (nnext (nd x)) xs"

lemma nlist_cong: "(\<And>x. x \<in> set xs \<Longrightarrow> nnext (nd' x) = nnext (nd x)) \<Longrightarrow> nlist nd' p xs \<longleftrightarrow> nlist nd p xs"
  by (induction xs arbitrary: p) auto

lemma nlist_nonzero: "nlist nd p xs \<Longrightarrow> 0 \<notin> set xs"
  by (induction xs arbitrary: p) auto

definition members :: "(u64 \<Rightarrow> hash_node) \<Rightarrow> u64 set \<Rightarrow> nat \<Rightarrow> nat \<Rightarrow> u64 set" where
  "members nd N n i = {x \<in> N. unat (nhash (nd x)) mod n = i}"

definition bucket_ok :: "(u64 \<Rightarrow> hash_node) \<Rightarrow> (u64 \<Rightarrow> u64) \<Rightarrow> u64 \<Rightarrow> nat \<Rightarrow> u64 set \<Rightarrow> nat \<Rightarrow> bool" where
  "bucket_ok nd c b n N i \<longleftrightarrow> (\<exists>xs. nlist nd (c (b + 8 * of_nat i)) xs \<and> distinct xs \<and> set xs = members nd N n i)"

definition shape :: "(u64 \<Rightarrow> hash_node) \<Rightarrow> (u64 \<Rightarrow> u64) \<Rightarrow> u64 \<Rightarrow> nat \<Rightarrow> u64 set \<Rightarrow> bool" where
  "shape nd c b n N \<longleftrightarrow> (\<forall>i < n. bucket_ok nd c b n N i)"

text \<open>Only the links of the nodes differ.\<close>

definition relinked :: "(u64 \<Rightarrow> hash_node) \<Rightarrow> (u64 \<Rightarrow> hash_node) \<Rightarrow> bool" where
  "relinked nd nd' \<longleftrightarrow> (\<forall>x. nkey (nd' x) = nkey (nd x) \<and> nvalue (nd' x) = nvalue (nd x) \<and>
     nkey_len (nd' x) = nkey_len (nd x) \<and> nhash (nd' x) = nhash (nd x))"

lemma relinkedD:
  assumes "relinked nd nd'"
  shows "nkey (nd' x) = nkey (nd x)" "nvalue (nd' x) = nvalue (nd x)" "nkey_len (nd' x) = nkey_len (nd x)" "nhash (nd' x) = nhash (nd x)"
  using assms unfolding relinked_def by blast+

lemma relinked_refl [simp]: "relinked nd nd"
  by (simp add: relinked_def)

lemma relinked_trans: "relinked a b \<Longrightarrow> relinked b c \<Longrightarrow> relinked a c"
  by (simp add: relinked_def)

lemma relinked_upd [simp]: "relinked nd (nd(x := (nd x)\<lparr>nnext := v\<rparr>))"
  by (simp add: relinked_def)

lemma members_relinked: "relinked nd nd' \<Longrightarrow> members nd' N n i = members nd N n i"
  by (simp add: members_def relinkedD)

lemma shape_finite: "shape nd c b n N \<Longrightarrow> 0 < n \<Longrightarrow> finite N"
proof -
  assume s: "shape nd c b n N" and n: "0 < n"
  have "N = (\<Union>i < n. members nd N n i)" using n by (auto simp: members_def)
  moreover have "finite (members nd N n i)" if "i < n" for i
    using s that unfolding shape_def bucket_ok_def by (metis finite_set)
  ultimately show ?thesis by (metis finite_UN_I finite_lessThan lessThan_iff)
qed

lemma shape_nonzero: "shape nd c b n N \<Longrightarrow> 0 < n \<Longrightarrow> 0 \<notin> N"
proof
  assume s: "shape nd c b n N" and n: "0 < n" and "0 \<in> N"
  then have m: "0 \<in> members nd N n (unat (nhash (nd 0)) mod n)" by (simp add: members_def)
  have "bucket_ok nd c b n N (unat (nhash (nd 0)) mod n)" using s n by (simp add: shape_def)
  then obtain xs where "nlist nd (c (b + 8 * of_nat (unat (nhash (nd 0)) mod n))) xs" "set xs = members nd N n (unat (nhash (nd 0)) mod n)"
    unfolding bucket_ok_def by blast
  then show False using nlist_nonzero m by blast
qed

lemma cell_mod: "unat n \<noteq> 0 \<Longrightarrow> cell b (hash mod n) = b + 8 * of_nat (unat hash mod unat n)"
  by (simp add: cell_def unat_mod [symmetric] unsigned_of_nat [symmetric] del: unat_mod)

lemma cells_inj:
  assumes "i < 512" "j < 512" "b + 8 * of_nat i = b + 8 * (of_nat j :: u64)"
  shows "i = j"
proof -
  have small: "unat (of_nat (8 * k) :: u64) = 8 * k" if "k < 512" for k
    by (rule unat_of_nat_small) (use that in simp)
  have "of_nat (8 * i) = (of_nat (8 * j) :: u64)" using assms(3) by simp
  then have "8 * i = 8 * j" using small [OF assms(1)] small [OF assms(2)] by metis
  then show ?thesis by simp
qed

text \<open>Linking a node at the head of its bucket.\<close>

lemma shape_link:
  assumes s: "shape nd c b n N" and x: "x \<notin> N" "x \<noteq> 0" and n: "0 < n" "n \<le> 512"
    and a: "a = b + 8 * of_nat (unat (nhash v) mod n)" and v: "nnext v = c a"
  shows "shape (nd(x := v)) (c(a := x)) b n (insert x N)"
  unfolding shape_def
proof (intro allI impI)
  fix i assume i: "i < n"
  obtain xs where xs: "nlist nd (c (b + 8 * of_nat i)) xs" "distinct xs" "set xs = members nd N n i"
    using s i unfolding shape_def bucket_ok_def by blast
  have "x \<notin> set xs" using xs(3) x(1) by (auto simp: members_def)
  then have xs': "nlist (nd(x := v)) (c (b + 8 * of_nat i)) xs" using xs(1) by (subst nlist_cong) auto
  have old: "members (nd(x := v)) (insert x N) n i = (if unat (nhash v) mod n = i then insert x (set xs) else set xs)"
    using xs(3) x(1) by (auto simp: members_def)
  show "bucket_ok (nd(x := v)) (c(a := x)) b n (insert x N) i"
  proof (cases "unat (nhash v) mod n = i")
    case True
    then have "nlist (nd(x := v)) ((c(a := x)) (b + 8 * of_nat i)) (x # xs)" using xs' x(2) a v by simp
    then show ?thesis unfolding bucket_ok_def using old True xs(2) \<open>x \<notin> set xs\<close> by (intro exI [of _ "x # xs"]) simp
  next
    case False
    have m: "unat (nhash v) mod n < 512" "i < 512" using n i mod_less_divisor [OF n(1), of "unat (nhash v)"] by linarith+
    have "b + 8 * of_nat i \<noteq> a" unfolding a using cells_inj [OF m(2,1), of b] False by metis
    then show ?thesis unfolding bucket_ok_def using old False xs xs' by (intro exI [of _ xs]) simp
  qed
qed

lemma move_chain_ok:
  assumes "nlist (nodes h) p xs" "distinct xs" "set xs \<inter> M = {}" "shape (nodes h) (cells h) nb (unat n) M" "0 < unat n" "unat n \<le> 512"
  shows "\<exists>nd' c'. move_chain nb n p h = Some (h\<lparr>nodes := nd', cells := c'\<rparr>) \<and> shape nd' c' nb (unat n) (M \<union> set xs) \<and>
    relinked (nodes h) nd' \<and> (\<forall>x. x \<notin> set xs \<longrightarrow> nd' x = nodes h x) \<and>
    (\<forall>a. (\<forall>i < unat n. a \<noteq> nb + 8 * of_nat i) \<longrightarrow> c' a = cells h a)"
  using assms
proof (induction xs arbitrary: p h M)
  case Nil
  then show ?case by (intro exI [of _ "nodes h"] exI [of _ "cells h"]) (simp add: move_chain.simps)
next
  case (Cons x xs)
  define a where "a = nb + 8 * of_nat (unat (nhash (nodes h x)) mod unat n)"
  define v where "v = (nodes h x)\<lparr>nnext := cells h a\<rparr>"
  define h1 where "h1 = h\<lparr>nodes := (nodes h)(x := v), cells := (cells h)(a := x)\<rparr>"
  have mv: "move_node nb n x h = h1" using Cons.prems(5) by (simp add: move_node_def Let_def cell_mod h1_def v_def a_def)
  have px: "p = x" "x \<noteq> 0" "nlist (nodes h) (nnext (nodes h x)) xs" "x \<notin> set xs" "x \<notin> M" using Cons.prems by auto
  have nl: "nlist (nodes h1) (nnext (nodes h x)) xs" using px(3,4) by (subst nlist_cong) (auto simp: h1_def)
  have sh: "shape (nodes h1) (cells h1) nb (unat n) (insert x M)"
    using shape_link [OF Cons.prems(4) px(5,2) Cons.prems(5,6), of a v] by (simp add: h1_def a_def v_def)
  obtain nd' c' where r: "move_chain nb n (nnext (nodes h x)) h1 = Some (h1\<lparr>nodes := nd', cells := c'\<rparr>)"
    "shape nd' c' nb (unat n) (insert x M \<union> set xs)" "relinked (nodes h1) nd'" "\<And>y. y \<notin> set xs \<Longrightarrow> nd' y = nodes h1 y"
    "\<And>d. (\<And>i. i < unat n \<Longrightarrow> d \<noteq> nb + 8 * of_nat i) \<Longrightarrow> c' d = cells h1 d"
    using Cons.IH [OF nl _ _ sh Cons.prems(5,6)] Cons.prems(2,3) px(4,5) by auto
  have "move_chain nb n p h = Some (h\<lparr>nodes := nd', cells := c'\<rparr>)"
    unfolding px(1) using r(1) px(2) by (simp add: move_chain.simps [of nb n x h] mv) (simp add: h1_def)
  moreover have "relinked (nodes h) nd'" using relinked_trans [OF _ r(3)] by (simp add: h1_def v_def)
  moreover have "nd' y = nodes h y" if "y \<notin> set (x # xs)" for y using r(4) [of y] that by (simp add: h1_def)
  moreover have "c' d = cells h d" if d: "\<forall>i < unat n. d \<noteq> nb + 8 * of_nat i" for d
  proof -
    have "d \<noteq> a" using d Cons.prems(5) by (simp add: a_def)
    then show ?thesis using r(5) [of d] d by (simp add: h1_def)
  qed
  ultimately show ?case using r(2) by (intro exI [of _ nd'] exI [of _ c']) simp
qed

lemma move_buckets_ok:
  assumes "\<forall>j. i \<le> j \<and> j < i + k \<longrightarrow> nlist (nodes h) (cells h (ob + 8 * of_nat j)) (bs j) \<and> distinct (bs j) \<and> set (bs j) \<inter> M = {}"
    and "\<forall>j l. j < i + k \<and> l < i + k \<and> j \<noteq> l \<longrightarrow> set (bs j) \<inter> set (bs l) = {}"
    and "\<forall>j l. j < i + k \<and> l < unat n \<longrightarrow> ob + 8 * of_nat j \<noteq> nb + 8 * of_nat l"
    and "shape (nodes h) (cells h) nb (unat n) M" "0 < unat n" "unat n \<le> 512"
  shows "\<exists>nd' c'. move_buckets ob nb n i k h = Some (h\<lparr>nodes := nd', cells := c'\<rparr>) \<and>
    shape nd' c' nb (unat n) (M \<union> (\<Union>j \<in> {i..<i + k}. set (bs j))) \<and> relinked (nodes h) nd'"
  using assms
proof (induction k arbitrary: i h M)
  case 0
  then show ?case by (intro exI [of _ "nodes h"] exI [of _ "cells h"]) simp
next
  case (Suc k)
  have b: "nlist (nodes h) (cells h (ob + 8 * of_nat i)) (bs i)" "distinct (bs i)" "set (bs i) \<inter> M = {}" using Suc.prems(1) by auto
  obtain nd c where r: "move_chain nb n (cells h (ob + 8 * of_nat i)) h = Some (h\<lparr>nodes := nd, cells := c\<rparr>)"
    "shape nd c nb (unat n) (M \<union> set (bs i))" "relinked (nodes h) nd" "\<forall>x. x \<notin> set (bs i) \<longrightarrow> nd x = nodes h x"
    "\<forall>a. (\<forall>j < unat n. a \<noteq> nb + 8 * of_nat j) \<longrightarrow> c a = cells h a"
    using move_chain_ok [OF b Suc.prems(4-6)] by blast
  define h1 where "h1 = h\<lparr>nodes := nd, cells := c\<rparr>"
  have "nlist nd (c (ob + 8 * of_nat j)) (bs j) \<and> distinct (bs j) \<and> set (bs j) \<inter> (M \<union> set (bs i)) = {}" if j: "Suc i \<le> j" "j < Suc i + k" for j
  proof -
    have o: "nlist (nodes h) (cells h (ob + 8 * of_nat j)) (bs j)" "distinct (bs j)" "set (bs j) \<inter> M = {}" using Suc.prems(1) j by auto
    have d: "set (bs j) \<inter> set (bs i) = {}" using Suc.prems(2) j by auto
    have "c (ob + 8 * of_nat j) = cells h (ob + 8 * of_nat j)" using r(5) Suc.prems(3) j by auto
    moreover have "nlist nd (cells h (ob + 8 * of_nat j)) (bs j)" using o(1) d r(4) by (subst nlist_cong) auto
    ultimately show ?thesis using o d by auto
  qed
  then have "\<exists>nd' c'. move_buckets ob nb n (Suc i) k h1 = Some (h1\<lparr>nodes := nd', cells := c'\<rparr>) \<and>
    shape nd' c' nb (unat n) (M \<union> set (bs i) \<union> (\<Union>j \<in> {Suc i..<Suc i + k}. set (bs j))) \<and> relinked (nodes h1) nd'"
    using Suc.prems(2,3,5,6) r(2) by (intro Suc.IH) (auto simp: h1_def)
  then obtain nd' c' where q: "move_buckets ob nb n (Suc i) k h1 = Some (h1\<lparr>nodes := nd', cells := c'\<rparr>)"
    "shape nd' c' nb (unat n) (M \<union> set (bs i) \<union> (\<Union>j \<in> {Suc i..<Suc i + k}. set (bs j)))" "relinked nd nd'" by (auto simp: h1_def)
  have "{i..<i + Suc k} = insert i {Suc i..<Suc i + k}" by auto
  then have "M \<union> set (bs i) \<union> (\<Union>j \<in> {Suc i..<Suc i + k}. set (bs j)) = M \<union> (\<Union>j \<in> {i..<i + Suc k}. set (bs j))" by auto
  moreover have "move_buckets ob nb n i (Suc k) h = Some (h\<lparr>nodes := nd', cells := c'\<rparr>)"
    using r(1) q(1) by (simp add: h1_def)
  ultimately show ?case using q(2) relinked_trans [OF r(3) q(3)] by metis
qed

lemma clear_cells_eq:
  "clear_cells a n c x = (if \<exists>i < n. x = a + 8 * of_nat i then 0 else c x)"
  by (induction n) (auto simp: less_Suc_eq)

lemma shape_clear: "shape nd (clear_cells b n c) b n {}"
  unfolding shape_def bucket_ok_def by (intro allI impI exI [of _ "[]"]) (auto simp: clear_cells_eq members_def)

lemma move_all_ok:
  assumes s: "shape (nodes h) (cells h) ob n0 N" and n: "0 < n0" "0 < unat n" "unat n \<le> 512"
    and sep: "\<forall>j l. j < n0 \<and> l < unat n \<longrightarrow> ob + 8 * of_nat j \<noteq> nb + 8 * of_nat l"
  shows "\<exists>nd' c'. move_buckets ob nb n 0 n0 (h\<lparr>cells := clear_cells nb (unat n) (cells h)\<rparr>) = Some (h\<lparr>nodes := nd', cells := c'\<rparr>) \<and>
    shape nd' c' nb (unat n) N \<and> relinked (nodes h) nd'"
proof -
  define h1 where "h1 = h\<lparr>cells := clear_cells nb (unat n) (cells h)\<rparr>"
  have "\<forall>i. \<exists>xs. i < n0 \<longrightarrow> nlist (nodes h) (cells h (ob + 8 * of_nat i)) xs \<and> distinct xs \<and> set xs = members (nodes h) N n0 i"
    using s unfolding shape_def bucket_ok_def by blast
  then obtain bs where bs: "\<And>i. i < n0 \<Longrightarrow> nlist (nodes h) (cells h (ob + 8 * of_nat i)) (bs i) \<and> distinct (bs i) \<and> set (bs i) = members (nodes h) N n0 i"
    by metis
  have all: "(\<Union>j \<in> {0..<0 + n0}. set (bs j)) = N" using bs n(1) by (auto simp: members_def)
  have 1: "\<forall>j. 0 \<le> j \<and> j < 0 + n0 \<longrightarrow> nlist (nodes h1) (cells h1 (ob + 8 * of_nat j)) (bs j) \<and> distinct (bs j) \<and> set (bs j) \<inter> {} = {}"
    using bs sep by (auto simp: h1_def clear_cells_eq)
  have 2: "\<forall>j l. j < 0 + n0 \<and> l < 0 + n0 \<and> j \<noteq> l \<longrightarrow> set (bs j) \<inter> set (bs l) = {}" using bs by (auto simp: members_def)
  have "shape (nodes h1) (cells h1) nb (unat n) {}" by (simp add: h1_def shape_clear)
  from move_buckets_ok [OF 1 2 _ this n(2,3)] sep obtain nd' c' where
    "move_buckets ob nb n 0 n0 h1 = Some (h1\<lparr>nodes := nd', cells := c'\<rparr>)" "shape nd' c' nb (unat n) ({} \<union> (\<Union>j \<in> {0..<0 + n0}. set (bs j)))" "relinked (nodes h1) nd'"
    by auto
  then show ?thesis unfolding all by (auto simp: h1_def)
qed

text \<open>Searching and unlinking.\<close>

lemma find_node_ok:
  "nlist (nodes h) p xs \<Longrightarrow>
   find_node h t hash key len p = Some (case find (node_matches h t hash key len) xs of None \<Rightarrow> 0 | Some x \<Rightarrow> x)"
proof (induction xs arbitrary: p)
  case (Cons x xs)
  then show ?case by (simp add: find_node.simps [of h t hash key len x])
qed (simp add: find_node.simps)

lemma find_prev_ok:
  assumes "nlist (nodes h) p xs"
  shows "(\<forall>x \<in> set xs. \<not> node_matches h t hash key len x) \<and> (\<exists>q. find_prev h t hash key len prev p = Some (q, 0)) \<or>
    (\<exists>ys x zs. xs = ys @ x # zs \<and> node_matches h t hash key len x \<and>
      find_prev h t hash key len prev p = Some (if ys = [] then prev else last ys, x))"
  using assms
proof (induction xs arbitrary: p prev)
  case Nil
  then show ?case by (simp add: find_prev.simps)
next
  case (Cons x xs)
  then have p: "p = x" "x \<noteq> 0" "nlist (nodes h) (nnext (nodes h x)) xs" by auto
  show ?case
  proof (cases "node_matches h t hash key len x")
    case True
    then show ?thesis using p by (intro disjI2 exI [of _ "[]"] exI [of _ x] exI [of _ xs]) (simp add: find_prev.simps [of h t hash key len prev x])
  next
    case False
    then have e: "find_prev h t hash key len prev p = find_prev h t hash key len x (nnext (nodes h x))"
      using p by (simp add: find_prev.simps [of h t hash key len prev x])
    from Cons.IH [OF p(3), of x] show ?thesis
    proof (elim disjE exE conjE)
      fix ys y zs assume "xs = ys @ y # zs" "node_matches h t hash key len y"
        "find_prev h t hash key len x (nnext (nodes h x)) = Some (if ys = [] then x else last ys, y)"
      then show ?thesis unfolding e by (intro disjI2 exI [of _ "x # ys"] exI [of _ y] exI [of _ zs]) simp
    qed (use False e in auto)
  qed
qed

lemma nlist_split: "nlist nd p (ys @ x # zs) \<Longrightarrow> nlist nd (nnext (nd x)) zs"
  by (induction ys arbitrary: p) auto

lemma nlist_unlink:
  assumes "nlist nd p (ys @ x # zs)" "distinct (ys @ x # zs)" "ys \<noteq> []"
  shows "nlist (nd(last ys := (nd (last ys))\<lparr>nnext := nnext (nd x)\<rparr>)) p (ys @ zs)"
  using assms
proof (induction ys arbitrary: p)
  case (Cons y ys)
  show ?case
  proof (cases "ys = []")
    case True
    have "nlist nd (nnext (nd x)) zs" "y \<notin> set zs" using nlist_split [OF Cons.prems(1)] Cons.prems(2) by auto
    then have "nlist (nd(y := (nd y)\<lparr>nnext := nnext (nd x)\<rparr>)) (nnext (nd x)) zs" by (subst nlist_cong) auto
    then show ?thesis using True Cons.prems(1) by (simp add: fun_upd_def)
  next
    case False
    then have "last ys \<noteq> y" using Cons.prems(2) by auto
    then show ?thesis using Cons.IH [of "nnext (nd y)"] Cons.prems False by simp
  qed
qed simp

end
