(* ===== verification/HashmapSpec.thy ===== *)
theory HashmapSpec
  imports HashmapShape
begin

text \<open>
  The hash tables refine finite maps. What is needed of the key functions is the locale
  \<open>key_functions\<close>, which the default functions satisfy.
\<close>

lemma shape_unlink:
  assumes s: "shape (nodes h) (cells h) b n N" and n: "n \<le> 512" "i < n"
    and xs: "nlist (nodes h) (cells h (b + 8 * of_nat i)) (ys @ x # zs)" "distinct (ys @ x # zs)" "set (ys @ x # zs) = members (nodes h) N n i"
    and h': "h' = unlink_node (b + 8 * of_nat i) (if ys = [] then 0 else last ys) x h"
  shows "shape (nodes h') (cells h') b n (N - {x})" "relinked (nodes h) (nodes h')"
    "tables h' = tables h" "hslab h' = hslab h"
proof -
  show rl: "relinked (nodes h) (nodes h')" and "tables h' = tables h" "hslab h' = hslab h" using h' by (auto simp: unlink_node_def)
  have nz: "0 \<notin> set ys" using nlist_nonzero [OF xs(1)] by auto
  have lst: "last ys \<in> members (nodes h) N n i" if "ys \<noteq> []" unfolding xs(3) [symmetric] using last_in_set [OF that] by simp
  have l0: "last ys \<noteq> 0" if "ys \<noteq> []" using last_in_set [OF that] nz by metis
  show "shape (nodes h') (cells h') b n (N - {x})"
    unfolding shape_def
  proof (intro allI impI)
    fix j assume j: "j < n"
    show "bucket_ok (nodes h') (cells h') b n (N - {x}) j"
    proof (cases "j = i")
      case True
      have "nlist (nodes h') (cells h' (b + 8 * of_nat i)) (ys @ zs)"
      proof (cases "ys = []")
        case True
        then show ?thesis using xs(1) by (simp add: h' unlink_node_def)
      next
        case False
        then show ?thesis using nlist_unlink [OF xs(1,2) False] l0 by (simp add: h' unlink_node_def)
      qed
      moreover have "set (ys @ zs) = members (nodes h') (N - {x}) n i"
        using xs(2,3) unfolding members_relinked [OF rl] by (auto simp: members_def)
      ultimately show ?thesis unfolding bucket_ok_def True using xs(2) by (intro exI [of _ "ys @ zs"]) auto
    next
      case False
      obtain us where us: "nlist (nodes h) (cells h (b + 8 * of_nat j)) us" "distinct us" "set us = members (nodes h) N n j"
        using s j unfolding shape_def bucket_ok_def by blast
      have m: "j < 512" "i < 512" using j n by linarith+
      have "b + 8 * of_nat j \<noteq> b + 8 * of_nat i" using cells_inj [OF m, of b] False by metis
      then have c: "cells h' (b + 8 * of_nat j) = cells h (b + 8 * of_nat j)" by (simp add: h' unlink_node_def)
      have "nodes h' y = nodes h y" if "y \<in> set us" for y
      proof (cases "ys = []")
        case True
        then show ?thesis by (simp add: h' unlink_node_def)
      next
        case ne: False
        have "y \<noteq> last ys" using that us(3) lst [OF ne] False by (auto simp: members_def)
        then show ?thesis by (simp add: h' unlink_node_def)
      qed
      then have "nlist (nodes h') (cells h' (b + 8 * of_nat j)) us" using us(1) c by (subst nlist_cong) auto
      moreover have "set us = members (nodes h') (N - {x}) n j"
        using us(3) xs(3) False unfolding members_relinked [OF rl] by (auto simp: members_def)
      ultimately show ?thesis unfolding bucket_ok_def using us(2) by blast
    qed
  qed
qed

section \<open>The invariant of a table\<close>

text \<open>
  What a table needs of its key functions: \<open>kv\<close> is the key that a pointer and a length denote.
\<close>

locale key_functions =
  fixes hf :: hash_fun and ke :: equal_fun and kv :: "memory \<Rightarrow> u64 \<Rightarrow> u32 \<Rightarrow> 'k"
  assumes equal_iff: "a \<noteq> 0 \<Longrightarrow> b \<noteq> 0 \<Longrightarrow> ke m a b len \<longleftrightarrow> kv m a len = kv m b len"
    and hash_eq: "kv m a len = kv m b len \<Longrightarrow> hf m a len = hf m b len"
    and kv_length: "kv m a len = kv m b len' \<Longrightarrow> len = len'"
    and kv_memory: "(\<And>i. i < unat len \<Longrightarrow> m' (a + of_nat i) = m (a + of_nat i)) \<Longrightarrow> kv m' a len = kv m a len"
    and hf_memory: "(\<And>i. i < unat len \<Longrightarrow> m' (a + of_nat i) = m (a + of_nat i)) \<Longrightarrow> hf m' a len = hf m a len"

definition nkv :: "(memory \<Rightarrow> u64 \<Rightarrow> u32 \<Rightarrow> 'k) \<Rightarrow> memory \<Rightarrow> hash_node \<Rightarrow> 'k" where
  "nkv kv m v = kv m (nkey v) (nkey_len v)"

text \<open>The nodes \<open>N\<close> hold the entries of the map \<open>M\<close>.\<close>

definition entries :: "hash_fun \<Rightarrow> (memory \<Rightarrow> u64 \<Rightarrow> u32 \<Rightarrow> 'k) \<Rightarrow> memory \<Rightarrow> (u64 \<Rightarrow> hash_node) \<Rightarrow> u64 set \<Rightarrow> ('k \<rightharpoonup> u64) \<Rightarrow> bool" where
  "entries hf kv m nd N M \<longleftrightarrow>
     (\<forall>x \<in> N. nkey (nd x) \<noteq> 0 \<and> nhash (nd x) = hf m (nkey (nd x)) (nkey_len (nd x)) \<and> M (nkv kv m (nd x)) = Some (nvalue (nd x))) \<and>
     dom M = (\<lambda>x. nkv kv m (nd x)) ` N \<and> inj_on (\<lambda>x. nkv kv m (nd x)) N"

text \<open>The bytes of a key lie in one of the objects \<open>C\<close> of the client.\<close>

definition key_in :: "(u64 \<times> nat) set \<Rightarrow> u64 \<Rightarrow> u32 \<Rightarrow> bool" where
  "key_in C key len \<longleftrightarrow> (\<exists>x k. (x, k) \<in> C \<and> (\<forall>i < unat len. in_block x k (key + of_nat i)))"

definition size_ok :: "u32 \<Rightarrow> bool" where
  "size_ok n \<longleftrightarrow> (\<exists>k. 3 \<le> k \<and> k \<le> 9 \<and> n = 2 ^ k)"

text \<open>The live objects \<open>A\<close> are those of the clients, \<open>C\<close>, and the structure, the array and the nodes of the table.\<close>

definition owned :: "(u64 \<times> nat) set \<Rightarrow> (u64 \<times> nat) set \<Rightarrow> u64 \<Rightarrow> u64 \<Rightarrow> nat \<Rightarrow> u64 set \<Rightarrow> bool" where
  "owned C A ht b n N \<longleftrightarrow> C \<subseteq> A \<and> fst ` C \<inter> insert ht (insert b N) = {} \<and> ht \<noteq> b \<and> ht \<notin> N \<and> b \<notin> N \<and>
     (\<exists>k \<ge> 48. (ht, k) \<in> A) \<and> (\<exists>k \<ge> 8 * n. (b, k) \<in> A) \<and> (\<forall>x \<in> N. \<exists>k \<ge> 32. (x, k) \<in> A) \<and>
     (\<forall>q \<in> A. q \<in> C \<or> fst q \<in> insert ht (insert b N))"

definition table_ok :: "hash_fun \<Rightarrow> equal_fun \<Rightarrow> (memory \<Rightarrow> u64 \<Rightarrow> u32 \<Rightarrow> 'k) \<Rightarrow> hash_heap \<Rightarrow> u64 \<Rightarrow>
    (u64 \<times> nat) set \<Rightarrow> (u64 \<times> nat) set \<Rightarrow> u64 set \<Rightarrow> ('k \<rightharpoonup> u64) \<Rightarrow> bool" where
  "table_ok hf ke kv h ht C A N M \<longleftrightarrow> (let t = tables h ht in
     ht \<noteq> 0 \<and> hash_func t = hf \<and> key_equal t = ke \<and> size_ok (tsize t) \<and> tcount t = of_nat (card N) \<and>
     slab_objects (hslab h) A \<and> shape (nodes h) (cells h) (buckets t) (unat (tsize t)) N \<and>
     entries hf kv (hmem h) (nodes h) N M \<and> owned C A ht (buckets t) (unat (tsize t)) N \<and>
     (\<forall>x \<in> N. key_in C (nkey (nodes h x)) (nkey_len (nodes h x))))"

lemma table_okD:
  assumes "table_ok hf ke kv h ht C A N M"
  shows "ht \<noteq> 0" "hash_func (tables h ht) = hf" "key_equal (tables h ht) = ke" "size_ok (tsize (tables h ht))"
    "tcount (tables h ht) = of_nat (card N)" "slab_objects (hslab h) A"
    "shape (nodes h) (cells h) (buckets (tables h ht)) (unat (tsize (tables h ht))) N" "entries hf kv (hmem h) (nodes h) N M"
    "owned C A ht (buckets (tables h ht)) (unat (tsize (tables h ht))) N"
    "\<And>x. x \<in> N \<Longrightarrow> key_in C (nkey (nodes h x)) (nkey_len (nodes h x))"
  using assms unfolding table_ok_def Let_def by blast+

lemma table_okI:
  assumes "ht \<noteq> 0" "hash_func (tables h ht) = hf" "key_equal (tables h ht) = ke" "size_ok (tsize (tables h ht))"
    "tcount (tables h ht) = of_nat (card N)" "slab_objects (hslab h) A"
    "shape (nodes h) (cells h) (buckets (tables h ht)) (unat (tsize (tables h ht))) N" "entries hf kv (hmem h) (nodes h) N M"
    "owned C A ht (buckets (tables h ht)) (unat (tsize (tables h ht))) N"
    "\<And>x. x \<in> N \<Longrightarrow> key_in C (nkey (nodes h x)) (nkey_len (nodes h x))"
  shows "table_ok hf ke kv h ht C A N M"
  using assms unfolding table_ok_def Let_def by blast

lemma size_ok_bounds: "size_ok n \<Longrightarrow> 8 \<le> unat n \<and> unat n \<le> 512"
  using power_increasing [of 3 _ "2::nat"] power_increasing [of _ 9 "2::nat"] by (auto simp: size_ok_def unat_pow2_32)

section \<open>Allocation\<close>

definition hres_ok :: "('a \<times> hash_heap) kres option \<Rightarrow> ('a \<Rightarrow> hash_heap \<Rightarrow> bool) \<Rightarrow> bool" where
  "hres_ok r Q \<longleftrightarrow> (\<exists>x. r = Some x \<and> (case x of Inl e \<Rightarrow> e = Panic ''memory out of space!'' | Inr (a, h) \<Rightarrow> Q a h))"

lemma hres_ok_ret [simp]: "hres_ok (Some (Inr (a, h))) Q \<longleftrightarrow> Q a h"
  by (simp add: hres_ok_def)

lemma hres_ok_mono: "hres_ok r Q \<Longrightarrow> (\<And>a h. Q a h \<Longrightarrow> R a h) \<Longrightarrow> hres_ok r R"
  by (auto simp: hres_ok_def split: sum.splits)

lemma hres_ok_bind:
  assumes "hres_ok r Q" "\<And>a h. Q a h \<Longrightarrow> hres_ok (f a h) R"
  shows "hres_ok (Option.bind r (\<lambda>r. case r of Inl e \<Rightarrow> Some (Inl e) | Inr (a, h) \<Rightarrow> f a h)) R"
proof -
  obtain x where x: "r = Some x" "case x of Inl e \<Rightarrow> e = Panic ''memory out of space!'' | Inr (a, h) \<Rightarrow> Q a h"
    using assms(1) unfolding hres_ok_def by blast
  show ?thesis
  proof (cases x)
    case (Inl e)
    then show ?thesis using x by (simp add: hres_ok_def)
  next
    case (Inr q)
    then show ?thesis using x assms(2) [of "fst q" "snd q"] by (simp add: case_prod_beta)
  qed
qed

lemma halloc_ok:
  assumes "slab_objects (hslab h) A"
  shows "hres_ok (halloc n h) (\<lambda>p h'. \<exists>st. h' = h\<lparr>hslab := st\<rparr> \<and> slab_alloc (ucast n) (hslab h) = Some (Inr (p, st)) \<and>
    same_objects A (hmem h) (ram (pages st)) \<and>
    (if p = 0 then slab_objects st A else \<exists>k \<ge> unat (ucast n :: u32). slab_objects st (insert (p, k) A) \<and> p \<notin> fst ` A))"
proof -
  obtain r where r: "slab_alloc (ucast n) (hslab h) = Some r" "\<forall>e. r = Inl e \<longrightarrow> e = Panic ''memory out of space!''"
    using objects_alloc_returns [OF assms] by blast
  show ?thesis
  proof (cases r)
    case (Inl e)
    then show ?thesis using r by (simp add: hres_ok_def halloc_def)
  next
    case (Inr q)
    obtain p st where q: "q = (p, st)" by force
    have al: "slab_alloc (ucast n) (hslab h) = Some (Inr (p, st))" using r(1) Inr q by simp
    have "same_objects A (hmem h) (ram (pages st)) \<and>
      (if p = 0 then slab_objects st A else \<exists>k \<ge> unat (ucast n :: u32). slab_objects st (insert (p, k) A) \<and> p \<notin> fst ` A)"
    proof (cases "p = 0")
      case True
      then show ?thesis using obj.alloc_null [OF assms] al by simp
    next
      case False
      then show ?thesis using obj.alloc_fresh [OF assms al False] by force
    qed
    then show ?thesis using al by (simp add: hres_ok_def halloc_def)
  qed
qed

lemma hfree_ok:
  assumes "slab_objects (hslab h) A" "(x, k) \<in> A"
  obtains st where "hfree x h = Inr (h\<lparr>hslab := st\<rparr>)" "slab_objects st (A - {(x, k)})"
    "same_objects (A - {(x, k)}) (hmem h) (ram (pages st))"
  using obj.free_live [OF assms] that by (auto simp: hfree_def)

lemma same_objects_mono: "same_objects A m m' \<Longrightarrow> C \<subseteq> A \<Longrightarrow> same_objects C m m'"
  unfolding same_objects_def by blast

lemma same_objects_trans: "same_objects A m m' \<Longrightarrow> same_objects A m' m'' \<Longrightarrow> same_objects A m m''"
  unfolding same_objects_def by fastforce

lemma same_objects_refl [simp]: "same_objects A m m"
  by (auto simp: same_objects_def)

text \<open>An array of more than 512 cells is never allocated.\<close>

lemma bucket_array_size:
  assumes "3 \<le> k" "k < 32" "slab_alloc (ucast (8 * ucast (2 ^ k :: u32) :: u64)) st = Some (Inr (p, st'))" "p \<noteq> 0"
  shows "k \<le> 9" "unat (ucast (8 * ucast (2 ^ k :: u32) :: u64) :: u32) = 8 * 2 ^ k"
proof -
  have "k \<in> set [3..<32]" using assms(1,2) by (subst set_upt) auto
  then have v: "(k \<le> 9 \<and> unat (ucast (8 * ucast (2 ^ k :: u32) :: u64) :: u32) = 8 * 2 ^ k) \<or>
    (ucast (8 * ucast (2 ^ k :: u32) :: u64) = (0 :: u32) \<or> 4096 < (ucast (8 * ucast (2 ^ k :: u32) :: u64) :: u32))"
    by simp (elim disjE; simp)
  then show "k \<le> 9" "unat (ucast (8 * ucast (2 ^ k :: u32) :: u64) :: u32) = 8 * 2 ^ k"
    using slab_alloc_rejects_size [of "ucast (8 * ucast (2 ^ k :: u32) :: u64)" st] assms(3,4) by auto
qed

section \<open>The operations\<close>

lemma key_in_same:
  assumes "key_in C key len" "same_objects C m m'" "i < unat len"
  shows "m' (key + of_nat i) = m (key + of_nat i)"
proof -
  obtain x k where "(x, k) \<in> C" "in_block x k (key + of_nat i)" using assms(1,3) unfolding key_in_def by blast
  then show ?thesis by (rule same_objectsD [OF assms(2)])
qed

lemma entriesD:
  assumes "entries hf kv m nd N M" "x \<in> N"
  shows "nkey (nd x) \<noteq> 0" "nhash (nd x) = hf m (nkey (nd x)) (nkey_len (nd x))" "M (nkv kv m (nd x)) = Some (nvalue (nd x))"
  using assms unfolding entries_def by blast+

lemma entries_dom: "entries hf kv m nd N M \<Longrightarrow> dom M = (\<lambda>x. nkv kv m (nd x)) ` N"
  by (simp add: entries_def)

lemma entries_inj: "entries hf kv m nd N M \<Longrightarrow> x \<in> N \<Longrightarrow> y \<in> N \<Longrightarrow> nkv kv m (nd x) = nkv kv m (nd y) \<Longrightarrow> x = y"
  unfolding entries_def by (meson inj_onD)

lemma entries_insert:
  assumes e: "entries hf kv m nd N M" and x: "x \<notin> N" and k: "nkv kv m v \<notin> dom M" "nkey v \<noteq> 0" "nhash v = hf m (nkey v) (nkey_len v)"
  shows "entries hf kv m (nd(x := v)) (insert x N) (M(nkv kv m v \<mapsto> nvalue v))"
proof -
  have ne: "nkv kv m (nd y) \<noteq> nkv kv m v" if "y \<in> N" for y using k(1) entries_dom [OF e] that by (metis imageI)
  have fr: "(nd(x := v)) y = nd y" if "y \<in> N" for y using that x by auto
  let ?f = "\<lambda>y. nkv kv m ((nd(x := v)) y)"
  have im: "?f ` N = dom M" unfolding entries_dom [OF e] by (rule image_cong [OF refl]) (simp only: fr)
  have "inj_on ?f N \<longleftrightarrow> inj_on (\<lambda>y. nkv kv m (nd y)) N" by (rule inj_on_cong) (simp only: fr)
  then have "inj_on ?f N" using e unfolding entries_def by blast
  moreover have "?f x \<notin> ?f ` N" unfolding im using k(1) by simp
  ultimately have "inj_on ?f (insert x N)" using x by simp
  moreover have "dom (M(nkv kv m v \<mapsto> nvalue v)) = ?f ` insert x N" unfolding image_insert im by simp
  moreover have "nkey ((nd(x := v)) y) \<noteq> 0 \<and> nhash ((nd(x := v)) y) = hf m (nkey ((nd(x := v)) y)) (nkey_len ((nd(x := v)) y)) \<and>
    (M(nkv kv m v \<mapsto> nvalue v)) (?f y) = Some (nvalue ((nd(x := v)) y))" if "y \<in> insert x N" for y
  proof (cases "y = x")
    case True
    then show ?thesis using k by simp
  next
    case False
    then have y: "y \<in> N" using that by simp
    show ?thesis unfolding fr [OF y] using entriesD [OF e y] ne [OF y] by simp
  qed
  ultimately show ?thesis unfolding entries_def by blast
qed

lemma entries_delete:
  assumes e: "entries hf kv m nd N M" and x: "x \<in> N"
  shows "entries hf kv m nd (N - {x}) (M(nkv kv m (nd x) := None))"
proof -
  have ne: "nkv kv m (nd y) \<noteq> nkv kv m (nd x)" if "y \<in> N - {x}" for y using entries_inj [OF e _ x, of y] that by blast
  have "inj_on (\<lambda>y. nkv kv m (nd y)) (N - {x})" using e unfolding entries_def by (meson Diff_subset inj_on_subset)
  moreover have "dom (M(nkv kv m (nd x) := None)) = (\<lambda>y. nkv kv m (nd y)) ` (N - {x})"
    using entries_dom [OF e] ne x by auto
  moreover have "\<forall>y \<in> N - {x}. nkey (nd y) \<noteq> 0 \<and> nhash (nd y) = hf m (nkey (nd y)) (nkey_len (nd y)) \<and>
    (M(nkv kv m (nd x) := None)) (nkv kv m (nd y)) = Some (nvalue (nd y))" using entriesD [OF e] ne by simp
  ultimately show ?thesis unfolding entries_def by blast
qed

lemma entries_update:
  assumes e: "entries hf kv m nd N M" and x: "x \<in> N"
  shows "entries hf kv m (nd(x := (nd x)\<lparr>nvalue := v\<rparr>)) N (M(nkv kv m (nd x) \<mapsto> v))"
proof -
  let ?nd = "nd(x := (nd x)\<lparr>nvalue := v\<rparr>)"
  have k: "nkv kv m (?nd y) = nkv kv m (nd y)" "nkey (?nd y) = nkey (nd y)" "nhash (?nd y) = nhash (nd y)" "nkey_len (?nd y) = nkey_len (nd y)" for y
    by (simp_all add: nkv_def)
  have "\<forall>y \<in> N. (M(nkv kv m (nd x) \<mapsto> v)) (nkv kv m (nd y)) = Some (nvalue (?nd y))"
    using entriesD(3) [OF e] entries_inj [OF e _ x] by auto
  moreover have "dom (M(nkv kv m (nd x) \<mapsto> v)) = (\<lambda>y. nkv kv m (nd y)) ` N" using entries_dom [OF e] x by auto
  ultimately show ?thesis using e unfolding entries_def k by blast
qed

lemma ownedD:
  assumes "owned C A ht b n N"
  shows "C \<subseteq> A" "fst ` C \<inter> insert ht (insert b N) = {}" "ht \<noteq> b" "ht \<notin> N" "b \<notin> N"
    "\<exists>k \<ge> 48. (ht, k) \<in> A" "\<exists>k \<ge> 8 * n. (b, k) \<in> A" "\<And>x. x \<in> N \<Longrightarrow> \<exists>k \<ge> 32. (x, k) \<in> A"
    "\<And>q. q \<in> A \<Longrightarrow> q \<in> C \<or> fst q \<in> insert ht (insert b N)"
  by (insert assms, unfold owned_def, (elim conjE, assumption | elim conjE, drule (1) bspec, assumption)+)

lemma owned_fresh:
  assumes o: "owned C A ht b n N" and p: "p \<notin> fst ` A"
  shows "p \<noteq> ht" "p \<noteq> b" "p \<notin> N" "p \<notin> fst ` C"
proof -
  have i: "x \<in> fst ` A" if "(x, k) \<in> A" for x k using that by force
  show "p \<noteq> ht" "p \<noteq> b" using ownedD(6,7) [OF o] p i by blast+
  show "p \<notin> N" using ownedD(8) [OF o, of p] p i by blast
  show "p \<notin> fst ` C" using ownedD(1) [OF o] p by blast
qed

lemma ok_alloc_buckets:
  assumes o: "owned C A ht b n N" and p: "p \<notin> fst ` A" "8 * n' \<le> k" and u: "\<And>l. (b, l) \<in> A \<Longrightarrow> l = j"
  shows "owned C (insert (p, k) A - {(b, j)}) ht p n' N"
proof -
  note f = owned_fresh [OF o p(1)] and d = ownedD [OF o]
  have "C \<subseteq> insert (p, k) A - {(b, j)}" using d(1,2) by force
  moreover have "fst ` C \<inter> insert ht (insert p N) = {}" using d(2) f(4) by blast
  moreover have "\<exists>l \<ge> 48. (ht, l) \<in> insert (p, k) A - {(b, j)}" using d(6,3) by blast
  moreover have "\<exists>l \<ge> 8 * n'. (p, l) \<in> insert (p, k) A - {(b, j)}" using p(2) f(2) by blast
  moreover have "\<exists>l \<ge> 32. (x, l) \<in> insert (p, k) A - {(b, j)}" if "x \<in> N" for x
  proof -
    have "x \<noteq> b" using that d(5) by blast
    then show ?thesis using d(8) [OF that] by blast
  qed
  moreover have "q \<in> C \<or> fst q \<in> insert ht (insert p N)" if "q \<in> insert (p, k) A - {(b, j)}" for q
  proof (cases "q = (p, k)")
    case False
    then have "q \<in> A" "q \<noteq> (b, j)" using that by blast+
    moreover have "fst q \<noteq> b" using calculation u [of "snd q"] by (cases q) auto
    ultimately show ?thesis using d(9) [of q] by blast
  qed simp
  ultimately show ?thesis using f(1,3) d(4) unfolding owned_def by blast
qed

lemma owned_node:
  assumes o: "owned C A ht b n N" and p: "p \<notin> fst ` A" "32 \<le> k"
  shows "owned C (insert (p, k) A) ht b n (insert p N)"
proof -
  note f = owned_fresh [OF o p(1)] and d = ownedD [OF o]
  have "fst ` C \<inter> insert ht (insert b (insert p N)) = {}" using d(2) f(4) by blast
  moreover have "\<exists>l \<ge> 32. (x, l) \<in> insert (p, k) A" if "x \<in> insert p N" for x using that d(8) p(2) by blast
  moreover have "q \<in> C \<or> fst q \<in> insert ht (insert b (insert p N))" if "q \<in> insert (p, k) A" for q
    using that d(9) [of q] by auto
  moreover have "\<exists>l \<ge> 48. (ht, l) \<in> insert (p, k) A" "\<exists>l \<ge> 8 * n. (b, l) \<in> insert (p, k) A" "C \<subseteq> insert (p, k) A"
    using d(1,6,7) by blast+
  ultimately show ?thesis using f d(3-5) unfolding owned_def by blast
qed

lemma owned_free:
  assumes o: "owned C A ht b n N" and x: "x \<in> N" and u: "\<And>l. (x, l) \<in> A \<Longrightarrow> l = k"
  shows "owned C (A - {(x, k)}) ht b n (N - {x})"
proof -
  note d = ownedD [OF o]
  have "x \<noteq> ht" "x \<noteq> b" using x d(4,5) by blast+
  then have "\<exists>l \<ge> 48. (ht, l) \<in> A - {(x, k)}" "\<exists>l \<ge> 8 * n. (b, l) \<in> A - {(x, k)}" using d(6,7) by blast+
  moreover have "C \<subseteq> A - {(x, k)}" using d(1,2) x by force
  moreover have "\<exists>l \<ge> 32. (y, l) \<in> A - {(x, k)}" if "y \<in> N - {x}" for y using that d(8) [of y] by blast
  moreover have "fst ` C \<inter> insert ht (insert b (N - {x})) = {}" using d(2) by blast
  moreover have "q \<in> C \<or> fst q \<in> insert ht (insert b (N - {x}))" if "q \<in> A - {(x, k)}" for q
  proof -
    have "fst q \<noteq> x" using that u [of "snd q"] by (cases q) auto
    then show ?thesis using that d(9) [of q] by blast
  qed
  ultimately show ?thesis using d(3-5) unfolding owned_def by blast
qed

context key_functions
begin

lemma key_same:
  assumes "key_in C key len" "same_objects C m m'"
  shows "kv m' key len = kv m key len" "hf m' key len = hf m key len"
proof -
  show "kv m' key len = kv m key len" by (rule kv_memory) (rule key_in_same [OF assms])
  show "hf m' key len = hf m key len" by (rule hf_memory) (rule key_in_same [OF assms])
qed

lemma entries_memory:
  assumes e: "entries hf kv m nd N M" and k: "\<And>x. x \<in> N \<Longrightarrow> key_in C (nkey (nd x)) (nkey_len (nd x))"
    and s: "same_objects C m m'" and r: "relinked nd nd'"
  shows "entries hf kv m' nd' N M"
proof -
  have b: "m' (nkey (nd x) + of_nat i) = m (nkey (nd x) + of_nat i)" if "x \<in> N" "i < unat (nkey_len (nd x))" for x i
    by (rule key_in_same [OF k [OF that(1)] s that(2)])
  have kv: "nkv kv m' (nd' x) = nkv kv m (nd x)" if "x \<in> N" for x
    unfolding nkv_def relinkedD [OF r] by (rule kv_memory) (rule b [OF that])
  have hf: "hf m' (nkey (nd x)) (nkey_len (nd x)) = hf m (nkey (nd x)) (nkey_len (nd x))" if "x \<in> N" for x
    by (rule hf_memory) (rule b [OF that])
  have "(\<lambda>x. nkv kv m' (nd' x)) ` N = (\<lambda>x. nkv kv m (nd x)) ` N" using kv by (simp cong: image_cong)
  moreover have "inj_on (\<lambda>x. nkv kv m' (nd' x)) N" using e kv unfolding entries_def by (simp cong: inj_on_cong)
  ultimately show ?thesis using e kv hf unfolding entries_def relinkedD [OF r] by simp
qed

lemma matches_iff:
  assumes e: "entries hf kv (hmem h) (nodes h) N M" and x: "x \<in> N" and t: "key_equal t = ke" "key \<noteq> 0"
  shows "node_matches h t (hf (hmem h) key len) key len x \<longleftrightarrow> nkv kv (hmem h) (nodes h x) = kv (hmem h) key len"
proof
  assume "node_matches h t (hf (hmem h) key len) key len x"
  then show "nkv kv (hmem h) (nodes h x) = kv (hmem h) key len"
    using equal_iff [OF entriesD(1) [OF e x] t(2)] t(1) by (auto simp: node_matches_def nkv_def)
next
  assume k: "nkv kv (hmem h) (nodes h x) = kv (hmem h) key len"
  then have l: "nkey_len (nodes h x) = len" unfolding nkv_def by (rule kv_length)
  then have k': "kv (hmem h) (nkey (nodes h x)) len = kv (hmem h) key len" using k by (simp add: nkv_def)
  show "node_matches h t (hf (hmem h) key len) key len x"
    using hash_eq [OF k'] entriesD(2) [OF e x] equal_iff [OF entriesD(1) [OF e x] t(2)] k' l t(1) by (simp add: node_matches_def)
qed

text \<open>The bucket of a key holds every node with that key.\<close>

lemma in_bucket:
  assumes e: "entries hf kv (hmem h) (nodes h) N M" and x: "x \<in> N" "nkv kv (hmem h) (nodes h x) = kv (hmem h) key len"
  shows "x \<in> members (nodes h) N n (unat (hf (hmem h) key len) mod n)"
proof -
  have l: "nkey_len (nodes h x) = len" using x(2) unfolding nkv_def by (rule kv_length)
  then have "hf (hmem h) (nkey (nodes h x)) len = hf (hmem h) key len" using x(2) by (intro hash_eq) (simp add: nkv_def)
  then show ?thesis using entriesD(2) [OF e x(1)] l x(1) by (simp add: members_def)
qed

lemma find_in_ok:
  assumes T: "table_ok hf ke kv h ht C A N M" and key: "key \<noteq> 0"
  obtains "find_in ht key len h = Some 0" "kv (hmem h) key len \<notin> dom M"
  | x where "find_in ht key len h = Some x" "x \<in> N" "x \<noteq> 0" "nkv kv (hmem h) (nodes h x) = kv (hmem h) key len"
proof -
  let ?t = "tables h ht" and ?hash = "hf (hmem h) key len"
  note D = table_okD [OF T]
  define i where "i = unat ?hash mod unat (tsize ?t)"
  have n: "unat (tsize ?t) \<noteq> 0" using size_ok_bounds [OF D(4)] by linarith
  then have "i < unat (tsize ?t)" by (simp add: i_def)
  then obtain xs where xs: "nlist (nodes h) (cells h (buckets ?t + 8 * of_nat i)) xs" "set xs = members (nodes h) N (unat (tsize ?t)) i"
    using D(7) unfolding shape_def bucket_ok_def by blast
  have f: "find_in ht key len h = Some (case find (node_matches h ?t ?hash key len) xs of None \<Rightarrow> 0 | Some x \<Rightarrow> x)"
    using find_node_ok [OF xs(1), of ?t ?hash key len] D(2) cell_mod [OF n, of "buckets ?t" ?hash] by (simp add: find_in_def Let_def i_def)
  have sub: "x \<in> N" if "x \<in> set xs" for x using that xs(2) by (simp add: members_def)
  show thesis
  proof (cases "find (node_matches h ?t ?hash key len) xs")
    case None
    have "kv (hmem h) key len \<notin> dom M"
    proof
      assume "kv (hmem h) key len \<in> dom M"
      then obtain x where x: "x \<in> N" "nkv kv (hmem h) (nodes h x) = kv (hmem h) key len" using entries_dom [OF D(8)] by auto
      have "x \<in> set xs" using in_bucket [OF D(8) x] by (simp add: xs(2) i_def)
      then show False using None matches_iff [OF D(8) x(1) D(3) key, of len] x(2) by (simp add: find_None_iff)
    qed
    then show thesis using that(1) f None by simp
  next
    case (Some x)
    then have x: "x \<in> set xs" "node_matches h ?t ?hash key len x" by (auto simp: find_Some_iff)
    have "x \<noteq> 0" using nlist_nonzero [OF xs(1)] x(1) by metis
    then show thesis using that(2) f Some sub [OF x(1)] matches_iff [OF D(8) sub [OF x(1)] D(3) key, of len] x(2) by simp
  qed
qed

lemma table_ok_slab:
  assumes T: "table_ok hf ke kv h ht C A N M" and st: "slab_objects st A" "same_objects A (hmem h) (ram (pages st))"
  shows "table_ok hf ke kv (h\<lparr>hslab := st\<rparr>) ht C A N M"
proof (rule table_okI)
  note D = table_okD [OF T]
  have "same_objects C (hmem h) (ram (pages st))" using st(2) ownedD(1) [OF D(9)] by (rule same_objects_mono)
  then show "entries hf kv (hmem (h\<lparr>hslab := st\<rparr>)) (nodes (h\<lparr>hslab := st\<rparr>)) N M"
    using entries_memory [OF D(8,10)] by simp
qed (use table_okD [OF T] st(1) in simp_all)

lemma cells_separate:
  assumes "slab_objects st A" "(a, j) \<in> A" "(b, k) \<in> A" "a \<noteq> b" "8 * n \<le> j" "8 * n' \<le> k" "i < n" "l < n'"
  shows "a + 8 * of_nat i \<noteq> b + 8 * of_nat l"
proof
  assume e: "a + 8 * of_nat i = b + 8 * of_nat l"
  have "j \<le> 4096" "k \<le> 4096" using obj.size_bounds [OF assms(1,2)] obj.size_bounds [OF assms(1,3)] by blast+
  then have "in_block a j (a + of_nat (8 * i))" "in_block b k (b + of_nat (8 * l))" using assms(5-8) by (intro in_block_of_nat; linarith)+
  then show False using obj.disjoint [OF assms(1-3), of "a + 8 * of_nat i"] assms(4) e by simp
qed

lemma resize_ok:
  assumes T: "table_ok hf ke kv h ht C A N M" and s: "new_size \<le> 2 ^ 31"
  shows "hres_ok (hash_table_resize ht new_size h) (\<lambda>_ h'. (\<exists>A'. table_ok hf ke kv h' ht C A' N M) \<and> same_objects C (hmem h) (hmem h'))"
proof -
  let ?t = "tables h ht" and ?R = "\<lambda>_ h'. (\<exists>A'. table_ok hf ke kv h' ht C A' N M) \<and> same_objects C (hmem h) (hmem h')"
  note D = table_okD [OF T] and O = ownedD [OF table_okD(9) [OF T]]
  obtain k where k: "3 \<le> k" "k < 32" "round_up_pow2 new_size = Some (2 ^ k)" by (rule round_up_pow2_ok [OF s])
  let ?n = "2 ^ k :: u32"
  have "\<not> ?n < HASH_TABLE_MIN_SIZE" using pow2_le_32 [OF k(1,2)] by (simp add: HASH_TABLE_MIN_SIZE_def not_less)
  then have e: "hash_table_resize ht new_size h = Option.bind (halloc (8 * ucast ?n) h) (\<lambda>r. case r of
      Inl e \<Rightarrow> Some (Inl e)
    | Inr (nb, h1) \<Rightarrow> if nb = 0 then Some (Inr (False, h1))
        else let t = tables h1 ht in
          Option.bind (move_buckets (buckets t) nb ?n 0 (unat (tsize t)) (h1\<lparr>cells := clear_cells nb (unat ?n) (cells h1)\<rparr>)) (\<lambda>h2.
          case hfree (buckets t) h2 of Inl e \<Rightarrow> Some (Inl e)
          | Inr h3 \<Rightarrow> Some (Inr (True, h3\<lparr>tables := (tables h3)(ht := t\<lparr>buckets := nb, tsize := ?n\<rparr>)\<rparr>))))"
    by (simp add: hash_table_resize_def k(3))
  show ?thesis
    unfolding e
  proof (rule hres_ok_bind [OF halloc_ok [OF D(6)]], goal_cases)
    case (1 nb h1)
    then obtain st where st: "h1 = h\<lparr>hslab := st\<rparr>" "slab_alloc (ucast (8 * ucast ?n :: u64)) (hslab h) = Some (Inr (nb, st))"
      "same_objects A (hmem h) (ram (pages st))" and
      al: "if nb = 0 then slab_objects st A
        else \<exists>j \<ge> unat (ucast (8 * ucast ?n :: u64) :: u32). slab_objects st (insert (nb, j) A) \<and> nb \<notin> fst ` A" by blast
    have sC: "same_objects C (hmem h) (ram (pages st))" using st(3) O(1) by (rule same_objects_mono)
    show ?case
    proof (cases "nb = 0")
      case True
      have "table_ok hf ke kv h1 ht C A N M" unfolding st(1) by (rule table_ok_slab [OF T]) (use al True st(3) in simp_all)
      then show ?thesis using True sC st(1) by auto
    next
      case False
      note bs = bucket_array_size [OF k(1,2) st(2) False]
      obtain j where j: "8 * 2 ^ k \<le> j" "slab_objects st (insert (nb, j) A)" "nb \<notin> fst ` A" using al False bs(2) by auto
      obtain i where i: "8 * unat (tsize ?t) \<le> i" "(buckets ?t, i) \<in> A" using O(7) by blast
      have n: "unat ?n = 2 ^ k" "0 < unat ?n" "unat ?n \<le> 512" "0 < unat (tsize ?t)"
        using unat_pow2_32 [OF k(2)] power_increasing [OF bs(1), of "2::nat"] size_ok_bounds [OF D(4)] by simp_all
      have nb: "nb \<noteq> buckets ?t" by (rule owned_fresh(2) [OF D(9) j(3)])
      have sep: "\<forall>a l. a < unat (tsize ?t) \<and> l < unat ?n \<longrightarrow> buckets ?t + 8 * of_nat a \<noteq> nb + 8 * of_nat l"
        using cells_separate [OF j(2), of "buckets ?t" i nb j "unat (tsize ?t)" "unat ?n"] i j(1) nb n(1) by auto
      obtain nd' c' where mv: "move_buckets (buckets ?t) nb ?n 0 (unat (tsize ?t)) (h1\<lparr>cells := clear_cells nb (unat ?n) (cells h1)\<rparr>) = Some (h1\<lparr>nodes := nd', cells := c'\<rparr>)"
        "shape nd' c' nb (unat ?n) N" "relinked (nodes h) nd'"
        using move_all_ok [of h1 "buckets ?t" "unat (tsize ?t)" N ?n nb] D(7) n sep st(1) by auto
      let ?h2 = "h1\<lparr>nodes := nd', cells := c'\<rparr>"
      have "slab_objects (hslab ?h2) (insert (nb, j) A)" "(buckets ?t, i) \<in> insert (nb, j) A" using j(2) st(1) i(2) by simp_all
      then obtain st2 where f: "hfree (buckets ?t) ?h2 = Inr (?h2\<lparr>hslab := st2\<rparr>)" "slab_objects st2 (insert (nb, j) A - {(buckets ?t, i)})"
        "same_objects (insert (nb, j) A - {(buckets ?t, i)}) (hmem ?h2) (ram (pages st2))" by (rule hfree_ok)
      have ow: "owned C (insert (nb, j) A - {(buckets ?t, i)}) ht nb (unat ?n) N"
        by (rule ok_alloc_buckets [OF D(9) j(3)]) (use j(1) n(1) in simp, rule obj.live_unique [OF D(6) _ i(2)])
      have sC2: "same_objects C (hmem h) (ram (pages st2))"
        using same_objects_trans [OF sC] same_objects_mono [OF f(3) ownedD(1) [OF ow]] st(1) by simp
      let ?h3 = "?h2\<lparr>hslab := st2, tables := (tables h)(ht := ?t\<lparr>buckets := nb, tsize := ?n\<rparr>)\<rparr>"
      have "table_ok hf ke kv ?h3 ht C (insert (nb, j) A - {(buckets ?t, i)}) N M"
      proof (rule table_okI)
        show "size_ok (tsize (tables ?h3 ht))" using k(1) bs(1) by (auto simp: size_ok_def)
        show "entries hf kv (hmem ?h3) (nodes ?h3) N M" using entries_memory [OF D(8,10) sC2 mv(3)] by simp
        show "key_in C (nkey (nodes ?h3 x)) (nkey_len (nodes ?h3 x))" if "x \<in> N" for x using D(10) [OF that] by (simp add: relinkedD [OF mv(3)])
      qed (use D(1-3,5) f(2) ow mv(2) in simp_all)
      then show ?thesis using False mv(1) f(1) sC2 st(1) by (auto simp: Let_def)
    qed
  qed
qed

lemma add_node_ok:
  assumes T: "table_ok hf ke kv h ht C A N M" and key: "key \<noteq> 0" "key_in C key len" "kv (hmem h) key len \<notin> dom M"
    and hash: "hash = hf (hmem h) key len"
  shows "hres_ok (add_node ht key len v hash h) (\<lambda>b h'.
    (\<exists>A' N'. table_ok hf ke kv h' ht C A' N' (if b then M(kv (hmem h) key len \<mapsto> v) else M)) \<and> same_objects C (hmem h) (hmem h'))"
  unfolding add_node_def
proof (rule hres_ok_bind [OF halloc_ok [OF table_okD(6) [OF T]]], goal_cases)
  case (1 x h1)
  let ?t = "tables h ht" and ?K = "kv (hmem h) key len"
  note D = table_okD [OF T]
  from 1 obtain st where st: "h1 = h\<lparr>hslab := st\<rparr>" "same_objects A (hmem h) (ram (pages st))" and
    al: "if x = 0 then slab_objects st A else \<exists>j \<ge> unat (ucast (32 :: u64) :: u32). slab_objects st (insert (x, j) A) \<and> x \<notin> fst ` A" by blast
  have sC: "same_objects C (hmem h) (ram (pages st))" using st(2) ownedD(1) [OF D(9)] by (rule same_objects_mono)
  have K: "kv (ram (pages st)) key len = ?K" "hf (ram (pages st)) key len = hash" using key_same [OF key(2) sC] hash by simp_all
  show ?case
  proof (cases "x = 0")
    case True
    have "table_ok hf ke kv h1 ht C A N M" unfolding st(1) by (rule table_ok_slab [OF T]) (use al True st(2) in simp_all)
    then show ?thesis using True sC st(1) by auto
  next
    case False
    then obtain j where j: "32 \<le> j" "slab_objects st (insert (x, j) A)" "x \<notin> fst ` A" using al by auto
    note fr = owned_fresh [OF D(9) j(3)]
    have n: "0 < unat (tsize ?t)" "unat (tsize ?t) \<le> 512" using size_ok_bounds [OF D(4)] by simp_all
    let ?a = "buckets ?t + 8 * of_nat (unat hash mod unat (tsize ?t))"
    let ?v = "\<lparr>nkey = key, nvalue = v, nkey_len = len, nhash = hash, nnext = cells h ?a\<rparr>"
    let ?h2 = "h\<lparr>hslab := st, nodes := (nodes h)(x := ?v), cells := (cells h)(?a := x), tables := (tables h)(ht := ?t\<lparr>tcount := tcount ?t + 1\<rparr>)\<rparr>"
    have e: "entries hf kv (ram (pages st)) (nodes h) N M" using entries_memory [OF D(8,10) sC, of "nodes h"] by simp
    have fin: "finite N" by (rule shape_finite [OF D(7) n(1)])
    have kq: "nkv kv (ram (pages st)) ?v = ?K" by (simp add: nkv_def K(1))
    have "table_ok hf ke kv ?h2 ht C (insert (x, j) A) (insert x N) (M(?K \<mapsto> v))"
    proof (rule table_okI)
      show "tcount (tables ?h2 ht) = of_nat (card (insert x N))" using D(5) fin fr(3) by simp
      show "shape (nodes ?h2) (cells ?h2) (buckets (tables ?h2 ht)) (unat (tsize (tables ?h2 ht))) (insert x N)"
        using shape_link [OF D(7) fr(3) False n, of ?a ?v] by simp
      have "entries hf kv (ram (pages st)) ((nodes h)(x := ?v)) (insert x N) (M(nkv kv (ram (pages st)) ?v \<mapsto> nvalue ?v))"
        by (rule entries_insert [OF e fr(3)]) (use kq key K(2) in simp_all)
      then show "entries hf kv (hmem ?h2) (nodes ?h2) (insert x N) (M(?K \<mapsto> v))" using kq by simp
      show "owned C (insert (x, j) A) ht (buckets (tables ?h2 ht)) (unat (tsize (tables ?h2 ht))) (insert x N)"
        using owned_node [OF D(9) j(3,1)] by simp
      show "key_in C (nkey (nodes ?h2 y)) (nkey_len (nodes ?h2 y))" if "y \<in> insert x N" for y using that D(10) [of y] key(2) by auto
    qed (use D(1-4) j(2) in simp_all)
    moreover have "cell (buckets ?t) (hash mod tsize ?t) = ?a" using n(1) by (simp add: cell_mod)
    ultimately show ?thesis using False sC st(1) by (auto simp: Let_def)
  qed
qed

lemma insert_new_ok:
  assumes T: "table_ok hf ke kv h ht C A N M" and key: "key \<noteq> 0" "key_in C key len" "kv (hmem h) key len \<notin> dom M"
    and hash: "hash = hf (hmem h) key len"
  shows "hres_ok (insert_new ht key len v hash h) (\<lambda>b h'.
    (\<exists>A' N'. table_ok hf ke kv h' ht C A' N' (if b then M(kv (hmem h) key len \<mapsto> v) else M)) \<and> same_objects C (hmem h) (hmem h'))"
proof -
  let ?t = "tables h ht"
  have sz: "tsize ?t * 2 \<le> 2 ^ 31"
  proof -
    obtain k where k: "k \<le> 9" "tsize ?t = 2 ^ k" using table_okD(4) [OF T] unfolding size_ok_def by blast
    then have "tsize ?t * 2 = 2 ^ Suc k" by simp
    then show ?thesis using pow2_le_32 [of "Suc k" 31] k(1) by simp
  qed
  let ?Q = "\<lambda>_ h'. (\<exists>A'. table_ok hf ke kv h' ht C A' N M) \<and> same_objects C (hmem h) (hmem h')"
  have "hres_ok (if HASH_TABLE_LOAD_FACTOR < (tcount ?t + 1) * 100 div tsize ?t then hash_table_resize ht (tsize ?t * 2) h else Some (Inr (True, h))) ?Q"
    using resize_ok [OF T sz] T by auto
  then show ?thesis
    unfolding insert_new_def Let_def
  proof (rule hres_ok_bind, goal_cases)
    case (1 a h1)
    then obtain A' where A': "table_ok hf ke kv h1 ht C A' N M" and sC: "same_objects C (hmem h) (hmem h1)" by blast
    have K: "kv (hmem h1) key len = kv (hmem h) key len" "hf (hmem h1) key len = hash" using key_same [OF key(2) sC] hash by simp_all
    have "kv (hmem h1) key len \<notin> dom M" using key(3) K(1) by simp
    from add_node_ok [OF A' key(1,2) this K(2) [symmetric], of v] show ?case
      unfolding K(1) by (rule hres_ok_mono) (use same_objects_trans [OF sC] in blast)
  qed
qed

text \<open>A client of a table sees only the map, and that its own objects are left alone.\<close>

lemma insert_ok:
  assumes T: "table_ok hf ke kv h ht C A N M" and key: "key \<noteq> 0" "len \<noteq> 0" "key_in C key len"
  shows "hres_ok (hash_table_insert ht key len v ow h) (\<lambda>b h'.
    (\<exists>A' N'. table_ok hf ke kv h' ht C A' N' (if b then M(kv (hmem h) key len \<mapsto> v) else M)) \<and> same_objects C (hmem h) (hmem h') \<and>
    (kv (hmem h) key len \<in> dom M \<longrightarrow> b = ow))"
proof (rule find_in_ok [OF T key(1), of len])
  note D = table_okD [OF T]
  assume "find_in ht key len h = Some 0" and nd: "kv (hmem h) key len \<notin> dom M"
  then have "hash_table_insert ht key len v ow h = insert_new ht key len v (hf (hmem h) key len) h"
    using D(1,2) key(1,2) by (simp add: hash_table_insert_def)
  then show ?thesis using insert_new_ok [OF T key(1,3) nd refl, of v] nd by (auto elim!: hres_ok_mono)
next
  note D = table_okD [OF T]
  fix x assume x: "find_in ht key len h = Some x" "x \<in> N" "x \<noteq> 0" "nkv kv (hmem h) (nodes h x) = kv (hmem h) key len"
  let ?h1 = "h\<lparr>nodes := (nodes h)(x := (nodes h x)\<lparr>nvalue := v\<rparr>)\<rparr>"
  have "table_ok hf ke kv ?h1 ht C A N (M(kv (hmem h) key len \<mapsto> v))"
  proof (rule table_okI)
    show "entries hf kv (hmem ?h1) (nodes ?h1) N (M(kv (hmem h) key len \<mapsto> v))" using entries_update [OF D(8) x(2), of v] x(4) by simp
    have "members ((nodes h)(x := (nodes h x)\<lparr>nvalue := v\<rparr>)) N n i = members (nodes h) N n i" for n i by (auto simp: members_def)
    moreover have "nlist ((nodes h)(x := (nodes h x)\<lparr>nvalue := v\<rparr>)) p xs = nlist (nodes h) p xs" for p xs by (rule nlist_cong) simp
    ultimately show "shape (nodes ?h1) (cells ?h1) (buckets (tables ?h1 ht)) (unat (tsize (tables ?h1 ht))) N"
      using D(7) by (simp add: shape_def bucket_ok_def)
    show "key_in C (nkey (nodes ?h1 y)) (nkey_len (nodes ?h1 y))" if "y \<in> N" for y using D(10) [OF that] D(10) [OF x(2)] by simp
  qed (use D(1-6,9) in simp_all)
  then show ?thesis using x(1,3) D(1) key(1,2) T by (auto simp: hash_table_insert_def)
qed

lemma insert_if_absent_eq: "hash_table_insert_if_absent ht key len v h = hash_table_insert ht key len v False h"
  unfolding hash_table_insert_if_absent_def hash_table_insert_def by (simp cong: if_cong)

lemma lookup_ok:
  assumes T: "table_ok hf ke kv h ht C A N M" and key: "key \<noteq> 0" "len \<noteq> 0"
  shows "hash_table_lookup ht key len h = Some (case M (kv (hmem h) key len) of None \<Rightarrow> 0 | Some v \<Rightarrow> v)"
proof (rule find_in_ok [OF T key(1), of len])
  assume "find_in ht key len h = Some 0" "kv (hmem h) key len \<notin> dom M"
  then show ?thesis using table_okD(1) [OF T] key by (simp add: hash_table_lookup_def domIff)
next
  fix x assume "find_in ht key len h = Some x" "x \<in> N" "x \<noteq> 0" "nkv kv (hmem h) (nodes h x) = kv (hmem h) key len"
  then show ?thesis using table_okD(1) [OF T] key entriesD(3) [OF table_okD(8) [OF T], of x] by (simp add: hash_table_lookup_def)
qed

lemma delete_found:
  assumes T: "table_ok hf ke kv h ht C A N M" and i: "i < unat (tsize (tables h ht))"
    and xs: "nlist (nodes h) (cells h (buckets (tables h ht) + 8 * of_nat i)) (ys @ x # zs)" "distinct (ys @ x # zs)"
      "set (ys @ x # zs) = members (nodes h) N (unat (tsize (tables h ht))) i"
    and u: "u = unlink_node (buckets (tables h ht) + 8 * of_nat i) (if ys = [] then 0 else last ys) x h"
  obtains st k where "hfree x u = Inr (u\<lparr>hslab := st\<rparr>)" "same_objects C (hmem h) (ram (pages st))"
    "table_ok hf ke kv (u\<lparr>hslab := st, tables := (tables h)(ht := (tables h ht)\<lparr>tcount := tcount (tables h ht) - 1\<rparr>)\<rparr>)
       ht C (A - {(x, k)}) (N - {x}) (M(nkv kv (hmem h) (nodes h x) := None))"
proof -
  let ?t = "tables h ht"
  note D = table_okD [OF T]
  have n: "unat (tsize ?t) \<le> 512" "0 < unat (tsize ?t)" using size_ok_bounds [OF D(4)] by simp_all
  note U = shape_unlink [OF D(7) n(1) i xs u]
  have "x \<in> members (nodes h) N (unat (tsize ?t)) i" unfolding xs(3) [symmetric] by simp
  then have x: "x \<in> N" by (simp add: members_def)
  obtain k where k: "(x, k) \<in> A" using ownedD(8) [OF D(9) x] by blast
  have "slab_objects (hslab u) A" using D(6) U(4) by simp
  then obtain st where f: "hfree x u = Inr (u\<lparr>hslab := st\<rparr>)" "slab_objects st (A - {(x, k)})" "same_objects (A - {(x, k)}) (hmem u) (ram (pages st))"
    using k by (rule hfree_ok)
  have ow: "owned C (A - {(x, k)}) ht (buckets ?t) (unat (tsize ?t)) (N - {x})" by (rule owned_free [OF D(9) x]) (rule obj.live_unique [OF D(6) _ k])
  have sC: "same_objects C (hmem h) (ram (pages st))" using same_objects_mono [OF f(3) ownedD(1) [OF ow]] U(4) by simp
  let ?h2 = "u\<lparr>hslab := st, tables := (tables h)(ht := ?t\<lparr>tcount := tcount ?t - 1\<rparr>)\<rparr>"
  have "table_ok hf ke kv ?h2 ht C (A - {(x, k)}) (N - {x}) (M(nkv kv (hmem h) (nodes h x) := None))"
  proof (rule table_okI)
    have "card N = Suc (card (N - {x}))" by (rule card.remove [OF shape_finite [OF D(7) n(2)] x])
    then show "tcount (tables ?h2 ht) = of_nat (card (N - {x}))" using D(5) by simp
    show "entries hf kv (hmem ?h2) (nodes ?h2) (N - {x}) (M(nkv kv (hmem h) (nodes h x) := None))"
      using entries_memory [OF entries_delete [OF D(8) x] _ sC U(2)] D(10) by simp
    show "key_in C (nkey (nodes ?h2 y)) (nkey_len (nodes ?h2 y))" if "y \<in> N - {x}" for y using D(10) [of y] that by (simp add: relinkedD [OF U(2)])
  qed (use D(1-4) f(2) ow U(1) in simp_all)
  then show thesis using that f(1) sC by blast
qed

lemma delete_ok:
  assumes T: "table_ok hf ke kv h ht C A N M" and key: "key \<noteq> 0" "len \<noteq> 0"
  shows "hres_ok (hash_table_delete ht key len h) (\<lambda>b h'.
    (\<exists>A' N'. table_ok hf ke kv h' ht C A' N' (M(kv (hmem h) key len := None))) \<and> same_objects C (hmem h) (hmem h') \<and>
    (b \<longleftrightarrow> kv (hmem h) key len \<in> dom M))"
proof -
  let ?t = "tables h ht" and ?hash = "hf (hmem h) key len" and ?K = "kv (hmem h) key len"
  note D = table_okD [OF T]
  define i where "i = unat ?hash mod unat (tsize ?t)"
  have n: "unat (tsize ?t) \<noteq> 0" using size_ok_bounds [OF D(4)] by linarith
  then have i: "i < unat (tsize ?t)" by (simp add: i_def)
  have c: "cell (buckets ?t) (?hash mod tsize ?t) = buckets ?t + 8 * of_nat i" using cell_mod [OF n] by (simp add: i_def)
  obtain xs where xs: "nlist (nodes h) (cells h (buckets ?t + 8 * of_nat i)) xs" "distinct xs" "set xs = members (nodes h) N (unat (tsize ?t)) i"
    using D(7) i unfolding shape_def bucket_ok_def by blast
  have sub: "x \<in> N" if "x \<in> set xs" for x using that xs(3) by (simp add: members_def)
  from find_prev_ok [OF xs(1), of ?t ?hash key len 0] show ?thesis
  proof (elim disjE conjE exE)
    fix q assume no: "\<forall>x \<in> set xs. \<not> node_matches h ?t ?hash key len x"
      and f: "find_prev h ?t ?hash key len 0 (cells h (buckets ?t + 8 * of_nat i)) = Some (q, 0)"
    have "?K \<notin> dom M"
    proof
      assume "?K \<in> dom M"
      then obtain x where x: "x \<in> N" "nkv kv (hmem h) (nodes h x) = ?K" using entries_dom [OF D(8)] by auto
      have "x \<in> set xs" using in_bucket [OF D(8) x] by (simp add: xs(3) i_def)
      then show False using no matches_iff [OF D(8) x(1) D(3) key(1), of len] x(2) by blast
    qed
    moreover have "M(?K := None) = M" using calculation by (simp add: domIff fun_upd_idem)
    moreover have "hash_table_delete ht key len h = Some (Inr (False, h))" using f c D(1,2) key by (simp add: hash_table_delete_def Let_def)
    ultimately show ?thesis using T by auto
  next
    fix ys x zs assume sp: "xs = ys @ x # zs" and m: "node_matches h ?t ?hash key len x"
      and f: "find_prev h ?t ?hash key len 0 (cells h (buckets ?t + 8 * of_nat i)) = Some (if ys = [] then 0 else last ys, x)"
    have x: "x \<in> N" "x \<noteq> 0" using sub sp nlist_nonzero [OF xs(1)] by auto
    have K: "nkv kv (hmem h) (nodes h x) = ?K" using m matches_iff [OF D(8) x(1) D(3) key(1), of len] by blast
    then have inM: "?K \<in> dom M" using entriesD(3) [OF D(8) x(1)] by auto
    define u where "u = unlink_node (buckets ?t + 8 * of_nat i) (if ys = [] then 0 else last ys) x h"
    obtain st k where F: "hfree x u = Inr (u\<lparr>hslab := st\<rparr>)" "same_objects C (hmem h) (ram (pages st))"
      "table_ok hf ke kv (u\<lparr>hslab := st, tables := (tables h)(ht := ?t\<lparr>tcount := tcount ?t - 1\<rparr>)\<rparr>)
         ht C (A - {(x, k)}) (N - {x}) (M(nkv kv (hmem h) (nodes h x) := None))"
      by (rule delete_found [OF T i xs [unfolded sp] u_def])
    let ?t1 = "?t\<lparr>tcount := tcount ?t - 1\<rparr>"
    define h2 where "h2 = u\<lparr>hslab := st, tables := (tables h)(ht := ?t1)\<rparr>"
    have T2: "table_ok hf ke kv h2 ht C (A - {(x, k)}) (N - {x}) (M(?K := None))" using F(3) K by (simp add: h2_def)
    have s2: "same_objects C (hmem h) (hmem h2)" using F(2) by (simp add: h2_def)
    have "tables u = tables h" by (simp add: u_def unlink_node_def)
    then have e: "hash_table_delete ht key len h =
      (if HASH_TABLE_MIN_SIZE < tsize ?t1 \<and> tcount ?t1 * 100 div tsize ?t1 < HASH_TABLE_LOAD_FACTOR div 2 then
         Option.bind (hash_table_resize ht (tsize ?t1 div 2) h2) (\<lambda>r. case r of Inl e \<Rightarrow> Some (Inl e) | Inr (_, h3) \<Rightarrow> Some (Inr (True, h3)))
       else Some (Inr (True, h2)))"
      using f c D(1,2) key x(2) F(1) by (simp add: hash_table_delete_def Let_def u_def [symmetric] h2_def)
    have "unat (tsize ?t) div 2 \<le> 2147483648" using size_ok_bounds [OF D(4)] by linarith
    then have sz: "tsize ?t1 div 2 \<le> 2 ^ 31" by (simp add: word_le_nat_alt unat_div)
    let ?R = "\<lambda>b h'. (\<exists>A' N'. table_ok hf ke kv h' ht C A' N' (M(?K := None))) \<and> same_objects C (hmem h) (hmem h') \<and> (b \<longleftrightarrow> ?K \<in> dom M)"
    have R: "?R True h'" if "\<exists>A'. table_ok hf ke kv h' ht C A' (N - {x}) (M(?K := None))" "same_objects C (hmem h2) (hmem h')" for h'
      using that(1) same_objects_trans [OF s2 that(2)] inM by blast
    have "hres_ok (Option.bind (hash_table_resize ht (tsize ?t1 div 2) h2) (\<lambda>r. case r of Inl e \<Rightarrow> Some (Inl e) | Inr (_, h3) \<Rightarrow> Some (Inr (True, h3)))) ?R"
      by (rule hres_ok_bind [OF resize_ok [OF T2 sz]]) (unfold hres_ok_ret, elim conjE, rule R)
    moreover have "hres_ok (Some (Inr (True, h2))) ?R" unfolding hres_ok_ret by (rule R) (use T2 in \<open>blast, simp\<close>)
    ultimately show ?thesis unfolding e by (simp only: split: if_split) blast
  qed
qed

end

end
