(* ===== verification/HashmapRefine.thy ===== *)
theory HashmapRefine
  imports HashmapSpec
begin

text \<open>
  The life of a hash table: creation, sequences of operations against a finite map, iteration and
  destruction, for the default key functions.
\<close>

section \<open>The default key functions\<close>

lemma equal_loop_iff: "equal_loop m a b n \<longleftrightarrow> bytes m a n = bytes m b n"
  by (induction m a b n rule: equal_loop.induct) (simp_all add: bytes_Suc, simp add: bytes_def)

definition byte_key :: "memory \<Rightarrow> u64 \<Rightarrow> u32 \<Rightarrow> u8 list" where
  "byte_key m key len = bytes m key (unat len)"

interpretation dk: key_functions default_hash_func default_key_equal byte_key
proof
  fix m m' :: memory and a b :: u64 and len len' :: u32
  show "a \<noteq> 0 \<Longrightarrow> b \<noteq> 0 \<Longrightarrow> default_key_equal m a b len \<longleftrightarrow> byte_key m a len = byte_key m b len"
    by (auto simp: default_key_equal_def equal_loop_iff byte_key_def)
  show "byte_key m a len = byte_key m b len \<Longrightarrow> default_hash_func m a len = default_hash_func m b len"
    by (simp add: default_hash_func_def byte_key_def)
  show "len = len'" if "byte_key m a len = byte_key m b len'"
  proof -
    have "length (byte_key m a len) = length (byte_key m b len')" using that by simp
    then have "unat len = unat len'" by (simp add: byte_key_def)
    then show ?thesis by (rule unsigned_word_eqI)
  qed
  assume "\<And>i. i < unat len \<Longrightarrow> m' (a + of_nat i) = m (a + of_nat i)"
  then have "bytes m' a (unat len) = bytes m a (unat len)" by (rule bytes_cong)
  then show "byte_key m' a len = byte_key m a len" "default_hash_func m' a len = default_hash_func m a len"
    by (simp_all add: byte_key_def default_hash_func_def)
qed

abbreviation default_ok :: "hash_heap \<Rightarrow> u64 \<Rightarrow> (u64 \<times> nat) set \<Rightarrow> (u64 \<times> nat) set \<Rightarrow> u64 set \<Rightarrow> (u8 list \<rightharpoonup> u64) \<Rightarrow> bool" where
  "default_ok \<equiv> table_ok default_hash_func default_key_equal byte_key"

section \<open>Creation\<close>

lemma create_ok:
  assumes C: "slab_objects (hslab h) C" and s: "initial_size \<le> 2 ^ 31"
  shows "hres_ok (hash_table_create initial_size None None h) (\<lambda>ht h'. same_objects C (hmem h) (hmem h') \<and>
    (if ht = 0 then slab_objects (hslab h') C else \<exists>A. default_ok h' ht C A {} Map.empty))"
proof -
  let ?s = "if initial_size < HASH_TABLE_MIN_SIZE then HASH_TABLE_MIN_SIZE else initial_size"
  have "?s \<le> 2 ^ 31" using s by (simp add: HASH_TABLE_MIN_SIZE_def)
  then obtain k where k: "3 \<le> k" "k < 32" "round_up_pow2 ?s = Some (2 ^ k)" by (rule round_up_pow2_ok)
  let ?n = "2 ^ k :: u32"
  show ?thesis
    unfolding hash_table_create_def k(3) Option.bind.bind_lunit option.case
  proof (rule hres_ok_bind [OF halloc_ok [OF C]], goal_cases)
    case (1 ht h1)
    then obtain st where st: "h1 = h\<lparr>hslab := st\<rparr>" "same_objects C (hmem h) (ram (pages st))" and
      al: "if ht = 0 then slab_objects st C else \<exists>j \<ge> unat (ucast (48 :: u64) :: u32). slab_objects st (insert (ht, j) C) \<and> ht \<notin> fst ` C" by blast
    show ?case
    proof (cases "ht = 0")
      case True
      then show ?thesis using al st by simp
    next
      case False
      then obtain j where j: "48 \<le> j" "slab_objects st (insert (ht, j) C)" "ht \<notin> fst ` C" using al by auto
      have o1: "slab_objects (hslab h1) (insert (ht, j) C)" using j(2) st(1) by simp
      have "hres_ok (Option.bind (halloc (8 * ucast ?n) h1) (\<lambda>r2. case r2 of
         Inl e \<Rightarrow> Some (Inl e)
       | Inr (b, h2) \<Rightarrow>
           if b = 0 then (case hfree ht h2 of Inl e \<Rightarrow> Some (Inl e) | Inr h3 \<Rightarrow> Some (Inr (0, h3)))
           else Some (Inr (ht, h2\<lparr>cells := clear_cells b (unat ?n) (cells h2),
             tables := (tables h2)(ht := \<lparr>buckets = b, tsize = ?n, tcount = 0,
               hash_func = default_hash_func, key_equal = default_key_equal\<rparr>)\<rparr>))))
        (\<lambda>ht h'. same_objects C (hmem h) (hmem h') \<and>
          (if ht = 0 then slab_objects (hslab h') C else \<exists>A. default_ok h' ht C A {} Map.empty))"
      proof (rule hres_ok_bind [OF halloc_ok [OF o1]], goal_cases)
        case (1 b h2)
        then obtain st2 where st2: "h2 = h1\<lparr>hslab := st2\<rparr>" "slab_alloc (ucast (8 * ucast ?n :: u64)) (hslab h1) = Some (Inr (b, st2))"
          "same_objects (insert (ht, j) C) (hmem h1) (ram (pages st2))" and
          al2: "if b = 0 then slab_objects st2 (insert (ht, j) C)
            else \<exists>i \<ge> unat (ucast (8 * ucast ?n :: u64) :: u32). slab_objects st2 (insert (b, i) (insert (ht, j) C)) \<and> b \<notin> fst ` insert (ht, j) C" by blast
        have "same_objects C (hmem h1) (ram (pages st2))" using st2(3) by (rule same_objects_mono) blast
        then have s2: "same_objects C (hmem h) (ram (pages st2))" using same_objects_trans [OF st(2)] st(1) by simp
        show ?case
        proof (cases "b = 0")
          case True
          have "slab_objects (hslab h2) (insert (ht, j) C)" "(ht, j) \<in> insert (ht, j) C" using True al2 st2(1) by simp_all
          then obtain st3 where f: "hfree ht h2 = Inr (h2\<lparr>hslab := st3\<rparr>)" "slab_objects st3 (insert (ht, j) C - {(ht, j)})"
            "same_objects (insert (ht, j) C - {(ht, j)}) (hmem h2) (ram (pages st3))" by (rule hfree_ok)
          have "(ht, j) \<notin> C" using j(3) by force
          then have "insert (ht, j) C - {(ht, j)} = C" by simp
          then show ?thesis using True f same_objects_trans [OF s2, of "ram (pages st3)"] st2(1) by simp
        next
          case nb: False
          note bs = bucket_array_size [OF k(1,2) st2(2) nb]
          obtain i where i: "8 * 2 ^ k \<le> i" "slab_objects st2 (insert (b, i) (insert (ht, j) C))" "b \<notin> fst ` insert (ht, j) C"
            using al2 nb bs(2) by auto
          let ?t = "\<lparr>buckets = b, tsize = ?n, tcount = 0, hash_func = default_hash_func, key_equal = default_key_equal\<rparr>"
          let ?h3 = "h2\<lparr>cells := clear_cells b (unat ?n) (cells h2), tables := (tables h2)(ht := ?t)\<rparr>"
          have "default_ok ?h3 ht C (insert (b, i) (insert (ht, j) C)) {} Map.empty"
          proof (rule table_okI)
            show "size_ok (tsize (tables ?h3 ht))" using k(1) bs(1) by (auto simp: size_ok_def)
            show "shape (nodes ?h3) (cells ?h3) (buckets (tables ?h3 ht)) (unat (tsize (tables ?h3 ht))) {}" by (simp add: shape_clear)
            show "owned C (insert (b, i) (insert (ht, j) C)) ht (buckets (tables ?h3 ht)) (unat (tsize (tables ?h3 ht))) {}"
              using j(1,3) i(1,3) unat_pow2_32 [OF k(2)] by (auto simp: owned_def)
          qed (use False i(2) st2(1) in \<open>simp_all add: entries_def\<close>)
          then show ?thesis using nb False s2 st2(1) by auto
        qed
      qed
      then show ?thesis by (simp only: False if_False)
    qed
  qed
qed

section \<open>Destruction\<close>

definition without :: "(u64 \<times> nat) set \<Rightarrow> u64 set \<Rightarrow> (u64 \<times> nat) set" where
  "without A X = {q \<in> A. fst q \<notin> X}"

lemma without_without: "without (without A X) Y = without A (X \<union> Y)"
  by (auto simp: without_def)

lemma hfree_without:
  assumes "slab_objects (hslab h) A" "x \<in> fst ` A"
  obtains st where "hfree x h = Inr (h\<lparr>hslab := st\<rparr>)" "slab_objects st (without A {x})" "same_objects (without A {x}) (hmem h) (ram (pages st))"
proof -
  obtain k where k: "(x, k) \<in> A" using assms(2) by auto
  have u: "l = k" if "(x, l) \<in> A" for l by (rule obj.live_unique [OF assms(1) that k])
  have w: "A - {(x, k)} = without A {x}"
  proof (rule set_eqI)
    fix q show "q \<in> A - {(x, k)} \<longleftrightarrow> q \<in> without A {x}" using u [of "snd q"] by (cases q) (auto simp: without_def)
  qed
  show thesis by (rule hfree_ok [OF assms(1) k]) (unfold w, rule that)
qed

lemma free_chain_ok:
  assumes "nlist (nodes h) p xs" "distinct xs" "set xs \<subseteq> fst ` A" "slab_objects (hslab h) A"
  shows "\<exists>st. free_chain p h = Some (Inr (h\<lparr>hslab := st\<rparr>)) \<and> slab_objects st (without A (set xs)) \<and>
    same_objects (without A (set xs)) (hmem h) (ram (pages st))"
  using assms
proof (induction xs arbitrary: p h A)
  case Nil
  then show ?case by (intro exI [of _ "hslab h"]) (simp add: free_chain.simps without_def)
next
  case (Cons x xs)
  have x: "x \<in> fst ` A" using Cons.prems(3) by simp
  obtain st where f: "hfree x h = Inr (h\<lparr>hslab := st\<rparr>)" "slab_objects st (without A {x})" "same_objects (without A {x}) (hmem h) (ram (pages st))"
    by (rule hfree_without [OF Cons.prems(4) x])
  let ?h1 = "h\<lparr>hslab := st\<rparr>"
  have p: "p = x" "x \<noteq> 0" "nlist (nodes ?h1) (nnext (nodes h x)) xs" using Cons.prems(1) by auto
  have sub: "set xs \<subseteq> fst ` without A {x}"
  proof
    fix y assume y: "y \<in> set xs"
    then obtain l where "(y, l) \<in> A" using Cons.prems(3) by auto
    moreover have "y \<noteq> x" using y Cons.prems(2) by auto
    ultimately show "y \<in> fst ` without A {x}" by (force simp: without_def)
  qed
  have d: "distinct xs" using Cons.prems(2) by simp
  have o: "slab_objects (hslab ?h1) (without A {x})" using f(2) by simp
  obtain st' where r: "free_chain (nnext (nodes h x)) ?h1 = Some (Inr (?h1\<lparr>hslab := st'\<rparr>))"
    "slab_objects st' (without (without A {x}) (set xs))" "same_objects (without (without A {x}) (set xs)) (hmem ?h1) (ram (pages st'))"
    using Cons.IH [OF p(3) d sub o] by blast
  have w: "without (without A {x}) (set xs) = without A (set (x # xs))" by (simp add: without_without)
  have "same_objects (without A (set (x # xs))) (hmem h) (ram (pages st))"
    using f(3) by (rule same_objects_mono) (auto simp: without_def)
  then have "same_objects (without A (set (x # xs))) (hmem h) (ram (pages st'))" using r(3) unfolding w by (auto elim: same_objects_trans)
  moreover have "free_chain p h = Some (Inr (h\<lparr>hslab := st'\<rparr>))"
    unfolding p(1) using p(2) f(1) r(1) by (simp add: free_chain.simps [of x h] Let_def)
  ultimately show ?case using r(2) unfolding w by blast
qed

lemma free_buckets_ok:
  assumes "\<forall>j. i \<le> j \<and> j < i + k \<longrightarrow> nlist (nodes h) (cells h (b + 8 * of_nat j)) (bs j) \<and> distinct (bs j) \<and> set (bs j) \<subseteq> fst ` A"
    and "\<forall>j l. j < i + k \<and> l < i + k \<and> j \<noteq> l \<longrightarrow> set (bs j) \<inter> set (bs l) = {}" and "slab_objects (hslab h) A"
  shows "\<exists>st. free_buckets b i k h = Some (Inr (h\<lparr>hslab := st\<rparr>)) \<and> slab_objects st (without A (\<Union>j \<in> {i..<i + k}. set (bs j))) \<and>
    same_objects (without A (\<Union>j \<in> {i..<i + k}. set (bs j))) (hmem h) (ram (pages st))"
  using assms
proof (induction k arbitrary: i h A)
  case 0
  then show ?case by (intro exI [of _ "hslab h"]) (simp add: without_def)
next
  case (Suc k)
  have b: "nlist (nodes h) (cells h (b + 8 * of_nat i)) (bs i)" "distinct (bs i)" "set (bs i) \<subseteq> fst ` A" using Suc.prems(1) by auto
  obtain st where f: "free_chain (cells h (b + 8 * of_nat i)) h = Some (Inr (h\<lparr>hslab := st\<rparr>))" "slab_objects st (without A (set (bs i)))"
    "same_objects (without A (set (bs i))) (hmem h) (ram (pages st))" using free_chain_ok [OF b Suc.prems(3)] by blast
  let ?h1 = "h\<lparr>hslab := st\<rparr>" and ?A = "without A (set (bs i))" and ?X = "\<Union>j \<in> {Suc i..<Suc i + k}. set (bs j)"
  have "nlist (nodes ?h1) (cells ?h1 (b + 8 * of_nat j)) (bs j) \<and> distinct (bs j) \<and> set (bs j) \<subseteq> fst ` ?A" if j: "Suc i \<le> j" "j < Suc i + k" for j
  proof -
    have o: "nlist (nodes h) (cells h (b + 8 * of_nat j)) (bs j)" "distinct (bs j)" "set (bs j) \<subseteq> fst ` A" using Suc.prems(1) j by auto
    have dj: "set (bs j) \<inter> set (bs i) = {}" using Suc.prems(2) j by auto
    have "set (bs j) \<subseteq> fst ` ?A"
    proof
      fix y assume y: "y \<in> set (bs j)"
      then obtain l where "(y, l) \<in> A" using o(3) by auto
      moreover have "y \<notin> set (bs i)" using y dj by blast
      ultimately show "y \<in> fst ` ?A" by (force simp: without_def)
    qed
    then show ?thesis using o by simp
  qed
  then have "\<exists>st'. free_buckets b (Suc i) k ?h1 = Some (Inr (?h1\<lparr>hslab := st'\<rparr>)) \<and> slab_objects st' (without ?A ?X) \<and>
    same_objects (without ?A ?X) (hmem ?h1) (ram (pages st'))"
    using Suc.prems(2) f(2) by (intro Suc.IH) auto
  then obtain st' where r: "free_buckets b (Suc i) k ?h1 = Some (Inr (?h1\<lparr>hslab := st'\<rparr>))" "slab_objects st' (without ?A ?X)"
    "same_objects (without ?A ?X) (ram (pages st)) (ram (pages st'))" by auto
  have "{i..<i + Suc k} = insert i {Suc i..<Suc i + k}" by auto
  then have w: "without ?A ?X = without A (\<Union>j \<in> {i..<i + Suc k}. set (bs j))" by (simp add: without_without)
  have "same_objects (without ?A ?X) (hmem h) (ram (pages st))" using f(3) by (rule same_objects_mono) (auto simp: without_def)
  then have "same_objects (without ?A ?X) (hmem h) (ram (pages st'))" using r(3) by (rule same_objects_trans)
  moreover have "free_buckets b i (Suc k) h = Some (Inr (h\<lparr>hslab := st'\<rparr>))" using f(1) r(1) by simp
  ultimately show ?case using r(2) unfolding w by blast
qed

text \<open>The chains of all buckets, as lists.\<close>

lemma shape_lists:
  assumes "shape nd c b n N" "0 < n"
  obtains bs where "\<forall>i < n. nlist nd (c (b + 8 * of_nat i)) (bs i) \<and> distinct (bs i) \<and> set (bs i) \<subseteq> N"
    "\<forall>j < n. \<forall>l < n. j \<noteq> l \<longrightarrow> set (bs j) \<inter> set (bs l) = {}" "(\<Union>j \<in> {0..<n}. set (bs j)) = N"
proof -
  have "\<forall>i. \<exists>xs. i < n \<longrightarrow> nlist nd (c (b + 8 * of_nat i)) xs \<and> distinct xs \<and> set xs = members nd N n i"
    using assms(1) unfolding shape_def bucket_ok_def by blast
  then obtain bs where bs: "\<And>i. i < n \<Longrightarrow> nlist nd (c (b + 8 * of_nat i)) (bs i) \<and> distinct (bs i) \<and> set (bs i) = members nd N n i" by metis
  have "(\<Union>j \<in> {0..<n}. set (bs j)) = N"
  proof (rule set_eqI)
    fix x
    have m: "unat (nhash (nd x)) mod n < n" using assms(2) by simp
    show "x \<in> (\<Union>j \<in> {0..<n}. set (bs j)) \<longleftrightarrow> x \<in> N" using bs m by (auto simp: members_def)
  qed
  moreover have "set (bs j) \<inter> set (bs l) = {}" if "j < n" "l < n" "j \<noteq> l" for j l
    using bs [OF that(1)] bs [OF that(2)] that(3) by (auto simp: members_def)
  moreover have "nlist nd (c (b + 8 * of_nat i)) (bs i) \<and> distinct (bs i) \<and> set (bs i) \<subseteq> N" if "i < n" for i
    using bs [OF that] by (auto simp: members_def)
  ultimately show thesis using that by blast
qed

lemma destroy_ok:
  assumes T: "table_ok hf ke kv h ht C A N M"
  shows "\<exists>st. hash_table_destroy ht h = Some (Inr (h\<lparr>hslab := st\<rparr>)) \<and> slab_objects st C \<and> same_objects C (hmem h) (ram (pages st))"
proof -
  let ?t = "tables h ht" and ?b = "buckets (tables h ht)"
  note D = table_okD [OF T] and O = ownedD [OF table_okD(9) [OF T]]
  have n: "0 < unat (tsize ?t)" using size_ok_bounds [OF D(4)] by linarith
  obtain bs where bs: "\<forall>i < unat (tsize ?t). nlist (nodes h) (cells h (?b + 8 * of_nat i)) (bs i) \<and> distinct (bs i) \<and> set (bs i) \<subseteq> N"
    "\<forall>j < unat (tsize ?t). \<forall>l < unat (tsize ?t). j \<noteq> l \<longrightarrow> set (bs j) \<inter> set (bs l) = {}" "(\<Union>j \<in> {0..<unat (tsize ?t)}. set (bs j)) = N"
    by (rule shape_lists [OF D(7) n])
  have "x \<in> fst ` A" if "x \<in> N" for x using O(8) [OF that] by force
  then have sub_live: "\<forall>i < unat (tsize ?t). set (bs i) \<subseteq> fst ` A" using bs(1) by blast
  have "\<exists>st. free_buckets ?b 0 (unat (tsize ?t)) h = Some (Inr (h\<lparr>hslab := st\<rparr>)) \<and>
    slab_objects st (without A (\<Union>j \<in> {0..<0 + unat (tsize ?t)}. set (bs j))) \<and>
    same_objects (without A (\<Union>j \<in> {0..<0 + unat (tsize ?t)}. set (bs j))) (hmem h) (ram (pages st))"
    using bs(1,2) sub_live D(6) by (intro free_buckets_ok) auto
  then obtain st1 where f1: "free_buckets ?b 0 (unat (tsize ?t)) h = Some (Inr (h\<lparr>hslab := st1\<rparr>))" "slab_objects st1 (without A N)"
    "same_objects (without A N) (hmem h) (ram (pages st1))" using bs(3) by auto
  let ?h1 = "h\<lparr>hslab := st1\<rparr>"
  obtain kb kt where kb: "(?b, kb) \<in> A" "(ht, kt) \<in> A" using O(6,7) by blast
  have "(?b, kb) \<in> without A N" using kb(1) O(5) by (simp add: without_def)
  then have m: "?b \<in> fst ` without A N" by force
  have o1: "slab_objects (hslab ?h1) (without A N)" using f1(2) by simp
  obtain st2 where f2: "hfree ?b ?h1 = Inr (?h1\<lparr>hslab := st2\<rparr>)" "slab_objects st2 (without (without A N) {?b})"
    "same_objects (without (without A N) {?b}) (hmem ?h1) (ram (pages st2))" by (rule hfree_without [OF o1 m])
  let ?h2 = "h\<lparr>hslab := st2\<rparr>"
  have "(ht, kt) \<in> without (without A N) {?b}" using kb(2) O(3,4) by (simp add: without_def)
  then have m2: "ht \<in> fst ` without (without A N) {?b}" by force
  have o2: "slab_objects (hslab ?h2) (without (without A N) {?b})" using f2(2) by simp
  obtain st3 where f3: "hfree ht ?h2 = Inr (?h2\<lparr>hslab := st3\<rparr>)" "slab_objects st3 (without (without (without A N) {?b}) {ht})"
    "same_objects (without (without (without A N) {?b}) {ht}) (hmem ?h2) (ram (pages st3))" by (rule hfree_without [OF o2 m2])
  have w: "without (without (without A N) {?b}) {ht} = C"
  proof (rule set_eqI)
    fix q
    have "q \<in> C \<Longrightarrow> q \<in> A \<and> fst q \<notin> insert ht (insert ?b N)" using O(1,2) by blast
    then show "q \<in> without (without (without A N) {?b}) {ht} \<longleftrightarrow> q \<in> C" using O(9) [of q] by (auto simp: without_def)
  qed
  have sub: "C \<subseteq> without A N" "C \<subseteq> without (without A N) {?b}" unfolding w [symmetric] by (auto simp: without_def)
  have "same_objects C (hmem h) (ram (pages st1))" using f1(3) sub(1) by (rule same_objects_mono)
  moreover have "same_objects C (ram (pages st1)) (ram (pages st2))" using same_objects_mono [OF f2(3) sub(2)] by simp
  moreover have "same_objects C (ram (pages st2)) (ram (pages st3))" using f3(3) unfolding w by simp
  ultimately have "same_objects C (hmem h) (ram (pages st3))" using same_objects_trans by blast
  moreover have "hash_table_destroy ht h = Some (Inr (h\<lparr>hslab := st3\<rparr>))"
    using D(1) f1(1) f2(1) f3(1) by (simp add: hash_table_destroy_def Let_def)
  ultimately show ?thesis using f3(2) unfolding w by blast
qed

section \<open>Iteration\<close>

definition visit :: "(u64 \<Rightarrow> u32 \<Rightarrow> u64 \<Rightarrow> 'c \<Rightarrow> 'c) \<Rightarrow> hash_node \<Rightarrow> 'c \<Rightarrow> 'c" where
  "visit cb v = cb (nkey v) (nkey_len v) (nvalue v)"

lemma foreach_chain_ok: "nlist (nodes h) p xs \<Longrightarrow> foreach_chain cb h p s = Some (fold (\<lambda>x. visit cb (nodes h x)) xs s)"
proof (induction xs arbitrary: p s)
  case (Cons x xs)
  then show ?case by (simp add: foreach_chain.simps [of cb h x] Let_def visit_def)
qed (simp add: foreach_chain.simps)

lemma foreach_buckets_ok:
  "(\<And>j. i \<le> j \<Longrightarrow> j < i + k \<Longrightarrow> nlist (nodes h) (cells h (b + 8 * of_nat j)) (bs j)) \<Longrightarrow>
   foreach_buckets cb h b i k s = Some (fold (\<lambda>x. visit cb (nodes h x)) (concat (map bs [i..<i + k])) s)"
proof (induction k arbitrary: i s)
  case (Suc k)
  have "foreach_chain cb h (cells h (b + 8 * of_nat i)) s = Some (fold (\<lambda>x. visit cb (nodes h x)) (bs i) s)"
    by (rule foreach_chain_ok) (use Suc.prems in simp)
  moreover have "foreach_buckets cb h b (Suc i) k s' = Some (fold (\<lambda>x. visit cb (nodes h x)) (concat (map bs [Suc i..<Suc i + k])) s')" for s'
    by (rule Suc.IH) (use Suc.prems in simp)
  moreover have "[i..<i + Suc k] = i # [Suc i..<Suc i + k]" by (simp add: upt_conv_Cons del: upt_Suc)
  ultimately show ?case by (simp del: upt_Suc)
qed simp

lemma foreach_ok:
  assumes T: "table_ok hf ke kv h ht C A N M"
  obtains ns where "distinct ns" "set ns = N" "\<forall>cb s. hash_table_foreach (Some cb) ht h s = Some (fold (\<lambda>x. visit cb (nodes h x)) ns s)"
proof -
  let ?t = "tables h ht"
  note D = table_okD [OF T]
  have n: "0 < unat (tsize ?t)" using size_ok_bounds [OF D(4)] by linarith
  obtain bs where bs: "\<forall>i < unat (tsize ?t). nlist (nodes h) (cells h (buckets ?t + 8 * of_nat i)) (bs i) \<and> distinct (bs i) \<and> set (bs i) \<subseteq> N"
    "\<forall>j < unat (tsize ?t). \<forall>l < unat (tsize ?t). j \<noteq> l \<longrightarrow> set (bs j) \<inter> set (bs l) = {}" "(\<Union>j \<in> {0..<unat (tsize ?t)}. set (bs j)) = N"
    by (rule shape_lists [OF D(7) n])
  have dist: "distinct (concat (map bs [0..<k]))" if "k \<le> unat (tsize ?t)" for k
    using that
  proof (induction k)
    case (Suc k)
    have "\<forall>i < k. set (bs i) \<inter> set (bs k) = {}" using bs(2) Suc.prems by simp
    then have "set (concat (map bs [0..<k])) \<inter> set (bs k) = {}" by auto
    then show ?case using Suc bs(1) by simp
  qed simp
  have "foreach_buckets cb h (buckets ?t) 0 (unat (tsize ?t)) s = Some (fold (\<lambda>x. visit cb (nodes h x)) (concat (map bs [0..<0 + unat (tsize ?t)])) s)"
    for cb :: "u64 \<Rightarrow> u32 \<Rightarrow> u64 \<Rightarrow> 'z \<Rightarrow> 'z" and s
    by (rule foreach_buckets_ok) (use bs(1) in simp)
  then have "hash_table_foreach (Some cb) ht h s = Some (fold (\<lambda>x. visit cb (nodes h x)) (concat (map bs [0..<unat (tsize ?t)])) s)"
    for cb :: "u64 \<Rightarrow> u32 \<Rightarrow> u64 \<Rightarrow> 'z \<Rightarrow> 'z" and s
    using D(1) by (simp add: hash_table_foreach_def)
  moreover have "set (concat (map bs [0..<unat (tsize ?t)])) = N" using bs(3) by simp
  ultimately show thesis using that [OF dist [OF order_refl]] by blast
qed

section \<open>Sequences of operations\<close>

text \<open>Requests of a client and their answers; \<open>map_step\<close> says which answers a finite map allows.\<close>

datatype hash_op = HInsert u64 u32 u64 bool | HInsertAbsent u64 u32 u64 | HLookup u64 u32 | HDelete u64 u32
datatype hash_ans = Done bool | Found u64

fun hash_do :: "u64 \<Rightarrow> hash_op \<Rightarrow> hash_heap \<Rightarrow> (hash_ans \<times> hash_heap) kres option" where
  "hash_do ht (HInsert key len v ow) h = map_option (map_sum id (map_prod Done id)) (hash_table_insert ht key len v ow h)"
| "hash_do ht (HInsertAbsent key len v) h = map_option (map_sum id (map_prod Done id)) (hash_table_insert_if_absent ht key len v h)"
| "hash_do ht (HLookup key len) h = map_option (\<lambda>v. Inr (Found v, h)) (hash_table_lookup ht key len h)"
| "hash_do ht (HDelete key len) h = map_option (map_sum id (map_prod Done id)) (hash_table_delete ht key len h)"

fun hash_run :: "u64 \<Rightarrow> hash_op list \<Rightarrow> hash_heap \<Rightarrow> (hash_ans list \<times> hash_heap) kres option" where
  "hash_run ht [] h = Some (Inr ([], h))"
| "hash_run ht (op # ops) h = Option.bind (hash_do ht op h) (\<lambda>r. case r of
     Inl e \<Rightarrow> Some (Inl e)
   | Inr (a, h1) \<Rightarrow> map_option (map_sum id (map_prod (Cons a) id)) (hash_run ht ops h1))"

definition map_insert :: "'k \<Rightarrow> u64 \<Rightarrow> bool \<Rightarrow> bool \<Rightarrow> ('k \<rightharpoonup> u64) \<Rightarrow> ('k \<rightharpoonup> u64) option" where
  "map_insert k v ow b M = (if M k \<noteq> None \<and> b \<noteq> ow then None else Some (if b then M(k \<mapsto> v) else M))"

fun map_step :: "(u64 \<Rightarrow> u32 \<Rightarrow> 'k) \<Rightarrow> hash_op \<Rightarrow> hash_ans \<Rightarrow> ('k \<rightharpoonup> u64) \<Rightarrow> ('k \<rightharpoonup> u64) option" where
  "map_step kf (HInsert key len v ow) (Done b) M =
     (if key = 0 \<or> len = 0 then if b then None else Some M else map_insert (kf key len) v ow b M)"
| "map_step kf (HInsertAbsent key len v) (Done b) M =
     (if key = 0 \<or> len = 0 then if b then None else Some M else map_insert (kf key len) v False b M)"
| "map_step kf (HLookup key len) (Found v) M =
     (if v = (if key = 0 \<or> len = 0 then 0 else case M (kf key len) of None \<Rightarrow> 0 | Some w \<Rightarrow> w) then Some M else None)"
| "map_step kf (HDelete key len) (Done b) M =
     (if key = 0 \<or> len = 0 then if b then None else Some M
      else if b = (M (kf key len) \<noteq> None) then Some (M(kf key len := None)) else None)"
| "map_step kf _ _ M = None"

fun map_run :: "(u64 \<Rightarrow> u32 \<Rightarrow> 'k) \<Rightarrow> hash_op list \<Rightarrow> hash_ans list \<Rightarrow> ('k \<rightharpoonup> u64) \<Rightarrow> ('k \<rightharpoonup> u64) option" where
  "map_run kf [] [] M = Some M"
| "map_run kf (op # ops) (a # as) M = Option.bind (map_step kf op a M) (map_run kf ops as)"
| "map_run kf _ _ M = None"

fun op_valid :: "(u64 \<times> nat) set \<Rightarrow> hash_op \<Rightarrow> bool" where
  "op_valid C (HInsert key len v ow) \<longleftrightarrow> key = 0 \<or> len = 0 \<or> key_in C key len"
| "op_valid C (HInsertAbsent key len v) \<longleftrightarrow> key = 0 \<or> len = 0 \<or> key_in C key len"
| "op_valid C (HLookup key len) \<longleftrightarrow> key = 0 \<or> len = 0 \<or> key_in C key len"
| "op_valid C (HDelete key len) \<longleftrightarrow> key = 0 \<or> len = 0 \<or> key_in C key len"

lemma hres_ok_map: "hres_ok r Q \<Longrightarrow> (\<And>a h. Q a h \<Longrightarrow> R (f a) h) \<Longrightarrow> hres_ok (map_option (map_sum id (map_prod f id)) r) R"
  unfolding hres_ok_def
  by (elim exE conjE, rename_tac x, rule_tac x = "map_sum id (map_prod f id) x" in exI) (auto split: sum.splits)

definition step_ok :: "hash_fun \<Rightarrow> equal_fun \<Rightarrow> (memory \<Rightarrow> u64 \<Rightarrow> u32 \<Rightarrow> 'k) \<Rightarrow> hash_heap \<Rightarrow> u64 \<Rightarrow> (u64 \<times> nat) set \<Rightarrow>
    hash_op \<Rightarrow> ('k \<rightharpoonup> u64) \<Rightarrow> hash_ans \<Rightarrow> hash_heap \<Rightarrow> bool" where
  "step_ok hf ke kv h ht C op M a h' \<longleftrightarrow> (\<exists>A' N' M'. table_ok hf ke kv h' ht C A' N' M' \<and>
     map_step (kv (hmem h)) op a M = Some M' \<and> same_objects C (hmem h) (hmem h'))"

lemma step_okI:
  "table_ok hf ke kv h' ht C A' N' M' \<Longrightarrow> map_step (kv (hmem h)) op a M = Some M' \<Longrightarrow> same_objects C (hmem h) (hmem h') \<Longrightarrow>
   step_ok hf ke kv h ht C op M a h'"
  unfolding step_ok_def by blast

context key_functions
begin

lemma insert_step:
  assumes T: "table_ok hf ke kv h ht C A N M" and v: "op_valid C (HInsert key len v ow)"
  shows "hres_ok (hash_do ht (HInsert key len v ow) h) (step_ok hf ke kv h ht C (HInsert key len v ow) M)"
proof (cases "key = 0 \<or> len = 0")
  case True
  then show ?thesis by (auto simp: hash_table_insert_def intro!: step_okI [OF T])
next
  case False
  then have k: "key \<noteq> 0" "len \<noteq> 0" "key_in C key len" using v by auto
  show ?thesis unfolding hash_do.simps
  proof (rule hres_ok_map [OF insert_ok [OF T k]], elim conjE exE)
    fix b h' A' N' assume r: "table_ok hf ke kv h' ht C A' N' (if b then M(kv (hmem h) key len \<mapsto> v) else M)"
      "same_objects C (hmem h) (hmem h')" "kv (hmem h) key len \<in> dom M \<longrightarrow> b = ow"
    then have "map_step (kv (hmem h)) (HInsert key len v ow) (Done b) M = Some (if b then M(kv (hmem h) key len \<mapsto> v) else M)"
      using k by (auto simp: map_insert_def domIff)
    then show "step_ok hf ke kv h ht C (HInsert key len v ow) M (Done b) h'" using r by (intro step_okI)
  qed
qed

lemma delete_step:
  assumes T: "table_ok hf ke kv h ht C A N M"
  shows "hres_ok (hash_do ht (HDelete key len) h) (step_ok hf ke kv h ht C (HDelete key len) M)"
proof (cases "key = 0 \<or> len = 0")
  case True
  then show ?thesis by (auto simp: hash_table_delete_def intro!: step_okI [OF T])
next
  case False
  then have k: "key \<noteq> 0" "len \<noteq> 0" by auto
  show ?thesis unfolding hash_do.simps
  proof (rule hres_ok_map [OF delete_ok [OF T k]], elim conjE exE)
    fix b h' A' N' assume r: "table_ok hf ke kv h' ht C A' N' (M(kv (hmem h) key len := None))"
      "same_objects C (hmem h) (hmem h')" "b \<longleftrightarrow> kv (hmem h) key len \<in> dom M"
    then have "map_step (kv (hmem h)) (HDelete key len) (Done b) M = Some (M(kv (hmem h) key len := None))" using k by (simp add: domIff)
    then show "step_ok hf ke kv h ht C (HDelete key len) M (Done b) h'" using r by (intro step_okI)
  qed
qed

lemma do_ok:
  assumes T: "table_ok hf ke kv h ht C A N M" and v: "op_valid C op"
  shows "hres_ok (hash_do ht op h) (step_ok hf ke kv h ht C op M)"
proof (cases op)
  case (HInsert key len v ow)
  then show ?thesis using insert_step [OF T] v by simp
next
  case (HInsertAbsent key len v)
  have "hres_ok (hash_do ht (HInsert key len v False) h) (step_ok hf ke kv h ht C (HInsert key len v False) M)"
    using insert_step [OF T] v HInsertAbsent by simp
  then show ?thesis unfolding HInsertAbsent hash_do.simps insert_if_absent_eq
  proof (rule hres_ok_mono)
    fix a h' assume "step_ok hf ke kv h ht C (HInsert key len v False) M a h'"
    then show "step_ok hf ke kv h ht C (HInsertAbsent key len v) M a h'" by (cases a) (simp_all add: step_ok_def)
  qed
next
  case (HLookup key len)
  have "hash_table_lookup ht key len h = Some (if key = 0 \<or> len = 0 then 0 else case M (kv (hmem h) key len) of None \<Rightarrow> 0 | Some v \<Rightarrow> v)"
  proof (cases "key = 0 \<or> len = 0")
    case True
    then show ?thesis by (simp add: hash_table_lookup_def)
  next
    case False
    then show ?thesis using lookup_ok [OF T, of key len] by simp
  qed
  then show ?thesis using HLookup by (auto intro!: step_okI [OF T])
next
  case (HDelete key len)
  then show ?thesis using delete_step [OF T] by simp
qed

lemma op_keys_same:
  assumes "op_valid C op" "same_objects C m m'"
  shows "map_step (kv m') op a M = map_step (kv m) op a M"
  using assms key_same [OF _ assms(2)] by (cases op; cases a) auto

lemma run_keys_same:
  assumes "same_objects C m m'"
  shows "\<forall>op \<in> set ops. op_valid C op \<Longrightarrow> map_run (kv m') ops as M = map_run (kv m) ops as M"
proof (induction ops arbitrary: as M)
  case Nil
  then show ?case by (cases as) simp_all
next
  case (Cons op ops)
  then have "map_run (kv m') ops bs = map_run (kv m) ops bs" for bs by (intro ext) simp
  moreover have "map_step (kv m') op a M = map_step (kv m) op a M" for a using Cons.prems by (intro op_keys_same [OF _ assms]) simp
  ultimately show ?case by (cases as) simp_all
qed

lemma run_ok:
  assumes "table_ok hf ke kv h ht C A N M" "\<forall>op \<in> set ops. op_valid C op"
  shows "hres_ok (hash_run ht ops h) (\<lambda>as h'. \<exists>A' N' M'. table_ok hf ke kv h' ht C A' N' M' \<and>
    map_run (kv (hmem h)) ops as M = Some M' \<and> same_objects C (hmem h) (hmem h'))"
  using assms
proof (induction ops arbitrary: h A N M)
  case Nil
  then show ?case by auto
next
  case (Cons op ops)
  have v: "op_valid C op" "\<forall>op \<in> set ops. op_valid C op" using Cons.prems(2) by simp_all
  show ?case
    unfolding hash_run.simps
  proof (rule hres_ok_bind [OF do_ok [OF Cons.prems(1) v(1)]])
    fix a h1 assume "step_ok hf ke kv h ht C op M a h1"
    then obtain A1 N1 M1 where 1: "table_ok hf ke kv h1 ht C A1 N1 M1" "map_step (kv (hmem h)) op a M = Some M1" "same_objects C (hmem h) (hmem h1)"
      unfolding step_ok_def by blast
    show "hres_ok (map_option (map_sum id (map_prod (Cons a) id)) (hash_run ht ops h1)) (\<lambda>as h'. \<exists>A' N' M'. table_ok hf ke kv h' ht C A' N' M' \<and>
      map_run (kv (hmem h)) (op # ops) as M = Some M' \<and> same_objects C (hmem h) (hmem h'))"
    proof (rule hres_ok_map [OF Cons.IH [OF 1(1) v(2)]], elim exE conjE)
      fix as h' A' N' M'
      assume r: "table_ok hf ke kv h' ht C A' N' M'" "map_run (kv (hmem h1)) ops as M1 = Some M'" "same_objects C (hmem h1) (hmem h')"
      have "map_run (kv (hmem h)) (op # ops) (a # as) M = Some M'" using 1(2) r(2) run_keys_same [OF 1(3) v(2)] by simp
      then show "\<exists>A' N' M'. table_ok hf ke kv h' ht C A' N' M' \<and> map_run (kv (hmem h)) (op # ops) (a # as) M = Some M' \<and> same_objects C (hmem h) (hmem h')"
        using r(1) same_objects_trans [OF 1(3) r(3)] by blast
    qed
  qed
qed

lemma count_ok:
  assumes "table_ok hf ke kv h ht C A N M"
  shows "hash_table_count ht h = of_nat (card (dom M))"
proof -
  note D = table_okD [OF assms]
  have "card (dom M) = card N" using D(8) unfolding entries_def by (simp add: card_image)
  then show ?thesis using D(1,5) by (simp add: hash_table_count_def)
qed

end

section \<open>Properties\<close>

lemma hres_ok_cases:
  "hres_ok r Q \<longleftrightarrow> (case r of None \<Rightarrow> False | Some (Inl e) \<Rightarrow> e = Panic ''memory out of space!'' | Some (Inr (a, h)) \<Rightarrow> Q a h)"
  by (cases r) (auto simp: hres_ok_def split: sum.splits)

text \<open>A table created with the default key functions, and a sequence of requests to it.\<close>

definition hash_session :: "u32 \<Rightarrow> hash_op list \<Rightarrow> hash_heap \<Rightarrow> ((u64 \<times> hash_ans list) \<times> hash_heap) kres option" where
  "hash_session n ops h = Option.bind (hash_table_create n None None h) (\<lambda>r. case r of
     Inl e \<Rightarrow> Some (Inl e)
   | Inr (ht, h1) \<Rightarrow> if ht = 0 then Some (Inr ((0, []), h1)) else map_option (map_sum id (map_prod (Pair ht) id)) (hash_run ht ops h1))"

text \<open>
  (C1) The hash table refines a finite map from byte strings: any sequence of insertions (with and
  without overwriting), insertions if absent, lookups and deletions returns or ends in the
  out-of-memory panic of the slab allocator; every answer is one the map allows (a lookup
  returns the value last stored, a deletion tells whether the key was there, an insertion is
  refused for a present key that may not be overwritten, else fails only without effect), through
  all resizes on the way, and the objects of the clients are left alone.
\<close>

theorem hash_table_refines_map:
  assumes "table_ok default_hash_func default_key_equal byte_key h ht C A N M" "\<forall>op \<in> set ops. op_valid C op"
  shows "case hash_run ht ops h of
      None \<Rightarrow> False
    | Some (Inl e) \<Rightarrow> e = Panic ''memory out of space!''
    | Some (Inr (as, h')) \<Rightarrow> same_objects C (hmem h) (hmem h') \<and>
        (\<exists>A' N' M'. table_ok default_hash_func default_key_equal byte_key h' ht C A' N' M' \<and> map_run (byte_key (hmem h)) ops as M = Some M')"
  using hres_ok_mono [OF dk.run_ok [OF assms], where R = "\<lambda>as h'. same_objects C (hmem h) (hmem h') \<and>
    (\<exists>A' N' M'. default_ok h' ht C A' N' M' \<and> map_run (byte_key (hmem h)) ops as M = Some M')"]
  unfolding hres_ok_cases by blast

text \<open>
  (C17) The shape of a table: after its creation for at most \<open>2 ^ 31\<close> buckets and any sequence of
  requests its number of buckets is a power of two from 8 to 512 and its count is the number of
  entries; a creation that fails leaves exactly the objects live that were live before.
\<close>

theorem hash_table_size_type:
  assumes "slab_objects (hslab h) C" "n \<le> 2 ^ 31" "\<forall>op \<in> set ops. op_valid C op"
  shows "case hash_session n ops h of
      None \<Rightarrow> False
    | Some (Inl e) \<Rightarrow> e = Panic ''memory out of space!''
    | Some (Inr ((ht, as), h')) \<Rightarrow>
        if ht = 0 then slab_objects (hslab h') C
        else (\<exists>k \<in> {3..9}. tsize (tables h' ht) = 2 ^ k) \<and>
          (\<exists>M. map_run (byte_key (hmem h)) ops as Map.empty = Some M \<and> hash_table_count ht h' = of_nat (card (dom M)))"
proof -
  let ?R = "\<lambda>p h'. if fst p = 0 then slab_objects (hslab h') C
    else (\<exists>k \<in> {3..9}. tsize (tables h' (fst p)) = 2 ^ k) \<and>
      (\<exists>M. map_run (byte_key (hmem h)) ops (snd p) Map.empty = Some M \<and> hash_table_count (fst p) h' = of_nat (card (dom M)))"
  have "hres_ok (hash_session n ops h) ?R"
    unfolding hash_session_def
  proof (rule hres_ok_bind [OF create_ok [OF assms(1,2)]])
    fix ht h1 assume c: "same_objects C (hmem h) (hmem h1) \<and> (if ht = 0 then slab_objects (hslab h1) C else \<exists>A. default_ok h1 ht C A {} Map.empty)"
    show "hres_ok (if ht = 0 then Some (Inr ((0, []), h1)) else map_option (map_sum id (map_prod (Pair ht) id)) (hash_run ht ops h1)) ?R"
    proof (cases "ht = 0")
      case False
      then obtain A where A: "default_ok h1 ht C A {} Map.empty" and sC: "same_objects C (hmem h) (hmem h1)" using c by auto
      have "hres_ok (map_option (map_sum id (map_prod (Pair ht) id)) (hash_run ht ops h1)) ?R"
      proof (rule hres_ok_map [OF dk.run_ok [OF A assms(3)]], elim exE conjE)
        fix as h' A' N' M'
        assume r: "default_ok h' ht C A' N' M'" "map_run (byte_key (hmem h1)) ops as Map.empty = Some M'"
        have "map_run (byte_key (hmem h)) ops as Map.empty = Some M'" using r(2) dk.run_keys_same [OF sC assms(3)] by simp
        moreover have "\<exists>k \<in> {3..9}. tsize (tables h' ht) = 2 ^ k" using table_okD(4) [OF r(1)] by (auto simp: size_ok_def)
        ultimately show "?R (ht, as) h'" using dk.count_ok [OF r(1)] False by auto
      qed
      then show ?thesis using False by simp
    qed (use c in simp)
  qed
  then show ?thesis unfolding hres_ok_cases case_prod_beta .
qed

text \<open>
  (C8) No leak: \<^verbatim>\<open>hash_table_destroy\<close> of a table in any state, with any key functions, returns; the
  live objects are then exactly those of the clients, with their contents untouched.
\<close>

theorem hash_table_destroy_no_leak:
  assumes "table_ok hf ke kv h ht C A N M"
  shows "\<exists>st. hash_table_destroy ht h = Some (Inr (h\<lparr>hslab := st\<rparr>)) \<and> slab_objects st C \<and> same_objects C (hmem h) (ram (pages st))"
  by (rule destroy_ok [OF assms])

text \<open>
  (C39) \<^verbatim>\<open>hash_table_foreach\<close> with a callback that records its arguments visits every entry of the map
  exactly once.
\<close>

theorem hash_table_foreach_visits:
  assumes "table_ok default_hash_func default_key_equal byte_key h ht C A N M"
  shows "\<exists>es. hash_table_foreach (Some (\<lambda>key len v es. (key, len, v) # es)) ht h [] = Some es \<and>
    distinct (map (\<lambda>(key, len, v). byte_key (hmem h) key len) es) \<and>
    map_of (map (\<lambda>(key, len, v). (byte_key (hmem h) key len, v)) es) = M"
proof -
  let ?e = "\<lambda>x. (nkey (nodes h x), nkey_len (nodes h x), nvalue (nodes h x))" and ?k = "\<lambda>x. nkv byte_key (hmem h) (nodes h x)"
  note E = table_okD(8) [OF assms]
  obtain ns where ns: "distinct ns" "set ns = N"
    "\<forall>cb s. hash_table_foreach (Some cb) ht h s = Some (fold (\<lambda>x. visit cb (nodes h x)) ns (s :: (u64 \<times> u32 \<times> u64) list))"
    by (rule foreach_ok [OF assms])
  have "fold (\<lambda>x. visit (\<lambda>key len v es. (key, len, v) # es) (nodes h x)) xs s = rev (map ?e xs) @ s" for xs s
    by (induction xs arbitrary: s) (simp_all add: visit_def)
  then have f: "hash_table_foreach (Some (\<lambda>key len v es. (key, len, v) # es)) ht h [] = Some (map ?e (rev ns))"
    using ns(3) by (simp add: rev_map)
  have kk: "map (\<lambda>(key, len, v). byte_key (hmem h) key len) (map ?e (rev ns)) = map ?k (rev ns)" by (simp add: nkv_def)
  have d: "distinct (map ?k (rev ns))" using ns(1,2) E unfolding entries_def by (simp add: distinct_map)
  have l: "map (\<lambda>(key, len, v). (byte_key (hmem h) key len, v)) (map ?e (rev ns)) = map (\<lambda>x. (?k x, nvalue (nodes h x))) (rev ns)" by (simp add: nkv_def)
  have "map_of (map (\<lambda>x. (?k x, nvalue (nodes h x))) (rev ns)) = M"
  proof
    fix k
    show "map_of (map (\<lambda>x. (?k x, nvalue (nodes h x))) (rev ns)) k = M k"
    proof (cases "k \<in> dom M")
      case True
      then obtain x where x: "x \<in> N" "k = ?k x" using entries_dom [OF E] by auto
      have "(k, nvalue (nodes h x)) \<in> set (map (\<lambda>x. (?k x, nvalue (nodes h x))) (rev ns))" using x ns(2) by auto
      moreover have "distinct (map fst (map (\<lambda>x. (?k x, nvalue (nodes h x))) (rev ns)))" using d by (simp add: comp_def)
      ultimately show ?thesis using entriesD(3) [OF E x(1)] x(2) by (simp only: map_of_eq_Some_iff)
    next
      case False
      then have "k \<notin> ?k ` set (rev ns)" using entries_dom [OF E] ns(2) by simp
      then have "map_of (map (\<lambda>x. (?k x, nvalue (nodes h x))) (rev ns)) k = None" by (auto simp: map_of_eq_None_iff)
      then show ?thesis using False by (simp add: domIff)
    qed
  qed
  then show ?thesis using f d unfolding kk [symmetric] l [symmetric] by blast
qed

section \<open>A concrete table\<close>

text \<open>An empty table of eight buckets in two objects of 64 bytes; all other objects are the clients'.\<close>

definition demo_ht :: u64 where "demo_ht = page_addr 5"
definition demo_buckets :: u64 where "demo_buckets = page_addr 5 + 64"

definition demo_heap :: hash_heap where
  "demo_heap = \<lparr>hslab = demo_state,
     tables = (\<lambda>_. \<lparr>buckets = demo_buckets, tsize = 8, tcount = 0, hash_func = default_hash_func, key_equal = default_key_equal\<rparr>),
     nodes = (\<lambda>_. \<lparr>nkey = 0, nvalue = 0, nkey_len = 0, nhash = 0, nnext = 0\<rparr>), cells = (\<lambda>_. 0)\<rparr>"

definition demo_clients :: "(u64 \<times> nat) set" where
  "demo_clients = without demo_objects {demo_ht, demo_buckets}"

lemma demo_addresses: "demo_ht \<noteq> 0" "demo_ht \<noteq> demo_buckets" "page_addr 2 \<noteq> 0" "page_addr 2 \<noteq> demo_ht" "page_addr 2 \<noteq> demo_buckets"
  by (simp_all add: demo_ht_def demo_buckets_def page_addr_def MEMORY_START_def)

lemma demo_table_ok: "table_ok default_hash_func default_key_equal byte_key demo_heap demo_ht demo_clients demo_objects {} Map.empty"
proof (rule table_okI)
  have live: "(demo_ht, 64) \<in> demo_objects" "(demo_buckets, 64) \<in> demo_objects"
    using demo_live [of 3 0] demo_live [of 3 1] by (simp_all add: demo_ht_def demo_buckets_def)
  show "owned demo_clients demo_objects demo_ht (buckets (tables demo_heap demo_ht)) (unat (tsize (tables demo_heap demo_ht))) {}"
    unfolding owned_def
  proof (intro conjI)
    show "\<exists>k \<ge> 48. (demo_ht, k) \<in> demo_objects" using live(1) by (intro exI [of _ 64]) simp
    show "\<exists>k \<ge> 8 * unat (tsize (tables demo_heap demo_ht)). (buckets (tables demo_heap demo_ht), k) \<in> demo_objects"
      using live(2) by (intro exI [of _ 64]) (simp add: demo_heap_def)
  qed (auto simp: demo_clients_def without_def demo_heap_def demo_addresses)
  show "size_ok (tsize (tables demo_heap demo_ht))" by (auto simp: size_ok_def demo_heap_def intro!: exI [of _ 3])
  show "shape (nodes demo_heap) (cells demo_heap) (buckets (tables demo_heap demo_ht)) (unat (tsize (tables demo_heap demo_ht))) {}"
    unfolding shape_def bucket_ok_def by (intro allI impI exI [of _ "[]"]) (simp add: demo_heap_def members_def)
qed (simp_all add: demo_heap_def demo_addresses demo_slab_objects entries_def)

definition demo_ops :: "hash_op list" where
  "demo_ops = [HInsert (page_addr 2) 8 7 True, HInsertAbsent (page_addr 2) 8 9, HLookup (page_addr 2) 8, HDelete (page_addr 2) 8, HLookup 0 8]"

lemma demo_key:
  assumes "(page_addr 2, 8) \<in> C"
  shows "\<forall>op \<in> set demo_ops. op_valid C op"
proof -
  have "key_in C (page_addr 2) 8"
    unfolding key_in_def using assms by (intro exI [of _ "page_addr 2"] exI [of _ 8]) (simp add: in_block_of_nat)
  then show ?thesis by (simp add: demo_ops_def)
qed

lemma demo_client: "(page_addr 2, 8) \<in> demo_clients" "(page_addr 2, 8) \<in> demo_objects"
  using demo_live [of 0 0] demo_addresses by (simp_all add: demo_clients_def without_def)

theorem hash_table_refines_map_witness:
  "case hash_run demo_ht demo_ops demo_heap of
      None \<Rightarrow> False
    | Some (Inl e) \<Rightarrow> e = Panic ''memory out of space!''
    | Some (Inr (as, h')) \<Rightarrow> same_objects demo_clients (hmem demo_heap) (hmem h') \<and>
        (\<exists>A' N' M'. table_ok default_hash_func default_key_equal byte_key h' demo_ht demo_clients A' N' M' \<and>
          map_run (byte_key (hmem demo_heap)) demo_ops as Map.empty = Some M')"
  by (rule hash_table_refines_map [OF demo_table_ok demo_key [OF demo_client(1)]])

theorem hash_table_size_type_witness:
  "case hash_session 16 demo_ops demo_heap of
      None \<Rightarrow> False
    | Some (Inl e) \<Rightarrow> e = Panic ''memory out of space!''
    | Some (Inr ((ht, as), h')) \<Rightarrow>
        if ht = 0 then slab_objects (hslab h') demo_objects
        else (\<exists>k \<in> {3..9}. tsize (tables h' ht) = 2 ^ k) \<and>
          (\<exists>M. map_run (byte_key (hmem demo_heap)) demo_ops as Map.empty = Some M \<and> hash_table_count ht h' = of_nat (card (dom M)))"
  by (rule hash_table_size_type) (use demo_slab_objects demo_key [OF demo_client(2)] in \<open>simp_all add: demo_heap_def\<close>)

text \<open>The same table with one entry, whose node is a third object of 64 bytes.\<close>

definition demo_node :: u64 where "demo_node = page_addr 5 + 128"

definition demo_entry :: hash_node where
  "demo_entry = \<lparr>nkey = page_addr 2, nvalue = 7, nkey_len = 8, nhash = default_hash_func (hmem demo_heap) (page_addr 2) 8, nnext = 0\<rparr>"

definition filled_heap :: hash_heap where
  "filled_heap = demo_heap\<lparr>tables := (\<lambda>_. (tables demo_heap demo_ht)\<lparr>tcount := 1\<rparr>), nodes := (nodes demo_heap)(demo_node := demo_entry),
     cells := (cells demo_heap)(demo_buckets + 8 * of_nat (unat (nhash demo_entry) mod 8) := demo_node)\<rparr>"

definition filled_clients :: "(u64 \<times> nat) set" where
  "filled_clients = without demo_objects {demo_ht, demo_buckets, demo_node}"

abbreviation filled_map :: "u8 list \<rightharpoonup> u64" where
  "filled_map \<equiv> [byte_key (hmem filled_heap) (page_addr 2) 8 \<mapsto> 7]"

lemma filled_addresses: "demo_node \<noteq> 0" "demo_node \<noteq> demo_ht" "demo_node \<noteq> demo_buckets" "page_addr 2 \<noteq> demo_node"
  by (simp_all add: demo_ht_def demo_buckets_def demo_node_def page_addr_def MEMORY_START_def)

lemma filled_fields: "tables filled_heap demo_ht = (tables demo_heap demo_ht)\<lparr>tcount := 1\<rparr>" "nodes filled_heap demo_node = demo_entry"
  "hslab filled_heap = demo_state" "buckets (tables demo_heap demo_ht) = demo_buckets" "unat (tsize (tables demo_heap demo_ht)) = 8"
  by (simp_all add: filled_heap_def demo_heap_def)

lemma filled_table_ok:
  "table_ok default_hash_func default_key_equal byte_key filled_heap demo_ht filled_clients demo_objects {demo_node} filled_map"
proof (rule table_okI)
  note d = table_okD [OF demo_table_ok]
  have live: "(demo_ht, 64) \<in> demo_objects" "(demo_buckets, 64) \<in> demo_objects" "(demo_node, 64) \<in> demo_objects"
    using demo_live [of 3 0] demo_live [of 3 1] demo_live [of 3 2] by (simp_all add: demo_ht_def demo_buckets_def demo_node_def)
  show "owned filled_clients demo_objects demo_ht (buckets (tables filled_heap demo_ht)) (unat (tsize (tables filled_heap demo_ht))) {demo_node}"
    unfolding owned_def
  proof (intro conjI)
    show "\<exists>k \<ge> 48. (demo_ht, k) \<in> demo_objects" using live(1) by (intro exI [of _ 64]) simp
    show "\<exists>k \<ge> 8 * unat (tsize (tables filled_heap demo_ht)). (buckets (tables filled_heap demo_ht), k) \<in> demo_objects"
      using live(2) by (intro exI [of _ 64]) (simp add: filled_fields)
    show "\<forall>x \<in> {demo_node}. \<exists>k \<ge> 32. (x, k) \<in> demo_objects" using live(3) by (auto intro!: exI [of _ 64])
  qed (use demo_addresses(2) filled_addresses in \<open>auto simp: filled_clients_def without_def filled_fields\<close>)
  have "shape ((nodes demo_heap)(demo_node := demo_entry))
      ((cells demo_heap)(demo_buckets + 8 * of_nat (unat (nhash demo_entry) mod 8) := demo_node)) demo_buckets 8 (insert demo_node {})"
    by (rule shape_link) (use d(7) filled_addresses in \<open>simp_all add: filled_fields demo_heap_def demo_entry_def\<close>)
  then show "shape (nodes filled_heap) (cells filled_heap) (buckets (tables filled_heap demo_ht)) (unat (tsize (tables filled_heap demo_ht))) {demo_node}"
    by (simp add: filled_fields) (simp add: filled_heap_def)
  show "key_in filled_clients (nkey (nodes filled_heap x)) (nkey_len (nodes filled_heap x))" if "x \<in> {demo_node}" for x
  proof -
    have "(page_addr 2, 8) \<in> filled_clients"
      using demo_client(2) demo_addresses filled_addresses by (simp add: filled_clients_def without_def)
    then show ?thesis using that unfolding key_in_def
      by (intro exI [of _ "page_addr 2"] exI [of _ 8]) (simp add: filled_fields demo_entry_def in_block_of_nat)
  qed
  show "entries default_hash_func byte_key (hmem filled_heap) (nodes filled_heap) {demo_node} filled_map"
    using demo_addresses(3) by (simp add: entries_def filled_fields demo_entry_def nkv_def) (simp add: demo_heap_def)
qed (use table_okD(1-6) [OF demo_table_ok] in \<open>simp_all add: filled_fields demo_slab_objects\<close>)

theorem hash_table_destroy_no_leak_witness:
  "\<exists>st. hash_table_destroy demo_ht filled_heap = Some (Inr (filled_heap\<lparr>hslab := st\<rparr>)) \<and> slab_objects st filled_clients \<and>
    same_objects filled_clients (hmem filled_heap) (ram (pages st))"
  by (rule hash_table_destroy_no_leak [OF filled_table_ok])

theorem hash_table_foreach_visits_witness:
  "\<exists>es. hash_table_foreach (Some (\<lambda>key len v es. (key, len, v) # es)) demo_ht filled_heap [] = Some es \<and>
    distinct (map (\<lambda>(key, len, v). byte_key (hmem filled_heap) key len) es) \<and>
    map_of (map (\<lambda>(key, len, v). (byte_key (hmem filled_heap) key len, v)) es) = [byte_key (hmem filled_heap) (page_addr 2) 8 \<mapsto> 7]"
  by (rule hash_table_foreach_visits [OF filled_table_ok])

end
