(* ===== verification/Printk.thy ===== *)
theory Printk
  imports Cstring
begin

text \<open>
  The kernel formatter of kernel/printk.c. Format strings and produced text are HOL strings (the
  characters before the terminator), the pointer into the output buffer is the text produced so
  far, and the variable arguments are the list of their 64-bit slots. C's \<^verbatim>\<open>int\<close> locals, whose
  overflow is undefined, are integers.
\<close>

section \<open>Flags and digits\<close>

definition ZEROPAD :: u32 where "ZEROPAD = 1"
definition SIGN :: u32 where "SIGN = 2"
definition PLUS :: u32 where "PLUS = 4"
definition SPACE :: u32 where "SPACE = 8"
definition LEFT :: u32 where "LEFT = 16"
definition SPECIAL :: u32 where "SPECIAL = 32"
definition SMALL :: u32 where "SMALL = 64"

abbreviation flag :: "u32 \<Rightarrow> u32 \<Rightarrow> bool" where "flag t f \<equiv> t AND f \<noteq> 0"

definition ord_of :: "char \<Rightarrow> int" where "ord_of c = of_char c"

definition is_digit :: "char \<Rightarrow> bool" where
  "is_digit c \<longleftrightarrow> ord_of (CHR ''0'') \<le> ord_of c \<and> ord_of c \<le> ord_of (CHR ''9'')"

definition digits_upper :: string where "digits_upper = ''0123456789ABCDEFGHIJKLMNOPQRSTUVWXYZ''"
definition digits_lower :: string where "digits_lower = ''0123456789abcdefghijklmnopqrstuvwxyz''"

definition do_div :: "u64 \<Rightarrow> u64 \<Rightarrow> u64 \<times> u64" where
  "do_div n base = (let quotient = n div base in (n - quotient * base, quotient))"

text \<open>The characters stored into \<^verbatim>\<open>tmp\<close>, least significant first.\<close>

partial_function (option) tmp_digits :: "string \<Rightarrow> u64 \<Rightarrow> u64 \<Rightarrow> string option" where
  "tmp_digits digits base n =
     (if n \<noteq> 0 then let (d, q) = do_div n base in
        Option.bind (tmp_digits digits base q) (\<lambda>cs. Some (digits ! unat d # cs))
      else Some [])"

text \<open>\<^verbatim>\<open>while (n-- > 0) *str++ = c;\<close> gives the characters and the final counter.\<close>

function pad_loop :: "char \<Rightarrow> int \<Rightarrow> string \<times> int" where
  "pad_loop c n = (if 0 < n then let (cs, k) = pad_loop c (n - 1) in (c # cs, k) else ([], n - 1))"
  by auto
termination by (relation "measure (\<lambda>(c, n). nat n)") auto

declare pad_loop.simps [simp del]

definition TMP_SIZE :: nat where "TMP_SIZE = 50"

text \<open>
  \<^verbatim>\<open>number\<close>: the characters appended for \<open>num\<close>, or \<open>None\<close> (a null pointer) for a base out of
  range. The digits go through \<^verbatim>\<open>tmp[50]\<close>: more of them overrun the stack, which is a fault.
\<close>

definition number :: "u64 \<Rightarrow> u64 \<Rightarrow> int \<Rightarrow> int \<Rightarrow> u32 \<Rightarrow> string option kres option" where
  "number num base size0 precision0 type0 =
     (let digits = (if flag type0 SMALL then digits_lower else digits_upper);
          type = (if flag type0 LEFT then type0 AND NOT ZEROPAD else type0) in
      if base < 2 \<or> 36 < base then Some (Inr None)
      else
        let c = (if flag type ZEROPAD then CHR ''0'' else CHR '' '');
            neg = (flag type SIGN \<and> sint num < 0);
            num1 = (if neg then - num else num);
            sgn = (if neg then ''-'' else if flag type PLUS then ''+'' else if flag type SPACE then '' '' else []);
            size1 = (if sgn \<noteq> [] then size0 - 1 else size0);
            size2 = (if flag type SPECIAL then if base = 16 then size1 - 2 else if base = 8 then size1 - 1 else size1 else size1) in
        Option.bind (if num1 = 0 then Some ''0'' else tmp_digits digits base num1) (\<lambda>tmp.
          if TMP_SIZE < length tmp then Some (Inl Fault)
          else
          let i = int (length tmp);
              precision = (if precision0 < i then i else precision0);
              size3 = size2 - precision;
              (sp, size4) = (if \<not> flag type (ZEROPAD + LEFT) then pad_loop (CHR '' '') size3 else ([], size3));
              pre = (if flag type SPECIAL then if base = 8 then ''0'' else if base = 16 then [CHR ''0'', digits ! 33] else [] else []);
              (fill, size5) = (if \<not> flag type LEFT then pad_loop c size4 else ([], size4));
              zeros = fst (pad_loop (CHR ''0'') (precision - i));
              tl = fst (pad_loop (CHR '' '') size5) in
          Some (Inr (Some (sp @ sgn @ pre @ fill @ zeros @ rev tmp @ tl)))))"

fun skip_atoi_loop :: "int \<Rightarrow> string \<Rightarrow> int \<times> string" where
  "skip_atoi_loop i [] = (i, [])"
| "skip_atoi_loop i (c # cs) =
     (if is_digit c then skip_atoi_loop (i * 10 + ord_of c - ord_of (CHR ''0'')) cs else (i, c # cs))"

definition skip_atoi :: "string \<Rightarrow> int \<times> string" where "skip_atoi s = skip_atoi_loop 0 s"

section \<open>The formatter\<close>

fun read_flags :: "string \<Rightarrow> u32 \<Rightarrow> string \<times> u32" where
  "read_flags [] fl = ([], fl)"
| "read_flags (c # cs) fl =
     (if c = CHR ''-'' then read_flags cs (fl OR LEFT)
      else if c = CHR ''+'' then read_flags cs (fl OR PLUS)
      else if c = CHR '' '' then read_flags cs (fl OR SPACE)
      else if c = CHR ''#'' then read_flags cs (fl OR SPECIAL)
      else if c = CHR ''0'' then read_flags cs (fl OR ZEROPAD)
      else (c # cs, fl))"

text \<open>\<^verbatim>\<open>va_arg\<close>: the next slot; \<^verbatim>\<open>int\<close> and \<^verbatim>\<open>unsigned int\<close> are its low half.\<close>

definition va_arg :: "u64 list \<Rightarrow> (u64 \<times> u64 list) kres" where
  "va_arg args = (case args of [] \<Rightarrow> Inl Fault | a # as \<Rightarrow> Inr (a, as))"

definition arg_int :: "u64 \<Rightarrow> int" where "arg_int a = sint (ucast a :: i32)"
definition arg_uint :: "u64 \<Rightarrow> u64" where "arg_uint a = ucast (ucast a :: u32)"

definition starts :: "char \<Rightarrow> string \<Rightarrow> bool" where "starts c s \<longleftrightarrow> s \<noteq> [] \<and> hd s = c"

definition read_width :: "string \<Rightarrow> u32 \<Rightarrow> u64 list \<Rightarrow> (int \<times> u32 \<times> string \<times> u64 list) kres" where
  "read_width fmt fl args =
     (if fmt \<noteq> [] \<and> is_digit (hd fmt) then case skip_atoi fmt of (w, fmt') \<Rightarrow> Inr (w, fl, fmt', args)
      else if starts (CHR ''*'') fmt then
        case va_arg args of
          Inl e \<Rightarrow> Inl e
        | Inr (a, as) \<Rightarrow> (let w = arg_int a in
            if w < 0 then Inr (- w, fl OR LEFT, tl fmt, as) else Inr (w, fl, tl fmt, as))
      else Inr (- 1, fl, fmt, args))"

definition read_precision :: "string \<Rightarrow> u64 list \<Rightarrow> (int \<times> string \<times> u64 list) kres" where
  "read_precision fmt args =
     (if starts (CHR ''.'') fmt then
        let fmt1 = tl fmt in
        case (if fmt1 \<noteq> [] \<and> is_digit (hd fmt1) then case skip_atoi fmt1 of (p, fmt') \<Rightarrow> Inr (p, fmt', args)
              else if starts (CHR ''*'') fmt1 then
                case va_arg args of Inl e \<Rightarrow> Inl e | Inr (a, as) \<Rightarrow> Inr (arg_int a, tl fmt1, as)
              else Inr (- 1, fmt1, args)) of
          Inl e \<Rightarrow> Inl e
        | Inr (p, rest) \<Rightarrow> Inr (if p < 0 then 0 else p, rest)
      else Inr (- 1, fmt, args))"

definition read_qualifier :: "string \<Rightarrow> char option \<times> string" where
  "read_qualifier fmt = (if starts (CHR ''h'') fmt \<or> starts (CHR ''l'') fmt \<or> starts (CHR ''L'') fmt \<or> starts (CHR ''Z'') fmt
     then (Some (hd fmt), tl fmt) else (None, fmt))"

text \<open>\<^verbatim>\<open>while (--n > 0)\<close> and \<^verbatim>\<open>while (len < n--)\<close> with a blank as the body.\<close>

function blanks_pre :: "int \<Rightarrow> string \<times> int" where
  "blanks_pre n = (if 0 < n - 1 then let (cs, k) = blanks_pre (n - 1) in (CHR '' '' # cs, k) else ([], n - 1))"
  by auto
termination by (relation "measure nat") auto

function blanks_to :: "int \<Rightarrow> int \<Rightarrow> string \<times> int" where
  "blanks_to len n = (if len < n then let (cs, k) = blanks_to len (n - 1) in (CHR '' '' # cs, k) else ([], n - 1))"
  by auto
termination by (relation "measure (\<lambda>(len, n). nat (n - len))") auto

declare blanks_pre.simps [simp del] blanks_to.simps [simp del]

definition store32 :: "memory \<Rightarrow> u64 \<Rightarrow> u32 \<Rightarrow> memory" where
  "store32 m a v = (\<lambda>x. if unat (x - a) < 4 then ucast (drop_bit (8 * unat (x - a)) v) else m x)"

definition chr8 :: "u8 \<Rightarrow> char" where "chr8 b = char_of (unat b)"

definition mem_chars :: "memory \<Rightarrow> u64 \<Rightarrow> int \<Rightarrow> string" where
  "mem_chars m a n = map chr8 (bytes m a (nat n))"

definition conv_c :: "memory \<Rightarrow> string \<Rightarrow> u32 \<Rightarrow> int \<Rightarrow> u64 list \<Rightarrow> (string \<times> memory \<times> u64 list) kres option" where
  "conv_c m out fl fw args =
     (let (pre, fw1) = (if \<not> flag fl LEFT then blanks_pre fw else ([], fw)) in
      case va_arg args of
        Inl e \<Rightarrow> Some (Inl e)
      | Inr (a, as) \<Rightarrow> Some (Inr (out @ pre @ [chr8 (ucast a)] @ fst (blanks_pre fw1), m, as)))"

definition conv_s :: "memory \<Rightarrow> string \<Rightarrow> u32 \<Rightarrow> int \<Rightarrow> int \<Rightarrow> u64 list \<Rightarrow> (string \<times> memory \<times> u64 list) kres option" where
  "conv_s m out fl fw precision args =
     (case va_arg args of
        Inl e \<Rightarrow> Some (Inl e)
      | Inr (s, as) \<Rightarrow>
          if s = 0 then Some (Inl Fault)
          else Option.bind (strlen m s) (\<lambda>n.
            let len0 = arg_int n;
                len = (if precision < 0 then len0 else if precision < len0 then precision else len0);
                (pre, fw1) = (if \<not> flag fl LEFT then blanks_to len fw else ([], fw)) in
            Some (Inr (out @ pre @ mem_chars m s len @ fst (blanks_to len fw1), m, as))))"

definition conv_number :: "memory \<Rightarrow> string \<Rightarrow> u32 \<Rightarrow> int \<Rightarrow> int \<Rightarrow> bool \<Rightarrow> u64 \<Rightarrow> u64 list \<Rightarrow> (string \<times> memory \<times> u64 list) kres option" where
  "conv_number m out fl fw precision long base args =
     (case va_arg args of
        Inl e \<Rightarrow> Some (Inl e)
      | Inr (a, as) \<Rightarrow>
          Option.bind (number (if long then a else arg_uint a) base fw precision fl) (\<lambda>r.
            case r of Inl e \<Rightarrow> Some (Inl e) | Inr None \<Rightarrow> Some (Inl Fault) | Inr (Some cs) \<Rightarrow> Some (Inr (out @ cs, m, as))))"

definition conv_n :: "memory \<Rightarrow> string \<Rightarrow> bool \<Rightarrow> u64 list \<Rightarrow> (string \<times> memory \<times> u64 list) kres option" where
  "conv_n m out long args =
     (case va_arg args of
        Inl e \<Rightarrow> Some (Inl e)
      | Inr (ip, as) \<Rightarrow>
          let n = of_nat (length out) in
          Some (Inr (out, if long then store64 m ip n else store32 m ip (ucast (n :: u64)), as)))"

text \<open>The second \<^verbatim>\<open>switch\<close>, on the conversion character.\<close>

definition convert :: "memory \<Rightarrow> string \<Rightarrow> u32 \<Rightarrow> int \<Rightarrow> int \<Rightarrow> char option \<Rightarrow> string \<Rightarrow> u64 list \<Rightarrow> (string \<times> memory \<times> u64 list) kres option" where
  "convert m out fl fw precision qualifier fmt args =
     (let long = (qualifier = Some (CHR ''l'')) in
      if starts (CHR ''c'') fmt then conv_c m out fl fw args
      else if starts (CHR ''s'') fmt then conv_s m out fl fw precision args
      else if starts (CHR ''o'') fmt then conv_number m out fl fw precision long 8 args
      else if starts (CHR ''p'') fmt then
        (if fw = - 1 then conv_number m out (fl OR ZEROPAD) 16 precision True 16 args
         else conv_number m out fl fw precision True 16 args)
      else if starts (CHR ''x'') fmt then conv_number m out (fl OR SMALL) fw precision long 16 args
      else if starts (CHR ''X'') fmt then conv_number m out fl fw precision long 16 args
      else if starts (CHR ''d'') fmt \<or> starts (CHR ''i'') fmt then conv_number m out (fl OR SIGN) fw precision long 10 args
      else if starts (CHR ''u'') fmt then conv_number m out fl fw precision long 10 args
      else if starts (CHR ''n'') fmt then conv_n m out long args
      else if starts (CHR ''%'') fmt then Some (Inr (out @ ''%'', m, args))
      else Some (Inr (out @ ''%'' @ (if fmt \<noteq> [] then [hd fmt] else []), m, args)))"

text \<open>One directive, from the character after \<^verbatim>\<open>%\<close>; at the end of the format the scan stays on the terminator.\<close>

definition directive :: "memory \<Rightarrow> string \<Rightarrow> string \<Rightarrow> u64 list \<Rightarrow> (string \<times> memory \<times> string \<times> u64 list) kres option" where
  "directive m out fmt args =
     (case read_flags fmt 0 of (fmt1, fl1) \<Rightarrow>
      case read_width fmt1 fl1 args of
        Inl e \<Rightarrow> Some (Inl e)
      | Inr (fw, fl, fmt2, args2) \<Rightarrow>
      case read_precision fmt2 args2 of
        Inl e \<Rightarrow> Some (Inl e)
      | Inr (precision, fmt3, args3) \<Rightarrow>
      case read_qualifier fmt3 of (qualifier, fmt4) \<Rightarrow>
      case convert m out fl fw precision qualifier fmt4 args3 of
        None \<Rightarrow> None
      | Some (Inl e) \<Rightarrow> Some (Inl e)
      | Some (Inr (out', m', args')) \<Rightarrow> Some (Inr (out', m', tl fmt4, args')))"

lemma read_flags_length: "length (fst (read_flags fmt fl)) \<le> length fmt"
  by (induction fmt arbitrary: fl) (auto simp: le_SucI)

lemma skip_atoi_length: "length (snd (skip_atoi_loop i s)) \<le> length s"
  by (induction s arbitrary: i) (auto simp: le_SucI)

lemma skip_atoi_le: "skip_atoi s = (i, s') \<Longrightarrow> length s' \<le> length s"
  using skip_atoi_length [of 0 s] by (simp add: skip_atoi_def)

lemma read_width_length: "read_width fmt fl args = Inr (w, fl', fmt', args') \<Longrightarrow> length fmt' \<le> length fmt"
  by (auto simp: read_width_def Let_def split: if_splits prod.splits sum.splits dest: skip_atoi_le)

lemma read_precision_length: "read_precision fmt args = Inr (p, fmt', args') \<Longrightarrow> length fmt' \<le> length fmt"
  by (auto simp: read_precision_def Let_def split: if_splits prod.splits sum.splits dest!: skip_atoi_le)

lemma read_qualifier_length: "read_qualifier fmt = (q, fmt') \<Longrightarrow> length fmt' \<le> length fmt"
  by (auto simp: read_qualifier_def split: if_splits)

lemma directive_length:
  assumes "directive m out fmt args = Some (Inr (out', m', fmt', args'))"
  shows "length fmt' \<le> length fmt"
proof -
  obtain fmt1 fl1 where f1: "read_flags fmt 0 = (fmt1, fl1)" by (cases "read_flags fmt 0")
  obtain fw fl fmt2 args2 where f2: "read_width fmt1 fl1 args = Inr (fw, fl, fmt2, args2)"
    using assms f1 by (auto simp: directive_def split: sum.splits)
  obtain p fmt3 args3 where f3: "read_precision fmt2 args2 = Inr (p, fmt3, args3)"
    using assms f1 f2 by (auto simp: directive_def split: sum.splits)
  obtain q fmt4 where f4: "read_qualifier fmt3 = (q, fmt4)" by (cases "read_qualifier fmt3")
  have "fmt' = tl fmt4" using assms f1 f2 f3 f4 by (auto simp: directive_def split: option.splits sum.splits)
  then show ?thesis
    using read_flags_length [of fmt 0] f1 read_width_length [OF f2] read_precision_length [OF f3] read_qualifier_length [OF f4] by simp
qed

function vsprintf_loop :: "memory \<Rightarrow> string \<Rightarrow> string \<Rightarrow> u64 list \<Rightarrow> (string \<times> memory) kres option" where
  "vsprintf_loop m out [] args = Some (Inr (out, m))"
| "vsprintf_loop m out (c # cs) args =
     (if c \<noteq> CHR ''%'' then vsprintf_loop m (out @ [c]) cs args
      else case directive m out cs args of
        None \<Rightarrow> None
      | Some (Inl e) \<Rightarrow> Some (Inl e)
      | Some (Inr (out', m', cs', args')) \<Rightarrow> vsprintf_loop m' out' cs' args')"
  by pat_completeness auto
termination
  by (relation "measure (\<lambda>(m, out, fmt, args). length fmt)") (auto dest: directive_length simp: less_Suc_eq_le)

definition vsprintf :: "memory \<Rightarrow> string \<Rightarrow> u64 list \<Rightarrow> (string \<times> memory) kres option" where
  "vsprintf m fmt args = vsprintf_loop m [] fmt args"

section \<open>Output\<close>

text \<open>
  The two channels of a kernel message: the characters given to the firmware console and those
  given to the screen terminal.
\<close>

record con_state =
  serial :: string
  screen :: string
  console_ready :: bool
  msg_fg :: int

definition gpu_tty_console_write :: "string \<Rightarrow> con_state \<Rightarrow> int \<times> con_state" where
  "gpu_tty_console_write s k = (if \<not> console_ready k then (- 1, k) else (0, k\<lparr>screen := screen k @ s\<rparr>))"

definition printk_screen_ready :: "con_state \<Rightarrow> bool \<times> con_state" where
  "printk_screen_ready k = (case gpu_tty_console_write [] k of (r, k1) \<Rightarrow> (r = 0, k1))"

fun sgr_loop :: "nat \<Rightarrow> string" where
  "sgr_loop v = (if v \<noteq> 0 then char_of (48 + v mod 10) # sgr_loop (v div 10) else [])"

declare sgr_loop.simps [simp del]

definition sgr_open :: "int \<Rightarrow> string option" where
  "sgr_open fg = (let tmp = (if fg = 0 then ''0'' else sgr_loop (nat fg)) in
     if 4 < length tmp then None else Some ([char_of (27 :: nat)] @ ''['' @ rev tmp @ ''m''))"

definition sgr_reset :: string where "sgr_reset = [char_of (27 :: nat)] @ ''[0m''"

definition printk_emit :: "string \<Rightarrow> con_state \<Rightarrow> con_state kres" where
  "printk_emit s k0 =
     (let k1 = k0\<lparr>serial := serial k0 @ s\<rparr> in
      case printk_screen_ready k1 of (ready, k2) \<Rightarrow>
        if \<not> ready then Inr k2
        else if 0 \<le> msg_fg k2 then
          case sgr_open (msg_fg k2) of
            None \<Rightarrow> Inl Fault
          | Some seq \<Rightarrow> Inr (snd (gpu_tty_console_write sgr_reset
              (snd (gpu_tty_console_write s (snd (gpu_tty_console_write seq k2))))))
        else Inr (snd (gpu_tty_console_write s k2)))"

definition PRINT_BUFFER_SIZE :: nat where "PRINT_BUFFER_SIZE = 1024"

text \<open>The text of the buffer, which ends at its first terminator; a longer text overruns the stack.\<close>

definition buffer_text :: "string \<Rightarrow> string kres" where
  "buffer_text out = (if PRINT_BUFFER_SIZE < length out + 1 then Inl Fault else Inr (takeWhile (\<lambda>c. c \<noteq> CHR 0x00) out))"

definition printk :: "string \<Rightarrow> u64 list \<Rightarrow> memory \<Rightarrow> con_state \<Rightarrow> (memory \<times> con_state) kres option" where
  "printk fmt args m k =
     Option.bind (vsprintf m fmt args) (\<lambda>r.
       case r of
         Inl e \<Rightarrow> Some (Inl e)
       | Inr (out, m1) \<Rightarrow>
       case buffer_text out of
         Inl e \<Rightarrow> Some (Inl e)
       | Inr s \<Rightarrow>
       case printk_emit s k of
         Inl e \<Rightarrow> Some (Inl e)
       | Inr k1 \<Rightarrow> Some (Inr (m1, k1)))"

definition printk_color :: "int \<Rightarrow> string \<Rightarrow> u64 list \<Rightarrow> memory \<Rightarrow> con_state \<Rightarrow> (memory \<times> con_state) kres option" where
  "printk_color fg_sgr fmt args m k =
     Option.bind (vsprintf m fmt args) (\<lambda>r.
       case r of
         Inl e \<Rightarrow> Some (Inl e)
       | Inr (out, m1) \<Rightarrow>
       case buffer_text out of
         Inl e \<Rightarrow> Some (Inl e)
       | Inr s \<Rightarrow>
       case printk_emit s (k\<lparr>msg_fg := fg_sgr\<rparr>) of
         Inl e \<Rightarrow> Some (Inl e)
       | Inr k1 \<Rightarrow> Some (Inr (m1, k1\<lparr>msg_fg := msg_fg k\<rparr>)))"

text \<open>\<^verbatim>\<open>format_number\<close>: the digits of a value in a base, written from the end of the buffer.\<close>

partial_function (option) format_loop :: "u64 \<Rightarrow> u64 \<Rightarrow> bool \<Rightarrow> string \<Rightarrow> string option" where
  "format_loop value base uppercase p =
     (if value \<noteq> 0 then
        let c = ''0123456789abcdef'' ! unat (value mod base);
            c' = (if uppercase \<and> ord_of (CHR ''a'') \<le> ord_of c \<and> ord_of c \<le> ord_of (CHR ''f'') then char_of (nat (ord_of c - 32)) else c) in
        format_loop (value div base) base uppercase (c' # p)
      else Some p)"

definition format_number :: "u64 \<Rightarrow> u64 \<Rightarrow> bool \<Rightarrow> string option" where
  "format_number value base uppercase = (if value = 0 then Some ''0'' else format_loop value base uppercase [])"

end
