(* ===== verification/Stdio.thy ===== *)
theory Stdio
  imports Printk
begin

text \<open>
  user/stdio.c: \<^verbatim>\<open>scanf\<close>, \<^verbatim>\<open>getchar\<close> and \<^verbatim>\<open>printf\<close> of the user library. The \<^verbatim>\<open>read\<close> system call on
  standard input is a parameter \<open>rd\<close>: \<open>rd n e\<close> are the characters the call delivers for a
  request of \<open>n\<close> (none at the end of input) and the environment after it. Formats are the
  characters before the terminator; scanning past it is a fault.
\<close>

section \<open>scanf\<close>

text \<open>A pending \<^verbatim>\<open>scanf_pushback\<close>, if any, and the environment of standard input.\<close>

record 'e scan_state =
  scanf_pushback :: "char option"
  stdin :: 'e

type_synonym 'e reader = "nat \<Rightarrow> 'e \<Rightarrow> string \<times> 'e"

definition scanf_getchar :: "'e reader \<Rightarrow> 'e scan_state \<Rightarrow> char option \<times> 'e scan_state" where
  "scanf_getchar rd st =
     (case scanf_pushback st of
        Some c \<Rightarrow> (Some c, st\<lparr>scanf_pushback := None\<rparr>)
      | None \<Rightarrow> (case rd 1 (stdin st) of (s, e) \<Rightarrow>
          (if length s = 1 then Some (hd s) else None, st\<lparr>stdin := e\<rparr>)))"

definition scanf_ungetchar :: "char \<Rightarrow> 'e scan_state \<Rightarrow> 'e scan_state" where
  "scanf_ungetchar c st = st\<lparr>scanf_pushback := Some c\<rparr>"

definition scanf_is_space :: "char \<Rightarrow> bool" where
  "scanf_is_space c \<longleftrightarrow> c = CHR '' '' \<or> c = CHR 0x09 \<or> c = CHR 0x0A \<or> c = CHR 0x0D \<or> c = CHR 0x0B \<or> c = CHR 0x0C"

partial_function (option) scanf_skip_space :: "'e reader \<Rightarrow> 'e scan_state \<Rightarrow> 'e scan_state option" where
  "scanf_skip_space rd st =
     (case scanf_getchar rd st of
        (None, st1) \<Rightarrow> Some st1
      | (Some c, st1) \<Rightarrow> if \<not> scanf_is_space c then Some (scanf_ungetchar c st1) else scanf_skip_space rd st1)"

definition between :: "char \<Rightarrow> char \<Rightarrow> char \<Rightarrow> bool" where
  "between a c b \<longleftrightarrow> ord_of a \<le> ord_of c \<and> ord_of c \<le> ord_of b"

definition scanf_digit :: "char \<Rightarrow> int \<Rightarrow> int" where
  "scanf_digit c base =
     (let v = (if between (CHR ''0'') c (CHR ''9'') then ord_of c - ord_of (CHR ''0'')
        else if between (CHR ''a'') c (CHR ''f'') then ord_of c - ord_of (CHR ''a'') + 10
        else if between (CHR ''A'') c (CHR ''F'') then ord_of c - ord_of (CHR ''A'') + 10 else - 1) in
      if v < 0 then - 1 else if base \<le> v then - 1 else v)"

text \<open>The digit loop from the current character: the number, whether a digit was found, the state.\<close>

partial_function (option) scanf_digits :: "'e reader \<Rightarrow> int \<Rightarrow> char \<Rightarrow> u64 \<Rightarrow> bool \<Rightarrow> 'e scan_state \<Rightarrow> (u64 \<times> bool \<times> 'e scan_state) option" where
  "scanf_digits rd base c num found st =
     (let digit = scanf_digit c base in
      if digit < 0 then Some (num, found, scanf_ungetchar c st)
      else let num1 = num * of_int base + of_int digit in
        case scanf_getchar rd st of
          (None, st1) \<Rightarrow> Some (num1, True, st1)
        | (Some c1, st1) \<Rightarrow> scanf_digits rd base c1 num1 True st1)"

text \<open>The optional \<^verbatim>\<open>0x\<close> of a hexadecimal: the character to go on with, or \<open>None\<close> at the end of input.\<close>

definition scanf_hex_prefix :: "'e reader \<Rightarrow> char \<Rightarrow> 'e scan_state \<Rightarrow> char option \<times> 'e scan_state" where
  "scanf_hex_prefix rd c st =
     (if c = CHR ''0'' then
        case scanf_getchar rd st of
          (None, st1) \<Rightarrow> (Some c, st1)
        | (Some nxt, st1) \<Rightarrow>
            if nxt = CHR ''x'' \<or> nxt = CHR ''X'' then scanf_getchar rd st1
            else (Some c, scanf_ungetchar nxt st1)
      else (Some c, st))"

definition EOF :: int where "EOF = - 1"

text \<open>The result is the status and, with status 1, the 32-bit value stored through the pointer.\<close>

definition scanf_read_integer :: "'e reader \<Rightarrow> char \<Rightarrow> 'e scan_state \<Rightarrow> (int \<times> u32 \<times> 'e scan_state) option" where
  "scanf_read_integer rd f st0 =
     Option.bind (scanf_skip_space rd st0) (\<lambda>st1.
       case scanf_getchar rd st1 of
         (None, st2) \<Rightarrow> Some (EOF, 0, st2)
       | (Some c0, st2) \<Rightarrow>
       case (if c0 = CHR ''-'' \<or> c0 = CHR ''+'' then scanf_getchar rd st2 else (Some c0, st2)) of
         (None, st3) \<Rightarrow> Some (0, 0, st3)
       | (Some c1, st3) \<Rightarrow>
       case (if f = CHR ''x'' then scanf_hex_prefix rd c1 st3 else (Some c1, st3)) of
         (None, st4) \<Rightarrow> Some (0, 0, st4)
       | (Some c2, st4) \<Rightarrow>
       Option.bind (scanf_digits rd (if f = CHR ''x'' then 16 else 10) c2 0 False st4) (\<lambda>(num, found, st5).
         if \<not> found then Some (0, 0, st5)
         else Some (1, if f = CHR ''d'' \<and> c0 = CHR ''-'' then - ucast num else ucast num, st5)))"

partial_function (option) scanf_string_loop :: "'e reader \<Rightarrow> u64 \<Rightarrow> nat \<Rightarrow> memory \<Rightarrow> 'e scan_state \<Rightarrow> (nat \<times> memory \<times> 'e scan_state) option" where
  "scanf_string_loop rd value len m st =
     (case scanf_getchar rd st of
        (None, st1) \<Rightarrow> Some (len, m, st1)
      | (Some c, st1) \<Rightarrow>
          if scanf_is_space c then Some (len, m, scanf_ungetchar c st1)
          else scanf_string_loop rd value (len + 1) (m(value + of_nat len := of_char c)) st1)"

definition scanf_read_string :: "'e reader \<Rightarrow> u64 \<Rightarrow> memory \<Rightarrow> 'e scan_state \<Rightarrow> (int \<times> memory \<times> 'e scan_state) option" where
  "scanf_read_string rd value m st0 =
     Option.bind (scanf_skip_space rd st0) (\<lambda>st1.
     Option.bind (scanf_string_loop rd value 0 m st1) (\<lambda>(len, m1, st2).
       Some (if 0 < len then 1 else EOF, m1(value + of_nat len := 0), st2)))"

text \<open>
  One conversion: whether the scan goes on, the number of conversions stored so far, the
  arguments, memory and state.
\<close>

definition scanf_failed :: "int \<Rightarrow> int" where "scanf_failed matched = (if matched = 0 then EOF else matched)"

definition scanf_convert :: "'e reader \<Rightarrow> char \<Rightarrow> u64 list \<Rightarrow> int \<Rightarrow> memory \<Rightarrow> 'e scan_state \<Rightarrow>
    (bool \<times> int \<times> u64 list \<times> memory \<times> 'e scan_state) kres option" where
  "scanf_convert rd f args matched m st =
     (if f = CHR ''%'' then
        case scanf_getchar rd st of
          (None, st1) \<Rightarrow> Some (Inr (False, matched, args, m, st1))
        | (Some c, st1) \<Rightarrow>
            if c \<noteq> CHR ''%'' then Some (Inr (False, matched, args, m, scanf_ungetchar c st1))
            else Some (Inr (True, matched, args, m, st1))
      else if f = CHR ''d'' \<or> f = CHR ''u'' \<or> f = CHR ''x'' then
        case va_arg args of
          Inl e \<Rightarrow> Some (Inl e)
        | Inr (p, as) \<Rightarrow> Option.bind (scanf_read_integer rd f st) (\<lambda>(ret, v, st1).
            if ret = EOF then Some (Inr (False, scanf_failed matched, as, m, st1))
            else if ret = 0 then Some (Inr (False, matched, as, m, st1))
            else Some (Inr (True, matched + 1, as, store32 m p v, st1)))
      else if f = CHR ''c'' then
        case va_arg args of
          Inl e \<Rightarrow> Some (Inl e)
        | Inr (p, as) \<Rightarrow> (case scanf_getchar rd st of
            (None, st1) \<Rightarrow> Some (Inr (False, scanf_failed matched, as, m, st1))
          | (Some c, st1) \<Rightarrow> Some (Inr (True, matched + 1, as, m(p := of_char c), st1)))
      else if f = CHR ''s'' then
        case va_arg args of
          Inl e \<Rightarrow> Some (Inl e)
        | Inr (p, as) \<Rightarrow> Option.bind (scanf_read_string rd p m st) (\<lambda>(ret, m1, st1).
            if ret = EOF then Some (Inr (False, scanf_failed matched, as, m1, st1))
            else Some (Inr (True, matched + 1, as, m1, st1)))
      else Some (Inr (True, matched, args, m, st)))"

function scanf_loop :: "'e reader \<Rightarrow> string \<Rightarrow> u64 list \<Rightarrow> int \<Rightarrow> memory \<Rightarrow> 'e scan_state \<Rightarrow> (int \<times> memory \<times> 'e scan_state) kres option" where
  "scanf_loop rd [] args matched m st = Some (Inr (matched, m, st))"
| "scanf_loop rd (c # cs) args matched m st =
     (if scanf_is_space c then
        case scanf_skip_space rd st of
          None \<Rightarrow> None
        | Some st1 \<Rightarrow> scanf_loop rd (dropWhile scanf_is_space cs) args matched m st1
      else if c \<noteq> CHR ''%'' then
        case scanf_getchar rd st of
          (None, st1) \<Rightarrow> Some (Inr (matched, m, st1))
        | (Some d, st1) \<Rightarrow>
            if d \<noteq> c then Some (Inr (matched, m, scanf_ungetchar d st1))
            else scanf_loop rd cs args matched m st1
      else case cs of
        [] \<Rightarrow> Some (Inl Fault)
      | f # rest \<Rightarrow>
          (case scanf_convert rd f args matched m st of
             None \<Rightarrow> None
           | Some (Inl e) \<Rightarrow> Some (Inl e)
           | Some (Inr (go_on, matched1, args1, m1, st1)) \<Rightarrow>
               if go_on then scanf_loop rd rest args1 matched1 m1 st1 else Some (Inr (matched1, m1, st1))))"
  by pat_completeness auto
termination
  by (relation "measure (\<lambda>(rd, fmt, args, matched, m, st). length fmt)")
    (auto simp: less_Suc_eq_le length_dropWhile_le)

definition scanf :: "'e reader \<Rightarrow> string \<Rightarrow> u64 list \<Rightarrow> memory \<Rightarrow> 'e scan_state \<Rightarrow> (int \<times> memory \<times> 'e scan_state) kres option" where
  "scanf rd fmt args m st = scanf_loop rd fmt args 0 m st"

section \<open>getchar\<close>

text \<open>The static buffer of \<^verbatim>\<open>getchar\<close>: its characters from \<^verbatim>\<open>pos\<close> on.\<close>

definition getchar :: "'e reader \<Rightarrow> string \<times> 'e \<Rightarrow> int \<times> string \<times> 'e" where
  "getchar rd st =
     (case st of (buf, e) \<Rightarrow>
        (case (if buf = [] then rd 256 e else (buf, e)) of
           ([], e1) \<Rightarrow> (- 1, [], e1)
         | (c # cs, e1) \<Rightarrow> (ord_of c, cs, e1)))"

section \<open>printf\<close>

partial_function (option) my_strlen_from :: "memory \<Rightarrow> u64 \<Rightarrow> nat \<Rightarrow> nat option" where
  "my_strlen_from m s len = (if m (s + of_nat len) \<noteq> 0 then my_strlen_from m s (len + 1) else Some len)"

definition my_strlen :: "memory \<Rightarrow> u64 \<Rightarrow> nat option" where "my_strlen m s = my_strlen_from m s 0"

text \<open>The digits put into \<^verbatim>\<open>temp\<close>, least significant first.\<close>

partial_function (option) uint_temp :: "string \<Rightarrow> u64 \<Rightarrow> u64 \<Rightarrow> string option" where
  "uint_temp digits base num =
     (if 0 < num then Option.bind (uint_temp digits base (num div base)) (\<lambda>cs. Some (digits ! unat (num mod base) # cs))
      else Some [])"

definition uint_to_str :: "u64 \<Rightarrow> u64 \<Rightarrow> bool \<Rightarrow> string option" where
  "uint_to_str num base uppercase =
     map_option rev (if num = 0 then Some ''0'' else uint_temp (if uppercase then digits_upper else digits_lower) base num)"

partial_function (option) int_temp :: "u64 \<Rightarrow> string option" where
  "int_temp n = (if 0 < n then Option.bind (int_temp (n div 10)) (\<lambda>cs. Some (char_of (48 + unat (n mod 10)) # cs)) else Some [])"

definition int_to_str :: "u64 \<Rightarrow> string option" where
  "int_to_str num =
     (let negative = sint num < 0; n = (if negative then - num else num) in
      map_option (\<lambda>temp. rev (temp @ (if negative then ''-'' else []))) (if n = 0 then Some ''0'' else int_temp n))"

definition ptr_to_str :: "u64 \<Rightarrow> string option" where
  "ptr_to_str p = map_option (\<lambda>s. ''0x'' @ s) (uint_to_str p 16 False)"

definition PRINTF_BUF_SZ :: nat where "PRINTF_BUF_SZ = 512"

fun buf_append :: "nat \<Rightarrow> string \<Rightarrow> string \<Rightarrow> string" where
  "buf_append cap out [] = out"
| "buf_append cap out (c # cs) = (if length out < cap then buf_append cap (out @ [c]) cs else out)"

definition buf_append_char :: "nat \<Rightarrow> char \<Rightarrow> string \<Rightarrow> string" where
  "buf_append_char cap c out = (if length out < cap then out @ [c] else out)"

text \<open>\<^verbatim>\<open>for (i = from; i < width; i++) buf_append_char(out, pos, cap, c);\<close>\<close>

function buf_fill :: "nat \<Rightarrow> char \<Rightarrow> int \<Rightarrow> int \<Rightarrow> string \<Rightarrow> string" where
  "buf_fill cap c i width out = (if i < width then buf_fill cap c (i + 1) width (buf_append_char cap c out) else out)"
  by auto
termination by (relation "measure (\<lambda>(cap, c, i, width, out). nat (width - i))") auto

declare buf_fill.simps [simp del]

definition buf_append_num :: "nat \<Rightarrow> string \<Rightarrow> string \<Rightarrow> int \<Rightarrow> bool \<Rightarrow> bool \<Rightarrow> string \<Rightarrow> string" where
  "buf_append_num cap prefix src width zero_pad left_justify out =
     (let n = int (length prefix) + int (length src);
          (out1, prefix1) = (if \<not> left_justify \<and> n < width then
             let (o1, p1) = (if zero_pad then (buf_append cap out prefix, []) else (out, prefix)) in
             (buf_fill cap (if zero_pad then CHR ''0'' else CHR '' '') n width o1, p1)
           else (out, prefix));
          out2 = buf_append cap (buf_append cap out1 prefix1) src in
      if left_justify \<and> n < width then buf_fill cap (CHR '' '') n width out2 else out2)"

record printf_spec =
  long_mod :: nat
  alt_form :: bool
  zero_pad :: bool
  left_justify :: bool
  width :: int
  precision :: int

fun printf_flags :: "string \<Rightarrow> printf_spec \<Rightarrow> string \<times> printf_spec" where
  "printf_flags [] sp = ([], sp)"
| "printf_flags (c # cs) sp =
     (if c = CHR ''#'' then printf_flags cs (sp\<lparr>alt_form := True\<rparr>)
      else if c = CHR ''0'' then printf_flags cs (sp\<lparr>zero_pad := True\<rparr>)
      else if c = CHR ''-'' then printf_flags cs (sp\<lparr>left_justify := True\<rparr>)
      else if c = CHR '' '' then printf_flags cs sp
      else (c # cs, sp))"

fun printf_digits :: "string \<Rightarrow> int \<Rightarrow> int \<times> string" where
  "printf_digits [] w = (w, [])"
| "printf_digits (c # cs) w =
     (if between (CHR ''0'') c (CHR ''9'') then printf_digits cs (w * 10 + (ord_of c - ord_of (CHR ''0''))) else (w, c # cs))"

definition printf_read_spec :: "string \<Rightarrow> printf_spec \<times> string" where
  "printf_read_spec fmt =
     (case printf_flags fmt \<lparr>long_mod = 0, alt_form = False, zero_pad = False, left_justify = False, width = 0, precision = - 1\<rparr> of
        (fmt1, sp1) \<Rightarrow>
      case printf_digits fmt1 0 of (w, fmt2) \<Rightarrow>
      case (if starts (CHR ''.'') fmt2 then printf_digits (tl fmt2) 0 else (- 1, fmt2)) of (p, fmt3) \<Rightarrow>
      let sp2 = sp1\<lparr>width := w, precision := p\<rparr> in
      if starts (CHR ''l'') fmt3 then
        if starts (CHR ''l'') (tl fmt3) then (sp2\<lparr>long_mod := 2\<rparr>, tl (tl fmt3)) else (sp2\<lparr>long_mod := 1\<rparr>, tl fmt3)
      else (sp2, fmt3))"

text \<open>\<^verbatim>\<open>va_arg\<close> with the width of the length modifier, signed and unsigned.\<close>

definition printf_signed :: "printf_spec \<Rightarrow> u64 \<Rightarrow> u64" where
  "printf_signed sp a = (if long_mod sp = 0 then scast (ucast a :: i32) else a)"

definition printf_unsigned :: "printf_spec \<Rightarrow> u64 \<Rightarrow> u64" where
  "printf_unsigned sp a = (if long_mod sp = 0 then ucast (ucast a :: u32) else a)"

definition printf_put_num :: "printf_spec \<Rightarrow> string \<Rightarrow> string option \<Rightarrow> string \<Rightarrow> string option" where
  "printf_put_num sp prefix src out =
     map_option (\<lambda>s. buf_append_num PRINTF_BUF_SZ prefix s (width sp) (zero_pad sp) (left_justify sp) out) src"

definition printf_alt :: "printf_spec \<Rightarrow> u64 \<Rightarrow> string \<Rightarrow> string" where
  "printf_alt sp v prefix = (if alt_form sp \<and> v \<noteq> 0 then prefix else [])"

text \<open>The text placed for a \<^verbatim>\<open>%s\<close> argument; a null pointer prints \<^verbatim>\<open>(null)\<close>.\<close>

definition printf_str :: "memory \<Rightarrow> printf_spec \<Rightarrow> u64 \<Rightarrow> string \<Rightarrow> string option" where
  "printf_str m sp a out =
     Option.bind (if a = 0 then Some (length ''(null)'') else my_strlen m a) (\<lambda>n.
       let len = (if 0 \<le> precision sp \<and> precision sp < int n then precision sp else int n);
           str = (if a = 0 then take (nat len) ''(null)'' else mem_chars m a len);
           out1 = (if 0 < width sp \<and> \<not> left_justify sp
             then buf_fill PRINTF_BUF_SZ (if zero_pad sp then CHR ''0'' else CHR '' '') len (width sp) out else out);
           out2 = buf_append PRINTF_BUF_SZ out1 str in
       Some (if 0 < width sp \<and> left_justify sp then buf_fill PRINTF_BUF_SZ (CHR '' '') len (width sp) out2 else out2))"

text \<open>The \<^verbatim>\<open>switch\<close> on the conversion character for an argument \<open>a\<close>.\<close>

definition printf_arg :: "memory \<Rightarrow> printf_spec \<Rightarrow> char \<Rightarrow> u64 \<Rightarrow> string \<Rightarrow> string option" where
  "printf_arg m sp f a out =
     (let v = printf_unsigned sp a in
      if f = CHR ''d'' \<or> f = CHR ''i'' then printf_put_num sp [] (int_to_str (printf_signed sp a)) out
      else if f = CHR ''u'' then printf_put_num sp [] (uint_to_str v 10 False) out
      else if f = CHR ''x'' then printf_put_num sp (printf_alt sp v ''0x'') (uint_to_str v 16 False) out
      else if f = CHR ''X'' then printf_put_num sp (printf_alt sp v ''0X'') (uint_to_str v 16 True) out
      else if f = CHR ''o'' then printf_put_num sp (printf_alt sp v ''0'') (uint_to_str v 8 False) out
      else if f = CHR ''p'' then map_option (buf_append PRINTF_BUF_SZ out) (ptr_to_str a)
      else if f = CHR ''s'' then printf_str m sp a out
      else Some (buf_append_char PRINTF_BUF_SZ (chr8 (ucast a)) out))"

definition takes_arg :: "char \<Rightarrow> bool" where "takes_arg f \<longleftrightarrow> f \<in> set ''diuxXopsc''"

definition printf_convert :: "memory \<Rightarrow> printf_spec \<Rightarrow> string \<Rightarrow> u64 list \<Rightarrow> string \<Rightarrow> (string \<times> string \<times> u64 list) kres option" where
  "printf_convert m sp fmt args out =
     (case fmt of
        [] \<Rightarrow> Some (Inl Fault)
      | f # rest \<Rightarrow>
          if takes_arg f then
            case va_arg args of
              Inl e \<Rightarrow> Some (Inl e)
            | Inr (a, as) \<Rightarrow> Option.bind (printf_arg m sp f a out) (\<lambda>out1. Some (Inr (out1, rest, as)))
          else if f = CHR ''%'' then Some (Inr (buf_append_char PRINTF_BUF_SZ (CHR ''%'') out, rest, args))
          else Some (Inr (buf_append_char PRINTF_BUF_SZ f (buf_append_char PRINTF_BUF_SZ (CHR ''%'') out), rest, args)))"

lemma printf_flags_length: "length (fst (printf_flags fmt sp)) \<le> length fmt"
  by (induction fmt sp rule: printf_flags.induct) auto

lemma printf_digits_length: "length (snd (printf_digits fmt w)) \<le> length fmt"
  by (induction fmt w rule: printf_digits.induct) auto

lemma printf_read_spec_length: "length (snd (printf_read_spec fmt)) \<le> length fmt"
proof -
  let ?i = "\<lparr>long_mod = 0, alt_form = False, zero_pad = False, left_justify = False, width = 0, precision = - 1\<rparr>"
  obtain fmt1 sp1 where f1: "printf_flags fmt ?i = (fmt1, sp1)" by (cases "printf_flags fmt ?i")
  obtain w fmt2 where f2: "printf_digits fmt1 0 = (w, fmt2)" by (cases "printf_digits fmt1 0")
  obtain p fmt3 where f3: "(if starts (CHR ''.'') fmt2 then printf_digits (tl fmt2) 0 else (- 1, fmt2)) = (p, fmt3)" by fastforce
  have "length fmt1 \<le> length fmt" "length fmt2 \<le> length fmt1" "length fmt3 \<le> length fmt2"
    using f1 f2 f3 printf_flags_length [of fmt ?i] printf_digits_length [of fmt1 0] printf_digits_length [of "tl fmt2" 0]
    by (auto split: if_splits)
  then show ?thesis unfolding printf_read_spec_def f1 f2 f3 prod.case Let_def by auto
qed

lemma printf_convert_length: "printf_convert m sp fmt args out = Some (Inr (out1, fmt1, as)) \<Longrightarrow> length fmt1 < length fmt"
  by (auto simp: printf_convert_def split: list.splits if_splits sum.splits bind_splits)

lemma printf_step_length:
  "printf_read_spec cs = (sp, fmt1) \<Longrightarrow> printf_convert m sp fmt1 args out = Some (Inr (out1, fmt2, as)) \<Longrightarrow> length fmt2 \<le> length cs"
  using printf_read_spec_length [of cs] printf_convert_length [of m sp fmt1 args out out1 fmt2 as] by simp

function printf_loop :: "memory \<Rightarrow> string \<Rightarrow> u64 list \<Rightarrow> string \<Rightarrow> string kres option" where
  "printf_loop m [] args out = Some (Inr out)"
| "printf_loop m (c # cs) args out =
     (if c = CHR ''%'' then
        case printf_read_spec cs of (sp, fmt1) \<Rightarrow>
          (case printf_convert m sp fmt1 args out of
             None \<Rightarrow> None
           | Some (Inl e) \<Rightarrow> Some (Inl e)
           | Some (Inr (out1, fmt2, args1)) \<Rightarrow> printf_loop m fmt2 args1 out1)
      else printf_loop m cs args (buf_append_char PRINTF_BUF_SZ c out))"
  by pat_completeness auto
termination
  by (relation "measure (\<lambda>(m, fmt, args, out). length fmt)") (auto dest: printf_step_length [OF sym] simp: less_Suc_eq_le)

text \<open>The text given to the single \<^verbatim>\<open>write(1, out, pos)\<close>; the result of \<^verbatim>\<open>printf\<close> is its length.\<close>

definition printf :: "memory \<Rightarrow> string \<Rightarrow> u64 list \<Rightarrow> string kres option" where
  "printf m fmt args = printf_loop m fmt args []"

end
