(* ===== verification/PrintkSpec.thy ===== *)
theory PrintkSpec
  imports Printk Lib
begin

text \<open>
  What the formatter of kernel/printk.c prints: positional numerals, their layout in a field, and
  whole messages.
\<close>

section \<open>Numerals\<close>

fun radix_rev :: "nat \<Rightarrow> nat \<Rightarrow> nat list" where
  "radix_rev b n = (if n = 0 \<or> b < 2 then [] else n mod b # radix_rev b (n div b))"

declare radix_rev.simps [simp del]

lemma radix_rev_0 [simp]: "radix_rev b 0 = []"
  by (simp add: radix_rev.simps)

lemma radix_rev_step: "n \<noteq> 0 \<Longrightarrow> 2 \<le> b \<Longrightarrow> radix_rev b n = n mod b # radix_rev b (n div b)"
  by (simp add: radix_rev.simps)

definition radix :: "nat \<Rightarrow> nat \<Rightarrow> nat list" where
  "radix b n = (if n = 0 then [0] else rev (radix_rev b n))"

definition value_of :: "nat \<Rightarrow> nat list \<Rightarrow> nat" where
  "value_of b ds = foldl (\<lambda>a d. a * b + d) 0 ds"

lemma radix_rev_value: "2 \<le> b \<Longrightarrow> foldr (\<lambda>d a. a * b + d) (radix_rev b n) 0 = n"
  by (induction b n rule: radix_rev.induct) (subst radix_rev.simps, simp)

lemma value_radix [simp]: "2 \<le> b \<Longrightarrow> value_of b (radix b n) = n"
  using radix_rev_value [of b n] by (simp add: value_of_def radix_def foldr_conv_foldl)

lemma radix_rev_digits: "2 \<le> b \<Longrightarrow> d \<in> set (radix_rev b n) \<Longrightarrow> d < b"
  by (induction b n rule: radix_rev.induct) (subst (asm) (2) radix_rev.simps, auto split: if_splits)

lemma radix_digits: "2 \<le> b \<Longrightarrow> d \<in> set (radix b n) \<Longrightarrow> d < b"
  using radix_rev_digits [of b d n] by (auto simp: radix_def split: if_splits)

lemma radix_rev_length: "2 \<le> b \<Longrightarrow> n < b ^ k \<Longrightarrow> length (radix_rev b n) \<le> k"
proof (induction k arbitrary: n)
  case (Suc k)
  have "n div b < b ^ k" using Suc.prems by (simp add: less_mult_imp_div_less mult.commute)
  then show ?case using Suc by (cases "n = 0") (simp_all add: radix_rev_step)
qed simp

lemma radix_rev_bound: "2 \<le> b \<Longrightarrow> length (radix_rev b n) \<le> k \<Longrightarrow> n < b ^ k"
proof (induction k arbitrary: n)
  case 0
  then show ?case by (cases "n = 0") (simp_all add: radix_rev_step)
next
  case (Suc k)
  show ?case
  proof (cases "n = 0")
    case False
    then have "n div b < b ^ k" using Suc by (simp add: radix_rev_step)
    then show ?thesis using Suc.prems(1) by (simp add: div_less_iff_less_mult mult.commute)
  qed (use Suc.prems(1) in simp)
qed

lemma radix_nonempty: "2 \<le> b \<Longrightarrow> radix b n \<noteq> []"
  by (auto simp: radix_def radix_rev_step)

lemma radix_length: "2 \<le> b \<Longrightarrow> n < b ^ k \<Longrightarrow> 0 < k \<Longrightarrow> length (radix b n) \<le> k"
  using radix_rev_length [of b n k] by (simp add: radix_def)

lemma do_div_eq: "do_div n b = (n mod b, n div b)"
  by (simp add: do_div_def Let_def minus_div_mult_eq_mod)

lemma tmp_digits_eq:
  assumes "2 \<le> unat b"
  shows "tmp_digits ds b n = Some (map ((!) ds) (radix_rev (unat b) (unat n)))"
proof (induction "unat n" arbitrary: n rule: less_induct)
  case less
  show ?case
  proof (cases "n = 0")
    case False
    then have n: "unat n \<noteq> 0" by (simp add: unat_eq_0)
    then have "unat (n div b) < unat n" using assms by (simp add: unat_div_distrib)
    from less [OF this] show ?thesis using False n assms
      by (subst tmp_digits.simps) (simp add: do_div_eq radix_rev_step unat_div_distrib unat_mod_distrib)
  qed (subst tmp_digits.simps, simp)
qed

section \<open>Fields\<close>

lemma pad_loop_eq: "pad_loop c n = (replicate (nat n) c, if 0 < n then - 1 else n - 1)"
proof (induction c n rule: pad_loop.induct)
  case (1 c n)
  show ?case
  proof (cases "0 < n")
    case True
    then have "nat n = Suc (nat (n - 1))" by simp
    then show ?thesis using 1 [OF True] True by (subst pad_loop.simps) (simp add: split_def)
  qed (subst pad_loop.simps, simp)
qed

definition layout :: "u32 \<Rightarrow> int \<Rightarrow> int \<Rightarrow> string \<Rightarrow> string \<Rightarrow> string" where
  "layout fl width precision prefix ds =
     (let zs = replicate (nat (precision - int (length ds))) (CHR ''0'');
          fill = nat (width - int (length (prefix @ zs @ ds))) in
      if flag fl LEFT then prefix @ zs @ ds @ replicate fill (CHR '' '')
      else if flag fl ZEROPAD then prefix @ replicate fill (CHR ''0'') @ zs @ ds
      else replicate fill (CHR '' '') @ prefix @ zs @ ds)"

definition sign_text :: "u32 \<Rightarrow> u64 \<Rightarrow> string" where
  "sign_text fl num = (if flag fl SIGN \<and> sint num < 0 then ''-'' else if flag fl PLUS then ''+'' else if flag fl SPACE then '' '' else [])"

definition alt_text :: "u32 \<Rightarrow> u64 \<Rightarrow> string" where
  "alt_text fl base = (if flag fl SPECIAL then
     if base = 8 then ''0'' else if base = 16 then if flag fl SMALL then ''0x'' else ''0X'' else [] else [])"

definition magnitude :: "u32 \<Rightarrow> u64 \<Rightarrow> nat" where
  "magnitude fl num = (if flag fl SIGN \<and> sint num < 0 then nat (- sint num) else unat num)"

definition digit_text :: "u32 \<Rightarrow> u64 \<Rightarrow> nat \<Rightarrow> string" where
  "digit_text fl base n = map ((!) (if flag fl SMALL then digits_lower else digits_upper)) (radix (unat base) n)"

lemma flag_and_not: "f AND z = 0 \<Longrightarrow> flag (t AND NOT z) f = flag t f" for t f z :: u32
proof -
  assume fz: "f AND z = 0"
  have "(t AND NOT z) AND f = t AND f"
  proof (rule bit_word_eqI)
    fix n assume "n < LENGTH(32)"
    have "\<not> (bit f n \<and> bit z n)" using fz by (metis bit_0_eq bit_and_iff bot_apply bot_bool_def)
    then show "bit ((t AND NOT z) AND f) n = bit (t AND f) n" using \<open>n < _\<close> by (auto simp: bit_and_iff bit_not_iff)
  qed
  then show ?thesis by simp
qed

lemma flag_self: "\<not> flag (t AND NOT z) z" for t z :: u32
  by (simp add: and.assoc)

lemma flag_or: "flag t (f + g) \<longleftrightarrow> flag t f \<or> flag t g" if "f AND g = 0" for t f g :: u32
proof -
  have "f + g = f OR g" using that by (rule disjunctive_add_eq_or)
  moreover have "t AND (f OR g) = (t AND f) OR (t AND g)" by (simp add: bit.conj_disj_distrib)
  moreover have "x OR y = 0 \<longleftrightarrow> x = 0 \<and> y = 0" for x y :: u32
    by (metis bit.disj_zero_right or_eq_0_iff)
  ultimately show ?thesis by simp
qed

lemma unat_neg:
  fixes num :: u64
  assumes "sint num < 0"
  shows "unat (- num) = nat (- sint num)"
proof -
  have "uint (- num) = (- sint num) mod 2 ^ 64"
    by (simp add: uint_word_ariths take_bit_eq_mod flip: uint_sint [of num]) (simp add: uint_sint take_bit_eq_mod mod_minus_eq)
  moreover have "- sint num \<le> 2 ^ 63" using sint_greater_eq [of num] by simp
  ultimately have "uint (- num) = - sint num" using assms by (simp add: mod_pos_pos_trivial)
  then show ?thesis by (simp flip: nat_uint_eq)
qed

lemma number_eq:
  assumes "2 \<le> unat base" "unat base \<le> 36"
  shows "number num base width precision fl =
    (if TMP_SIZE < length (digit_text fl base (magnitude fl num)) then Some (Inl Fault)
     else Some (Inr (Some (layout fl width precision (sign_text fl num @ alt_text fl base) (digit_text fl base (magnitude fl num))))))"
proof -
  define ty where "ty = (if flag fl LEFT then fl AND NOT ZEROPAD else fl)"
  have ty: "flag ty SIGN = flag fl SIGN" "flag ty PLUS = flag fl PLUS" "flag ty SPACE = flag fl SPACE" "flag ty LEFT = flag fl LEFT"
    "flag ty SPECIAL = flag fl SPECIAL" "flag ty ZEROPAD = (flag fl ZEROPAD \<and> \<not> flag fl LEFT)"
    using flag_and_not [of SIGN ZEROPAD fl] flag_and_not [of PLUS ZEROPAD fl] flag_and_not [of SPACE ZEROPAD fl]
      flag_and_not [of LEFT ZEROPAD fl] flag_and_not [of SPECIAL ZEROPAD fl] flag_self [of fl ZEROPAD]
    by (auto simp: ty_def SIGN_def PLUS_def SPACE_def LEFT_def SPECIAL_def ZEROPAD_def)
  have zl: "flag ty (ZEROPAD + LEFT) = (flag fl ZEROPAD \<or> flag fl LEFT)"
    using flag_or [of ZEROPAD LEFT ty] ty(4,6) by (auto simp: ZEROPAD_def LEFT_def)
  have b: "\<not> (base < 2 \<or> 36 < base)" using assms by (auto simp: word_less_nat_alt)
  define ds where "ds = (if flag fl SMALL then digits_lower else digits_upper)"
  define num1 where "num1 = (if flag fl SIGN \<and> sint num < 0 then - num else num)"
  have n1: "unat num1 = magnitude fl num" by (simp add: num1_def magnitude_def unat_neg)
  define tmp where "tmp = rev (digit_text fl base (magnitude fl num))"
  have t: "(if num1 = 0 then Some ''0'' else tmp_digits ds base num1) = Some tmp"
  proof (cases "num1 = 0")
    case True
    then show ?thesis using n1 by (simp add: tmp_def digit_text_def radix_def digits_lower_def digits_upper_def)
  next
    case False
    then have "magnitude fl num \<noteq> 0" using n1 by (metis unat_eq_0)
    then show ?thesis using tmp_digits_eq [OF assms(1), of ds num1] False n1
      by (simp add: tmp_def digit_text_def radix_def ds_def rev_map)
  qed
  have d33: "ds ! 33 = (if flag fl SMALL then CHR ''x'' else CHR ''X'')" by (simp add: ds_def digits_lower_def digits_upper_def)
  define sg where "sg = sign_text fl num"
  define al where "al = alt_text fl base"
  have sg: "(if flag fl SIGN \<and> sint num < 0 then ''-'' else if flag fl PLUS then ''+'' else if flag fl SPACE then '' '' else []) = sg"
    by (simp add: sg_def sign_text_def)
  have al: "(if flag fl SPECIAL then if base = 8 then ''0'' else if base = 16 then [CHR ''0'', ds ! 33] else [] else []) = al"
    unfolding d33 by (simp add: al_def alt_text_def)
  have sz: "(if flag fl SPECIAL then if base = 16 then (if sg \<noteq> [] then width - 1 else width) - 2
        else if base = 8 then (if sg \<noteq> [] then width - 1 else width) - 1 else (if sg \<noteq> [] then width - 1 else width)
      else (if sg \<noteq> [] then width - 1 else width)) = width - int (length (sg @ al))"
    by (simp add: sg_def al_def sign_text_def alt_text_def)
  define pr where "pr = (if precision < int (length tmp) then int (length tmp) else precision)"
  have zs: "nat (pr - int (length tmp)) = nat (precision - int (length tmp))" by (simp add: pr_def)
  define fill where "fill = width - int (length (sg @ al)) - pr"
  have fl: "nat fill = nat (width - int (length ((sg @ al) @ replicate (nat (precision - int (length tmp))) (CHR ''0'') @ rev tmp)))"
    by (simp add: fill_def pr_def diff_diff_eq add.assoc)
  show ?thesis
  proof (cases "TMP_SIZE < length tmp")
    case True
    have "number num base width precision fl = Some (Inl Fault)"
      unfolding number_def Let_def ty_def [symmetric] ds_def [symmetric] ty zl num1_def [symmetric] if_not_P [OF b] t sg al sz
      by (simp only: bind.bind_lunit True if_True)
    then show ?thesis using True by (simp add: tmp_def)
  next
    case False
    have num: "number num base width precision fl = Some (Inr (Some
     (fst (if \<not> (flag fl ZEROPAD \<or> flag fl LEFT) then pad_loop (CHR '' '') fill else ([], fill)) @ sg @ al @
      (let size4 = snd (if \<not> (flag fl ZEROPAD \<or> flag fl LEFT) then pad_loop (CHR '' '') fill else ([], fill));
           f = (if \<not> flag fl LEFT then pad_loop (if flag fl ZEROPAD \<and> \<not> flag fl LEFT then CHR ''0'' else CHR '' '') size4 else ([], size4)) in
       fst f @ replicate (nat (precision - int (length tmp))) (CHR ''0'') @ rev tmp @ fst (pad_loop (CHR '' '') (snd f))))))"
    unfolding number_def Let_def ty_def [symmetric] ds_def [symmetric] ty zl num1_def [symmetric] if_not_P [OF b] t sg al sz
    by (simp only: bind.bind_lunit if_not_P [OF False]  pr_def [symmetric] fill_def [symmetric] split_def pad_loop_eq [of "CHR ''0''" "pr - _"] fst_conv zs append_assoc)
    show ?thesis unfolding num layout_def Let_def tmp_def [THEN arg_cong [of _ _ rev], unfolded rev_rev_ident, symmetric]
    sg_def [symmetric] al_def [symmetric] length_rev fl [symmetric]
      using False by (simp add: pad_loop_eq)
  qed
qed

text \<open>Only a binary numeral of more than 50 digits does not fit the digit buffer of \<^verbatim>\<open>number\<close>.\<close>

lemma magnitude_bound: "magnitude fl num < 2 ^ 64"
proof -
  have "- (2 ^ 63) \<le> sint num" using sint_greater_eq [of num] by simp
  then have "nat (- sint num) < 2 ^ 64" by simp
  then show ?thesis using unat_bound [of num] by (simp add: magnitude_def)
qed

lemma digit_text_fits:
  assumes "2 \<le> unat base"
  shows "TMP_SIZE < length (digit_text fl base (magnitude fl num)) \<longleftrightarrow> unat base = 2 \<and> 2 ^ 50 \<le> magnitude fl num"
proof (cases "unat base = 2")
  case True
  have "length (radix 2 n) \<le> 50 \<longleftrightarrow> n < 2 ^ 50" for n
    using radix_rev_bound [of 2 n 50] radix_rev_length [of 2 n 50] by (auto simp: radix_def)
  then show ?thesis using True by (simp add: TMP_SIZE_def digit_text_def flip: not_le)
next
  case False
  have "(2 :: nat) ^ 64 \<le> 3 ^ 41" by simp
  also have "\<dots> \<le> unat base ^ 41" using assms False by (intro power_mono) auto
  finally have "magnitude fl num < unat base ^ 41" using magnitude_bound [of fl num] by linarith
  then have "length (digit_text fl base (magnitude fl num)) \<le> 41"
    unfolding digit_text_def length_map by (intro radix_length assms) simp_all
  then show ?thesis using False by (simp add: TMP_SIZE_def)
qed

lemma number_fits:
  assumes "2 \<le> unat base" "unat base \<le> 36" "unat base \<noteq> 2"
  shows "number num base width precision fl =
    Some (Inr (Some (layout fl width precision (sign_text fl num @ alt_text fl base) (digit_text fl base (magnitude fl num)))))"
  using number_eq [OF assms(1,2)] digit_text_fits [OF assms(1)] assms(3) by simp

section \<open>Reading numerals back\<close>

lemma decimal_digit:
  assumes "d < 10"
  shows "is_digit (digits_upper ! d)" "ord_of (digits_upper ! d) = 48 + int d"
proof -
  have "d = 0 \<or> d = 1 \<or> d = 2 \<or> d = 3 \<or> d = 4 \<or> d = 5 \<or> d = 6 \<or> d = 7 \<or> d = 8 \<or> d = 9" using assms by arith
  then show "ord_of (digits_upper ! d) = 48 + int d" by (auto simp: digits_upper_def ord_of_def)
  then show "is_digit (digits_upper ! d)" using assms by (simp add: is_digit_def) (simp add: ord_of_def)
qed

lemma skip_atoi_loop_digits:
  assumes "\<forall>d \<in> set ds. d < 10" "rest = [] \<or> \<not> is_digit (hd rest)"
  shows "skip_atoi_loop (int a) (map ((!) digits_upper) ds @ rest) = (int (foldl (\<lambda>a d. a * 10 + d) a ds), rest)"
  using assms(1)
proof (induction ds arbitrary: a)
  case Nil
  then show ?case using assms(2) by (cases rest) simp_all
next
  case (Cons d ds)
  have "int a * 10 + ord_of (digits_upper ! d) - ord_of (CHR ''0'') = int (a * 10 + d)"
    using decimal_digit(2) [of d] Cons.prems by simp (simp add: ord_of_def)
  then have "skip_atoi_loop (int a * 10 + ord_of (digits_upper ! d) - ord_of (CHR ''0'')) (map ((!) digits_upper) ds @ rest) =
      skip_atoi_loop (int (a * 10 + d)) (map ((!) digits_upper) ds @ rest)" by (simp only:)
  then show ?case using Cons.IH [of "a * 10 + d"] Cons.prems decimal_digit(1) [of d] by (simp del: of_nat_add of_nat_mult)
qed

lemma skip_atoi_decimal:
  assumes "rest = [] \<or> \<not> is_digit (hd rest)"
  shows "skip_atoi (map ((!) digits_upper) (radix 10 n) @ rest) = (int n, rest)"
  using skip_atoi_loop_digits [of "radix 10 n" rest 0] radix_digits [of 10 _ n] assms value_radix [of 10 n]
  by (simp add: skip_atoi_def value_of_def)

section \<open>Messages\<close>

lemma vsprintf_literal: "CHR ''%'' \<notin> set lit \<Longrightarrow> vsprintf_loop m out (lit @ fmt) args = vsprintf_loop m (out @ lit) fmt args"
  by (induction lit arbitrary: out) auto

lemma char_tests [simp]: "\<not> is_digit (CHR ''d'')" "\<not> is_digit (CHR ''u'')" "\<not> is_digit (CHR ''x'')" "\<not> is_digit (CHR ''p'')"
  "\<not> is_digit (CHR ''s'')" "\<not> is_digit (CHR ''c'')" "\<not> is_digit (CHR ''l'')" "\<not> is_digit (CHR ''%'')"
  by (simp_all add: is_digit_def ord_of_def)

datatype part = Lit string | Dec u64 | Long u64 | Ulong u64 | Hex u64 | Lhex u64 | Ptr u64 | Str u64 "u8 list" | Chr u64 | Percent

fun part_fmt :: "part \<Rightarrow> string" where
  "part_fmt (Lit s) = s"
| "part_fmt (Dec a) = ''%d''"
| "part_fmt (Long a) = ''%ld''"
| "part_fmt (Ulong a) = ''%lu''"
| "part_fmt (Hex a) = ''%x''"
| "part_fmt (Lhex a) = ''%lx''"
| "part_fmt (Ptr a) = ''%p''"
| "part_fmt (Str a xs) = ''%s''"
| "part_fmt (Chr a) = ''%c''"
| "part_fmt Percent = ''%%''"

fun part_args :: "part \<Rightarrow> u64 list" where
  "part_args (Lit s) = []"
| "part_args (Dec a) = [a]"
| "part_args (Long a) = [a]"
| "part_args (Ulong a) = [a]"
| "part_args (Hex a) = [a]"
| "part_args (Lhex a) = [a]"
| "part_args (Ptr a) = [a]"
| "part_args (Str a xs) = [a]"
| "part_args (Chr a) = [a]"
| "part_args Percent = []"

definition decimal :: "nat \<Rightarrow> string" where "decimal n = map ((!) digits_upper) (radix 10 n)"
definition hex :: "nat \<Rightarrow> string" where "hex n = map ((!) digits_lower) (radix 16 n)"

fun part_text :: "part \<Rightarrow> string" where
  "part_text (Lit s) = s"
| "part_text (Dec a) = decimal (unat a mod 2 ^ 32)"
| "part_text (Long a) = (if sint a < 0 then ''-'' @ decimal (nat (- sint a)) else decimal (unat a))"
| "part_text (Ulong a) = decimal (unat a)"
| "part_text (Hex a) = hex (unat a mod 2 ^ 32)"
| "part_text (Lhex a) = hex (unat a)"
| "part_text (Ptr a) = (let ds = map ((!) digits_upper) (radix 16 (unat a)) in replicate (16 - length ds) (CHR ''0'') @ ds)"
| "part_text (Str a xs) = map chr8 xs"
| "part_text (Chr a) = [chr8 (ucast a)]"
| "part_text Percent = ''%''"

fun part_ok :: "memory \<Rightarrow> part \<Rightarrow> bool" where
  "part_ok m (Lit s) \<longleftrightarrow> CHR ''%'' \<notin> set s"
| "part_ok m (Str a xs) \<longleftrightarrow> cstr m a xs \<and> a \<noteq> 0 \<and> length xs < 2 ^ 31"
| "part_ok m _ \<longleftrightarrow> True"

lemma layout_plain:
  "layout 0 (- 1) (- 1) p ds = p @ ds" "layout SMALL (- 1) (- 1) p ds = p @ ds" "layout SIGN (- 1) (- 1) p ds = p @ ds"
  by (simp_all add: layout_def Let_def LEFT_def ZEROPAD_def SMALL_def SIGN_def)

lemma arg_uint_unat: "unat (arg_uint a) = unat a mod 2 ^ 32"
proof -
  have "unat (ucast a :: u32) = unat a mod 2 ^ 32" by (simp add: unsigned_ucast_eq take_bit_eq_mod unat_mod_distrib)
  moreover have "unat (arg_uint a) = unat (ucast a :: u32)" by (simp add: arg_uint_def unat_ucast_u32)
  ultimately show ?thesis by simp
qed

lemma arg_uint_nonneg: "\<not> sint (arg_uint a) < 0"
proof -
  have "sint (arg_uint a) = int (unat a mod 2 ^ 32)"
    using arg_uint_unat [of a] by (simp add: sint_uint uint_nat signed_take_bit_int_eq_self)
  then show ?thesis by simp
qed

lemmas flag_defs = LEFT_def ZEROPAD_def SMALL_def SIGN_def PLUS_def SPACE_def SPECIAL_def

lemma number_plain:
  "number a 10 (- 1) (- 1) 0 = Some (Inr (Some (decimal (unat a))))"
  "number a 16 (- 1) (- 1) SMALL = Some (Inr (Some (hex (unat a))))"
  "number a 10 (- 1) (- 1) SIGN = Some (Inr (Some (part_text (Long a))))"
  "number a 16 16 (- 1) ZEROPAD = Some (Inr (Some (part_text (Ptr a))))"
  by (simp_all add: number_fits layout_plain sign_text_def alt_text_def magnitude_def digit_text_def decimal_def hex_def flag_defs)
    (simp_all add: layout_def Let_def flag_defs nat_diff_distrib')

lemma blanks_plain [simp]: "blanks_pre (- 1) = ([], - 2)" "blanks_pre (- 2) = ([], - 3)" "0 \<le> n \<Longrightarrow> blanks_to n (- 1) = ([], - 2)"
  "0 \<le> n \<Longrightarrow> blanks_to n (- 2) = ([], - 3)"
  by (simp_all add: blanks_pre.simps blanks_to.simps)

lemma cstr_bytes: "cstr m a xs \<Longrightarrow> bytes m a (length xs) = xs"
  by (induction m a xs rule: cstr.induct) (simp_all add: bytes_Suc, simp add: bytes_def)

lemma arg_int_small: "unat w < 2 ^ 31 \<Longrightarrow> arg_int w = int (unat w)"
proof -
  assume w: "unat w < 2 ^ 31"
  then have "unat (ucast w :: u32) = unat w" by (simp add: unsigned_ucast_eq take_bit_nat_eq_self)
  then have u: "uint (ucast w :: u32) = int (unat w)" by (simp only: uint_nat)
  have "signed_take_bit 31 (int n) = int n" if "n < 2 ^ 31" for n using that by (intro signed_take_bit_int_eq_self) simp_all
  from this [OF w] show ?thesis unfolding arg_int_def sint_uint u by simp
qed

lemma vsprintf_part:
  assumes "part_ok m p"
  shows "vsprintf_loop m out (part_fmt p @ fmt) (part_args p @ args) = vsprintf_loop m (out @ part_text p) fmt args"
proof (cases p)
  case (Lit s)
  then show ?thesis using assms vsprintf_literal by simp
next
  case (Str a xs)
  then have c: "cstr m a xs" "a \<noteq> 0" "length xs < 2 ^ 31" using assms by simp_all
  then have "arg_int (of_nat (length xs)) = int (length xs)"
    using arg_int_small [of "of_nat (length xs)"] by (simp add: unat_of_nat_small)
  then show ?thesis using Str c(2) strlen_cstr [OF c(1)] cstr_bytes [OF c(1)]
    by (simp add: directive_def read_width_def read_precision_def read_qualifier_def starts_def convert_def Let_def
      conv_s_def va_arg_def mem_chars_def)
qed (simp_all add: directive_def read_width_def read_precision_def read_qualifier_def starts_def convert_def Let_def
  conv_number_def conv_c_def va_arg_def number_plain arg_uint_unat arg_uint_nonneg)

definition parts_fmt :: "part list \<Rightarrow> string" where "parts_fmt ps = concat (map part_fmt ps)"
definition parts_args :: "part list \<Rightarrow> u64 list" where "parts_args ps = concat (map part_args ps)"
definition parts_text :: "part list \<Rightarrow> string" where "parts_text ps = concat (map part_text ps)"

lemma vsprintf_parts_loop:
  "list_all (part_ok m) ps \<Longrightarrow> vsprintf_loop m out (parts_fmt ps) (parts_args ps) = Some (Inr (out @ parts_text ps, m))"
  by (induction ps arbitrary: out) (simp_all add: parts_fmt_def parts_args_def parts_text_def vsprintf_part)

lemma buffer_text_plain: "length out < PRINT_BUFFER_SIZE \<Longrightarrow> CHR 0x00 \<notin> set out \<Longrightarrow> buffer_text out = Inr out"
  by (auto simp: buffer_text_def takeWhile_eq_all_conv)

section \<open>Properties\<close>

text \<open>
  (C9) For every base from 2 to 36, \<^verbatim>\<open>number\<close> prints the positional numeral of the value after
  sign and base prefix, with precision zeros, and fills the field with blanks on the left or
  right or with zeros after the prefix, whatever the flags; the numeral denotes the value. The
  one exception is base 2 with a magnitude of \<open>2 ^ 50\<close> or more, whose digits overrun \<^verbatim>\<open>tmp[50]\<close>.
\<close>

theorem number_layout:
  assumes "2 \<le> unat base" "unat base \<le> 36"
  shows "number num base width precision fl =
      (if unat base = 2 \<and> 2 ^ 50 \<le> magnitude fl num then Some (Inl Fault)
       else Some (Inr (Some (layout fl width precision (sign_text fl num @ alt_text fl base) (digit_text fl base (magnitude fl num)))))) \<and>
    value_of (unat base) (radix (unat base) (magnitude fl num)) = magnitude fl num"
  using number_eq [OF assms] digit_text_fits [OF assms(1)] assms by simp

theorem number_layout_witness: "number 255 16 8 (- 1) (SMALL OR SPECIAL OR ZEROPAD) = Some (Inr (Some ''0x0000ff''))"
proof -
  have r: "radix 16 255 = [15, 15]" by (simp add: radix_def radix_rev.simps)
  have rp: "replicate 4 (CHR ''0'') = ''0000''" by (simp add: numeral_eq_Suc)
  show ?thesis using number_layout [of 16 255 8 "- 1" "SMALL OR SPECIAL OR ZEROPAD"]
    by (simp add: layout_def Let_def sign_text_def alt_text_def digit_text_def magnitude_def flag_defs r digits_lower_def rp)
qed

text \<open>
  Decimal text is read back: \<^verbatim>\<open>skip_atoi\<close>, which the formatter uses for widths, returns the
  value that \<^verbatim>\<open>number\<close> printed and stops at the first character after it.
\<close>

theorem decimal_roundtrip:
  assumes "rest = [] \<or> \<not> is_digit (hd rest)"
  shows "\<exists>t. number num 10 (- 1) (- 1) 0 = Some (Inr (Some t)) \<and> skip_atoi (t @ rest) = (int (unat num), rest)"
  using skip_atoi_decimal [OF assms, of "unat num"] number_plain(1) [of num] by (simp add: decimal_def)

theorem decimal_roundtrip_witness:
  "\<exists>t. number 1995 10 (- 1) (- 1) 0 = Some (Inr (Some t)) \<and> skip_atoi (t @ ''d'') = (1995, ''d'')"
  using decimal_roundtrip [of "''d''" 1995] by simp

text \<open>
  (C13) A message is the concatenation of its pieces: for any sequence of literal text and
  \<^verbatim>\<open>%d\<close>, \<^verbatim>\<open>%ld\<close>, \<^verbatim>\<open>%lu\<close>, \<^verbatim>\<open>%x\<close>, \<^verbatim>\<open>%lx\<close>, \<^verbatim>\<open>%p\<close>, \<^verbatim>\<open>%s\<close>, \<^verbatim>\<open>%c\<close> and \<^verbatim>\<open>%%\<close> directives with their
  arguments, \<^verbatim>\<open>vsprintf\<close> returns, consumes exactly the arguments and produces the text of each
  in order.
\<close>

theorem vsprintf_parts:
  assumes "list_all (part_ok m) ps"
  shows "vsprintf m (parts_fmt ps) (parts_args ps) = Some (Inr (parts_text ps, m))"
  using vsprintf_parts_loop [OF assms, of "[]"] by (simp add: vsprintf_def)

theorem vsprintf_parts_witness:
  "vsprintf (\<lambda>_. 0) ''pid %d: %lx%%'' [7, 255] = Some (Inr (''pid 7: ff%'', \<lambda>_. 0))"
proof -
  have r: "radix 16 255 = [15, 15]" "radix 10 7 = [7]" by (simp_all add: radix_def radix_rev.simps)
  show ?thesis using vsprintf_parts [of "\<lambda>_. 0" "[Lit ''pid '', Dec 7, Lit '': '', Lhex 255, Percent]"]
    by (simp add: parts_fmt_def parts_args_def parts_text_def decimal_def hex_def r digits_lower_def digits_upper_def)
qed

text \<open>What the screen shows of a message in colour \<open>fg\<close>: an SGR escape with the decimal code, the text, a reset.\<close>

definition coloured :: "int \<Rightarrow> string \<Rightarrow> string" where
  "coloured fg s = (if fg < 0 then s
     else [char_of (27 :: nat), CHR ''[''] @ decimal (nat fg) @ ''m'' @ s @ [char_of (27 :: nat)] @ ''[0m'')"

lemma sgr_loop_eq: "sgr_loop n = map ((!) digits_upper) (radix_rev 10 n)"
proof (induction n rule: sgr_loop.induct)
  case (1 v)
  have "(char_of (48 + d) :: char) = digits_upper ! d" if "d < 10" for d :: nat
  proof -
    have "d = 0 \<or> d = 1 \<or> d = 2 \<or> d = 3 \<or> d = 4 \<or> d = 5 \<or> d = 6 \<or> d = 7 \<or> d = 8 \<or> d = 9" using that by arith
    then show ?thesis by (auto simp: digits_upper_def char_of_def bit_simps drop_bit_eq_div)
  qed
  from this [of "v mod 10"] show ?case using 1 by (subst sgr_loop.simps) (simp add: radix_rev_step)
qed

lemma sgr_open_eq:
  assumes "0 \<le> fg" "fg < 10000"
  shows "sgr_open fg = Some ([char_of (27 :: nat), CHR ''[''] @ decimal (nat fg) @ ''m'')"
proof -
  have "length (radix_rev 10 (nat fg)) \<le> 4" using assms by (intro radix_rev_length) simp_all
  then show ?thesis using assms
    by (simp add: sgr_open_def Let_def sgr_loop_eq decimal_def radix_def rev_map) (simp add: digits_upper_def)
qed

lemma printk_emit_eq:
  assumes "msg_fg k < 10000"
  shows "printk_emit s k = Inr (k\<lparr>serial := serial k @ s, screen := screen k @ (if console_ready k then coloured (msg_fg k) s else [])\<rparr>)"
  using assms sgr_open_eq [of "msg_fg k"]
  by (simp add: printk_emit_def printk_screen_ready_def gpu_tty_console_write_def coloured_def sgr_reset_def)

text \<open>
  (C37) \<^verbatim>\<open>printk\<close> and \<^verbatim>\<open>printk_color\<close> send a message that fits their buffer once, as plain text, to the
  serial console, and to the screen when that is ready: there it stands between the escape
  with the decimal code of the colour and the reset escape when a colour of at most four digits is set,
  the stored one for \<^verbatim>\<open>printk\<close> and the argument for \<^verbatim>\<open>printk_color\<close>, which puts the stored one back.
\<close>

theorem printk_channels:
  assumes "list_all (part_ok m) ps" "length (parts_text ps) < PRINT_BUFFER_SIZE" "CHR 0x00 \<notin> set (parts_text ps)"
    and "msg_fg k < 10000" "fg < 10000"
  shows "printk (parts_fmt ps) (parts_args ps) m k = Some (Inr (m, k\<lparr>serial := serial k @ parts_text ps,
       screen := screen k @ (if console_ready k then coloured (msg_fg k) (parts_text ps) else [])\<rparr>)) \<and>
    printk_color fg (parts_fmt ps) (parts_args ps) m k = Some (Inr (m, k\<lparr>serial := serial k @ parts_text ps,
       screen := screen k @ (if console_ready k then coloured fg (parts_text ps) else [])\<rparr>))"
  using vsprintf_parts_loop [OF assms(1), of "[]"] buffer_text_plain [OF assms(2,3)] assms(4,5)
  by (simp add: printk_def printk_color_def vsprintf_def printk_emit_eq)

theorem printk_channels_witness:
  "\<exists>k'. printk_color 31 ''fault %d'' [7] (\<lambda>_. 0) \<lparr>serial = [], screen = ''> '', console_ready = True, msg_fg = - 1\<rparr> = Some (Inr (\<lambda>_. 0, k')) \<and>
     serial k' = ''fault 7'' \<and> screen k' = ''> '' @ [char_of (27 :: nat)] @ ''[31mfault 7'' @ [char_of (27 :: nat)] @ ''[0m'' \<and> msg_fg k' = - 1"
proof -
  have r: "radix 10 7 = [7]" "radix 10 31 = [3, 1]" by (simp_all add: radix_def radix_rev.simps)
  have t: "parts_text [Lit ''fault '', Dec 7] = ''fault 7''" by (simp add: parts_text_def decimal_def r digits_upper_def)
  show ?thesis using printk_channels [of "\<lambda>_. 0" "[Lit ''fault '', Dec 7]" "\<lparr>serial = [], screen = ''> '', console_ready = True, msg_fg = - 1\<rparr>" 31] t
    by (simp add: parts_fmt_def parts_args_def PRINT_BUFFER_SIZE_def coloured_def decimal_def r digits_upper_def)
qed

end
