(* ===== verification/StdioSpec.thy ===== *)
theory StdioSpec
  imports Stdio PrintkSpec
begin

text \<open>
  What \<^verbatim>\<open>printf\<close> and \<^verbatim>\<open>scanf\<close> of user/stdio.c do: the output buffer is never overrun, and printed
  integers are read back.
\<close>

section \<open>The output buffer\<close>

lemma buf_append_take: "length out \<le> cap \<Longrightarrow> buf_append cap out s = take cap (out @ s)"
  by (induction cap out s rule: buf_append.induct) auto

lemma buf_bounds [simp]:
  "length out \<le> cap \<Longrightarrow> length (buf_append cap out s) \<le> cap"
  "length out \<le> cap \<Longrightarrow> length (buf_append_char cap c out) \<le> cap"
  by (simp_all add: buf_append_take buf_append_char_def)

lemma buf_fill_bound [simp]: "length out \<le> cap \<Longrightarrow> length (buf_fill cap c i w out) \<le> cap"
proof (induction cap c i w out rule: buf_fill.induct)
  case (1 cap c i w out)
  then show ?case by (subst buf_fill.simps) simp
qed

lemma buf_append_num_bound [simp]: "length out \<le> cap \<Longrightarrow> length (buf_append_num cap prefix src w z l out) \<le> cap"
  by (simp add: buf_append_num_def Let_def split_def)

lemma printf_str_bound: "length out \<le> PRINTF_BUF_SZ \<Longrightarrow> printf_str m sp a out = Some out1 \<Longrightarrow> length out1 \<le> PRINTF_BUF_SZ"
  by (auto simp: printf_str_def Let_def split: bind_splits)

lemma printf_arg_bound: "length out \<le> PRINTF_BUF_SZ \<Longrightarrow> printf_arg m sp f a out = Some out1 \<Longrightarrow> length out1 \<le> PRINTF_BUF_SZ"
  by (auto simp: printf_arg_def Let_def printf_put_num_def dest: printf_str_bound split: if_splits)

lemma printf_convert_bound:
  "length out \<le> PRINTF_BUF_SZ \<Longrightarrow> printf_convert m sp fmt args out = Some (Inr (out1, fmt1, as)) \<Longrightarrow> length out1 \<le> PRINTF_BUF_SZ"
  by (auto simp: printf_convert_def dest: printf_arg_bound split: list.splits if_splits sum.splits bind_splits)

lemma printf_loop_bound:
  "length out \<le> PRINTF_BUF_SZ \<Longrightarrow> printf_loop m fmt args out = Some (Inr t) \<Longrightarrow> length t \<le> PRINTF_BUF_SZ"
proof (induction m fmt args out rule: printf_loop.induct)
  case (2 m c cs args out)
  show ?case
  proof (cases "c = CHR ''%''")
    case False
    then show ?thesis using 2 by simp
  next
    case True
    obtain sp fmt1 where f1: "printf_read_spec cs = (sp, fmt1)" by (cases "printf_read_spec cs")
    obtain out1 fmt2 args1 where f2: "printf_convert m sp fmt1 args out = Some (Inr (out1, fmt2, args1))"
      and l: "printf_loop m fmt2 args1 out1 = Some (Inr t)"
      using "2.prems"(2) True f1 by (auto split: option.splits sum.splits)
    have "length out1 \<le> PRINTF_BUF_SZ" using printf_convert_bound [OF "2.prems"(1) f2] .
    then show ?thesis using "2.IH"(1) [OF True f1 [symmetric] f2 refl refl refl] l by simp
  qed
qed simp

section \<open>Input still to come\<close>

text \<open>The environment delivers the characters \<open>s\<close> one by one and then the end of input.\<close>

fun delivers :: "'e reader \<Rightarrow> 'e \<Rightarrow> string \<Rightarrow> bool" where
  "delivers rd e [] \<longleftrightarrow> length (fst (rd 1 e)) \<noteq> 1"
| "delivers rd e (c # cs) \<longleftrightarrow> fst (rd 1 e) = [c] \<and> delivers rd (snd (rd 1 e)) cs"

definition pending :: "'e reader \<Rightarrow> 'e scan_state \<Rightarrow> string \<Rightarrow> bool" where
  "pending rd st s \<longleftrightarrow> (case scanf_pushback st of
      None \<Rightarrow> delivers rd (stdin st) s
    | Some c \<Rightarrow> s \<noteq> [] \<and> hd s = c \<and> delivers rd (stdin st) (tl s))"

lemma getchar_next:
  assumes "pending rd st (c # cs)"
  obtains st' where "scanf_getchar rd st = (Some c, st')" "pending rd st' cs" "scanf_pushback st' = None"
  using assms that by (auto simp: pending_def scanf_getchar_def split_def split: option.splits)

lemma getchar_end:
  assumes "pending rd st []"
  obtains st' where "scanf_getchar rd st = (None, st')"
  using assms that by (auto simp: pending_def scanf_getchar_def split_def split: option.splits)

lemma pending_unget: "scanf_pushback st = None \<Longrightarrow> pending rd st cs \<Longrightarrow> pending rd (scanf_ungetchar c st) (c # cs)"
  by (simp add: pending_def scanf_ungetchar_def)

lemma skip_space_pending:
  "pending rd st (ws @ c # cs) \<Longrightarrow> list_all scanf_is_space ws \<Longrightarrow> \<not> scanf_is_space c \<Longrightarrow>
   \<exists>st'. scanf_skip_space rd st = Some st' \<and> pending rd st' (c # cs)"
proof (induction ws arbitrary: st)
  case Nil
  then obtain st' where g: "scanf_getchar rd st = (Some c, st')" "pending rd st' cs" "scanf_pushback st' = None"
    by (auto elim: getchar_next)
  then show ?case using Nil pending_unget [OF g(3,2), of c] by (subst scanf_skip_space.simps) simp
next
  case (Cons w ws)
  then obtain st' where g: "scanf_getchar rd st = (Some w, st')" "pending rd st' (ws @ c # cs)"
    by (auto elim: getchar_next)
  then show ?case using Cons.IH [OF g(2)] Cons.prems by (subst scanf_skip_space.simps) simp
qed

section \<open>Decimal numbers\<close>

definition dchar :: "nat \<Rightarrow> char" where "dchar d = char_of (48 + d)"

lemma dchar_digit: "d < 10 \<Longrightarrow> dchar d = digits_upper ! d"
proof -
  assume "d < 10"
  then have "d = 0 \<or> d = 1 \<or> d = 2 \<or> d = 3 \<or> d = 4 \<or> d = 5 \<or> d = 6 \<or> d = 7 \<or> d = 8 \<or> d = 9" by arith
  then show ?thesis by (auto simp: dchar_def digits_upper_def char_of_def bit_0)
qed

lemma ord_dchar [simp]: "d < 10 \<Longrightarrow> ord_of (dchar d) = 48 + int d"
  by (simp add: dchar_digit decimal_digit(2))

lemma scanf_digit_dchar: "d < 10 \<Longrightarrow> scanf_digit (dchar d) 10 = int d"
  by (simp add: scanf_digit_def between_def Let_def) (simp add: ord_of_def)

lemma scanf_digit_other: "\<not> is_digit c \<Longrightarrow> scanf_digit c 10 < 0"
  by (simp add: scanf_digit_def between_def is_digit_def Let_def) (simp add: ord_of_def)

lemma scanf_digits_run:
  "list_all (\<lambda>d. d < 10) (d # ds) \<Longrightarrow> rest = [] \<or> \<not> is_digit (hd rest) \<Longrightarrow> pending rd st (map dchar ds @ rest) \<Longrightarrow> scanf_pushback st = None \<Longrightarrow>
   \<exists>st'. scanf_digits rd 10 (dchar d) a found st = Some (foldl (\<lambda>a d. a * 10 + of_nat d) a (d # ds), True, st') \<and>
     (rest \<noteq> [] \<longrightarrow> pending rd st' rest)"
proof (induction ds arbitrary: d a found st)
  case Nil
  have d: "scanf_digit (dchar d) 10 = int d" using Nil.prems(1) by (simp add: scanf_digit_dchar)
  show ?case
  proof (cases rest)
    case Nil
    then obtain st' where "scanf_getchar rd st = (None, st')" using Nil.prems(3) by (auto elim: getchar_end)
    then show ?thesis using d Nil by (subst scanf_digits.simps) simp
  next
    case (Cons r rs)
    then obtain st' where g: "scanf_getchar rd st = (Some r, st')" "pending rd st' rs" "scanf_pushback st' = None"
      using Nil.prems(3) by (auto elim: getchar_next)
    have "scanf_digit r 10 < 0" using Nil.prems(2) Cons scanf_digit_other by simp
    then have "scanf_digits rd 10 r a' True st' = Some (a', True, scanf_ungetchar r st')" for a'
      by (subst scanf_digits.simps) simp
    then show ?thesis using d Cons g pending_unget [OF g(3,2), of r] by (subst scanf_digits.simps) simp
  qed
next
  case (Cons d1 ds)
  have d: "scanf_digit (dchar d) 10 = int d" using Cons.prems(1) by (simp add: scanf_digit_dchar)
  obtain st1 where g: "scanf_getchar rd st = (Some (dchar d1), st1)" "pending rd st1 (map dchar ds @ rest)" "scanf_pushback st1 = None"
    using Cons.prems(3) by (auto elim: getchar_next)
  show ?case using Cons.IH [of d1 st1 "a * 10 + of_nat d" True] Cons.prems(1,2) g d by (subst scanf_digits.simps) simp
qed

lemma int_temp_eq: "int_temp n = Some (map dchar (radix_rev 10 (unat n)))"
proof (induction "unat n" arbitrary: n rule: less_induct)
  case less
  show ?case
  proof (cases "n = 0")
    case False
    then have n: "unat n \<noteq> 0" "0 < n" by (simp_all add: unat_eq_0 word_gt_0)
    then have "unat (n div 10) < unat n" by (simp add: unat_div_distrib)
    from less [OF this] show ?thesis using n
      by (subst int_temp.simps) (simp add: dchar_def radix_rev_step unat_div_distrib unat_mod_distrib)
  qed (subst int_temp.simps, simp)
qed

lemma int_to_str_eq:
  "int_to_str v = Some (if sint v < 0 then ''-'' @ map dchar (radix 10 (nat (- sint v))) else map dchar (radix 10 (unat v)))"
proof (cases "sint v < 0")
  case True
  then have "unat (- v) = nat (- sint v)" "nat (- sint v) \<noteq> 0" "- v \<noteq> 0" using unat_neg by auto
  then show ?thesis using True int_temp_eq [of "- v"] by (simp add: int_to_str_def Let_def radix_def rev_map)
next
  case False
  show ?thesis
  proof (cases "v = 0")
    case False
    then show ?thesis using \<open>\<not> sint v < 0\<close> int_temp_eq [of v] by (simp add: int_to_str_def Let_def radix_def rev_map unat_eq_0)
  qed (simp add: int_to_str_def radix_def dchar_digit digits_upper_def)
qed

lemma foldl_of_nat: "foldl (\<lambda>a d. a * 10 + of_nat d) (of_nat a) ds = (of_nat (foldl (\<lambda>a d. a * 10 + d) a ds) :: u64)"
proof (induction ds arbitrary: a)
  case (Cons d ds)
  from Cons [of "a * 10 + d"] show ?case by simp
qed simp

lemma foldl_radix: "foldl (\<lambda>a d. a * 10 + of_nat d) 0 (radix 10 n) = (of_nat n :: u64)"
  using foldl_of_nat [of 0 "radix 10 n"] value_radix [of 10 n] by (simp add: value_of_def)

lemma dchar_tests: "d < 10 \<Longrightarrow> \<not> scanf_is_space (dchar d)" "d < 10 \<Longrightarrow> dchar d \<noteq> CHR ''-''" "d < 10 \<Longrightarrow> dchar d \<noteq> CHR ''+''"
proof -
  assume d: "d < 10"
  have "ord_of (dchar d) \<ge> 48" using d by simp
  then show "\<not> scanf_is_space (dchar d)" "dchar d \<noteq> CHR ''-''" "dchar d \<noteq> CHR ''+''"
    by (auto simp: scanf_is_space_def) (auto simp: ord_of_def)
qed

lemma read_integer_decimal:
  assumes "pending rd st (ws @ (if neg then ''-'' else []) @ map dchar (radix 10 n) @ rest)" "list_all scanf_is_space ws"
    and "rest = [] \<or> \<not> is_digit (hd rest)"
  shows "\<exists>st'. scanf_read_integer rd (CHR ''d'') st = Some (1, if neg then - of_nat n else of_nat n, st') \<and> (rest \<noteq> [] \<longrightarrow> pending rd st' rest)"
proof -
  obtain d ds where r: "radix 10 n = d # ds" using radix_nonempty [of 10 n] by (cases "radix 10 n") simp_all
  have dd: "list_all (\<lambda>d. d < 10) (d # ds)" using radix_digits [of 10 _ n] r by (simp add: list_all_iff)
  have uc: "ucast (of_nat n :: u64) = (of_nat n :: u32)" by (rule bit_word_eqI) (simp add: bit_simps)
  show ?thesis
  proof (cases neg)
    case False
    obtain st1 where s1: "scanf_skip_space rd st = Some st1" "pending rd st1 (dchar d # map dchar ds @ rest)"
      using skip_space_pending [of rd st ws "dchar d"] assms(1,2) False r dchar_tests(1) dd by auto
    obtain st2 where s2: "scanf_getchar rd st1 = (Some (dchar d), st2)" "pending rd st2 (map dchar ds @ rest)" "scanf_pushback st2 = None"
      using s1(2) by (auto elim: getchar_next)
    show ?thesis using scanf_digits_run [OF dd assms(3) s2(2,3), of 0 False] s1(1) s2(1) False dd dchar_tests(2,3) [of d] foldl_radix [of n] r uc
      by (auto simp: scanf_read_integer_def)
  next
    case True
    have sp: "\<not> scanf_is_space (CHR ''-'')" by (simp add: scanf_is_space_def)
    obtain st1 where s1: "scanf_skip_space rd st = Some st1" "pending rd st1 (CHR ''-'' # dchar d # map dchar ds @ rest)"
      using skip_space_pending [of rd st ws "CHR ''-''" "dchar d # map dchar ds @ rest"] assms(1,2) True r sp by auto
    obtain st2 where s2: "scanf_getchar rd st1 = (Some (CHR ''-''), st2)" "pending rd st2 (dchar d # map dchar ds @ rest)"
      using s1(2) by (auto elim: getchar_next)
    obtain st3 where s3: "scanf_getchar rd st2 = (Some (dchar d), st3)" "pending rd st3 (map dchar ds @ rest)" "scanf_pushback st3 = None"
      using s2(2) by (auto elim: getchar_next)
    show ?thesis using scanf_digits_run [OF dd assms(3) s3(2,3), of 0 False] s1(1) s2(1) s3(1) True foldl_radix [of n] r uc
      by (auto simp: scanf_read_integer_def)
  qed
qed

lemma printf_d_text: "printf m ''%d'' [a] = Some (Inr (let v = scast (ucast a :: i32) :: u64 in
    if sint v < 0 then ''-'' @ map dchar (radix 10 (nat (- sint v))) else map dchar (radix 10 (unat v))))"
proof -
  define v where "v = (scast (ucast a :: i32) :: u64)"
  define t where "t = (if sint v < 0 then ''-'' @ map dchar (radix 10 (nat (- sint v))) else map dchar (radix 10 (unat v)))"
  have "- sint v \<le> 2 ^ 63" using sint_greater_eq [of v] by simp
  then have "nat (- sint v) < 10 ^ 20" "unat v < 10 ^ 20" using unat_bound [of v] by simp_all
  then have "length t \<le> PRINTF_BUF_SZ" using radix_length [of 10 "nat (- sint v)" 20] radix_length [of 10 "unat v" 20]
    by (simp add: t_def PRINTF_BUF_SZ_def)
  then have "buf_append PRINTF_BUF_SZ [] t = t" by (simp add: buf_append_take)
  moreover have "int_to_str v = Some t" using int_to_str_eq [of v] by (simp add: t_def)
  moreover have "printf_read_spec ''d'' = (\<lparr>long_mod = 0, alt_form = False, zero_pad = False, left_justify = False, width = 0, precision = - 1\<rparr>, ''d'')"
    by (simp add: printf_read_spec_def between_def starts_def Let_def) (simp add: ord_of_def)
  ultimately show ?thesis unfolding Let_def v_def [symmetric] t_def [symmetric]
    by (simp add: printf_def printf_convert_def takes_arg_def va_arg_def printf_arg_def printf_put_num_def printf_signed_def buf_append_num_def
      v_def [symmetric])
qed

lemma sint_scast_word: "sint (scast (w :: i32) :: u64) = sint w"
proof -
  have "- (2 ^ 31) \<le> sint w" "sint w < 2 ^ 31" using sint_greater_eq [of w] sint_less [of w] by simp_all
  then show ?thesis unfolding signed_scast_eq by (intro signed_take_bit_int_eq_self) simp_all
qed

section \<open>Properties\<close>

text \<open>
  (C38) Whatever the format and the arguments, \<^verbatim>\<open>printf\<close> never writes past its 512-byte buffer: the
  text it hands to \<^verbatim>\<open>write\<close> has at most 512 characters.
\<close>

theorem printf_bounded: "printf m fmt args = Some (Inr out) \<Longrightarrow> length out \<le> PRINTF_BUF_SZ"
  unfolding printf_def by (rule printf_loop_bound [of "[]"]) simp_all

theorem printf_bounded_witness:
  "printf (\<lambda>_. 0) ''hi'' [] = Some (Inr ''hi'') \<and> length ''hi'' \<le> PRINTF_BUF_SZ"
  using printf_bounded [of "\<lambda>_. 0" "''hi''" "[]" "''hi''"] by (simp add: printf_def buf_append_char_def PRINTF_BUF_SZ_def)

text \<open>
  (C7) An integer printed with \<^verbatim>\<open>printf("%d")\<close> is read back by \<^verbatim>\<open>scanf("%d")\<close>: on an input with that text
  after any white space and before anything but a digit, \<^verbatim>\<open>scanf\<close> returns 1, stores the same 32
  bits, and the next character read is the first one after the text.
\<close>

theorem printf_scanf_roundtrip:
  assumes "printf m ''%d'' [a] = Some (Inr t)" "pending rd st (ws @ t @ rest)"
    and "list_all scanf_is_space ws" "rest = [] \<or> \<not> is_digit (hd rest)"
  shows "\<exists>st'. scanf rd ''%d'' [p] m2 st = Some (Inr (1, store32 m2 p (ucast a), st')) \<and> (rest \<noteq> [] \<longrightarrow> pending rd st' rest)"
proof -
  define w where "w = (ucast a :: i32)"
  define v where "v = (scast w :: u64)"
  define n where "n = (if sint v < 0 then nat (- sint v) else unat v)"
  have t: "t = (if sint v < 0 then ''-'' else []) @ map dchar (radix 10 n)"
    using assms(1) printf_d_text [of m a] by (auto simp: Let_def v_def w_def n_def split: if_splits)
  have sv: "sint v = sint w" by (simp add: v_def sint_scast_word)
  have nw: "(if sint v < 0 then - of_nat n else of_nat n) = w"
  proof (cases "sint v < 0")
    case True
    then have "- of_nat n = (of_int (sint w) :: i32)" using sv by (simp add: n_def of_nat_nat)
    then show ?thesis using True by simp
  next
    case False
    then have "uint v = sint v" unfolding uint_sint [of v] using sint_less [of v] by (intro take_bit_int_eq_self) simp_all
    then have "of_nat n = (of_int (sint w) :: i32)" using False sv by (simp add: n_def flip: nat_uint_eq)
    then show ?thesis using False by simp
  qed
  obtain st' where "scanf_read_integer rd (CHR ''d'') st = Some (1, w, st')" "rest \<noteq> [] \<longrightarrow> pending rd st' rest"
    using read_integer_decimal [of rd st ws "sint v < 0" n rest] assms(2-4) t nw by auto
  then show ?thesis
    by (simp add: scanf_def scanf_convert_def va_arg_def EOF_def scanf_is_space_def w_def)
qed

theorem printf_scanf_roundtrip_witness:
  "\<exists>t st'. printf (\<lambda>_. 0) ''%d'' [- 42] = Some (Inr t) \<and>
     scanf (\<lambda>n s. (take n s, drop n s)) ''%d'' [64] (\<lambda>_. 0) \<lparr>scanf_pushback = None, stdin = t\<rparr> =
       Some (Inr (1, store32 (\<lambda>_. 0) 64 (- 42), st'))"
proof -
  obtain t where t: "printf (\<lambda>_. 0) ''%d'' [- 42] = Some (Inr t)" using printf_d_text [of "\<lambda>_. 0" "- 42"] by blast
  have "delivers (\<lambda>n s. (take n s, drop n s)) s s" for s :: string by (induction s) simp_all
  then have "pending (\<lambda>n s. (take n s, drop n s)) \<lparr>scanf_pushback = None, stdin = t\<rparr> ([] @ t @ [])" by (simp add: pending_def)
  note p = this
  have "list_all scanf_is_space []" "[] = [] \<or> \<not> is_digit (hd [])" by simp_all
  note r = printf_scanf_roundtrip [OF t p this, of 64 "\<lambda>_. 0"]
  have uc: "ucast (- 42 :: u64) = (- 42 :: u32)" by simp
  show ?thesis using r t unfolding uc by blast
qed

end
