(* ===== verification/Spinlock.thy ===== *)
theory Spinlock
  imports Prelude
begin

text \<open>
  kernel/spinlock.c: one spin lock shared by any number of CPUs, each with its interrupt enable
  bit and its nesting of \<^verbatim>\<open>push_off\<close>. \<^verbatim>\<open>acquire\<close> and \<^verbatim>\<open>release\<close> are split into their shared accesses,
  and the CPUs interleave freely.
\<close>

section \<open>The model\<close>

record cpu =
  noff :: int
  intena :: bool
  sie :: bool

definition push_off :: "cpu \<Rightarrow> cpu" where
  "push_off c =
     (let old = sie c; c1 = c\<lparr>sie := False\<rparr>; c2 = (if noff c1 = 0 then c1\<lparr>intena := old\<rparr> else c1) in
      c2\<lparr>noff := noff c2 + 1\<rparr>)"

definition pop_off :: "cpu \<Rightarrow> cpu kres" where
  "pop_off c =
     (if sie c then Inl (Panic ''pop_off - interruptible'')
      else if noff c < 1 then Inl (Panic ''pop_off'')
      else let c1 = c\<lparr>noff := noff c - 1\<rparr> in
        Inr (if noff c1 = 0 \<and> intena c1 then c1\<lparr>sie := True\<rparr> else c1))"

text \<open>The next shared access of a CPU; \<open>Outside\<close> and \<open>Critical\<close> are the points where its caller runs.\<close>

datatype spin_pc = Outside | CheckHolding | Exchange | SetHolder | Critical | ClearHolder | Unlock | PopOff

record spin_sys =
  val :: u64
  holder :: "nat option"
  cpus :: "nat \<Rightarrow> cpu"
  pcs :: "nat \<Rightarrow> spin_pc"
  stopped :: "kerror option"

definition init_spinlock :: "spin_sys \<Rightarrow> spin_sys" where
  "init_spinlock s = s\<lparr>val := 0, holder := None\<rparr>"

definition is_holding :: "nat \<Rightarrow> spin_sys \<Rightarrow> bool" where
  "is_holding i s = (case holder s of None \<Rightarrow> False | Some h \<Rightarrow> h = i)"

definition goto :: "nat \<Rightarrow> spin_pc \<Rightarrow> spin_sys \<Rightarrow> spin_sys" where
  "goto i p s = s\<lparr>pcs := (pcs s)(i := p)\<rparr>"

fun acquire_step :: "nat \<Rightarrow> spin_pc \<Rightarrow> spin_sys \<Rightarrow> spin_sys" where
  "acquire_step i Outside s = goto i CheckHolding (s\<lparr>cpus := (cpus s)(i := push_off (cpus s i))\<rparr>)"
| "acquire_step i CheckHolding s =
     (if is_holding i s then s\<lparr>stopped := Some (Panic ''acquire: reacquire'')\<rparr> else goto i Exchange s)"
| "acquire_step i Exchange s = goto i (if val s \<noteq> 0 then Exchange else SetHolder) (s\<lparr>val := 1\<rparr>)"
| "acquire_step i SetHolder s = goto i Critical (s\<lparr>holder := Some i\<rparr>)"
| "acquire_step i _ s = s"

fun release_step :: "nat \<Rightarrow> spin_pc \<Rightarrow> spin_sys \<Rightarrow> spin_sys" where
  "release_step i Critical s =
     (if \<not> is_holding i s then s\<lparr>stopped := Some (Panic ''release: not a owner!'')\<rparr> else goto i ClearHolder s)"
| "release_step i ClearHolder s = goto i Unlock (s\<lparr>holder := None\<rparr>)"
| "release_step i Unlock s = goto i PopOff (s\<lparr>val := 0\<rparr>)"
| "release_step i PopOff s =
     (case pop_off (cpus s i) of
        Inl e \<Rightarrow> s\<lparr>stopped := Some e\<rparr>
      | Inr c \<Rightarrow> goto i Outside (s\<lparr>cpus := (cpus s)(i := c)\<rparr>))"
| "release_step i _ s = s"

text \<open>CPU \<open>i\<close> makes its next access; a panic stops the machine.\<close>

definition spin_step :: "nat \<Rightarrow> spin_sys \<Rightarrow> spin_sys" where
  "spin_step i s =
     (if stopped s \<noteq> None then s
      else if pcs s i \<in> {Outside, CheckHolding, Exchange, SetHolder} then acquire_step i (pcs s i) s
      else release_step i (pcs s i) s)"

definition spin_run :: "nat list \<Rightarrow> spin_sys \<Rightarrow> spin_sys" where
  "spin_run is s = fold spin_step is s"

section \<open>Interrupt nesting\<close>

definition cpu_ok :: "cpu \<Rightarrow> bool" where "cpu_ok c \<longleftrightarrow> 0 \<le> noff c \<and> (0 < noff c \<longrightarrow> \<not> sie c)"

lemma push_off_ok: "cpu_ok c \<Longrightarrow> cpu_ok (push_off c) \<and> 0 < noff (push_off c) \<and> \<not> sie (push_off c)"
  by (simp add: cpu_ok_def push_off_def Let_def)

lemma pop_off_ok:
  assumes "cpu_ok c" "0 < noff c"
  obtains c' where "pop_off c = Inr c'" "cpu_ok c'" "noff c' = noff c - 1"
  using assms that by (auto simp: cpu_ok_def pop_off_def Let_def)

section \<open>The lock\<close>

abbreviation owns :: "spin_pc \<Rightarrow> bool" where "owns p \<equiv> p \<in> {SetHolder, Critical, ClearHolder, Unlock}"

text \<open>\<open>ow\<close> is the CPU between its successful exchange and its unlocking store.\<close>

definition spin_inv :: "nat option \<Rightarrow> spin_sys \<Rightarrow> bool" where
  "spin_inv ow s \<longleftrightarrow> stopped s = None \<and> val s = (if ow = None then 0 else 1) \<and>
     (\<forall>i. owns (pcs s i) \<longleftrightarrow> ow = Some i) \<and>
     (\<forall>i. holder s = Some i \<longleftrightarrow> pcs s i \<in> {Critical, ClearHolder}) \<and>
     (\<forall>i. cpu_ok (cpus s i) \<and> (pcs s i \<noteq> Outside \<longrightarrow> 0 < noff (cpus s i)))"

definition spin_init :: "spin_sys \<Rightarrow> bool" where
  "spin_init s \<longleftrightarrow> stopped s = None \<and> (\<forall>i. pcs s i = Outside \<and> cpu_ok (cpus s i))"

lemma spin_inv_init: "spin_init s \<Longrightarrow> spin_inv None (init_spinlock s)"
  by (simp add: spin_init_def spin_inv_def init_spinlock_def)

lemma spin_invD:
  assumes "spin_inv ow s"
  shows "stopped s = None" "val s = (if ow = None then 0 else 1)" "owns (pcs s i) \<longleftrightarrow> ow = Some i"
    "holder s = Some i \<longleftrightarrow> pcs s i \<in> {Critical, ClearHolder}" "cpu_ok (cpus s i)" "pcs s i \<noteq> Outside \<Longrightarrow> 0 < noff (cpus s i)"
  using assms unfolding spin_inv_def by blast+

text \<open>What a step of CPU \<open>i\<close> has to establish: only its own program counter and CPU change.\<close>

lemma spin_invI:
  assumes "spin_inv ow s" "s' = s\<lparr>val := v, holder := h, cpus := (cpus s)(i := c), pcs := (pcs s)(i := p)\<rparr>"
    and "v = (if ow' = None then 0 else 1)" "owns p \<longleftrightarrow> ow' = Some i" "\<And>j. j \<noteq> i \<Longrightarrow> ow' = Some j \<longleftrightarrow> ow = Some j"
    and "h = Some i \<longleftrightarrow> p \<in> {Critical, ClearHolder}" "\<And>j. j \<noteq> i \<Longrightarrow> h = Some j \<longleftrightarrow> holder s = Some j"
    and "cpu_ok c" "p \<noteq> Outside \<Longrightarrow> 0 < noff c"
  shows "spin_inv ow' s'"
  unfolding spin_inv_def
proof (intro conjI allI)
  fix j
  note d = spin_invD [OF assms(1)]
  show "owns (pcs s' j) \<longleftrightarrow> ow' = Some j" using assms(2,4,5) d(3) [of j] by (cases "j = i") simp_all
  show "holder s' = Some j \<longleftrightarrow> pcs s' j \<in> {Critical, ClearHolder}" using assms(2,6,7) d(4) [of j] by (cases "j = i") simp_all
  show "cpu_ok (cpus s' j)" "pcs s' j \<noteq> Outside \<longrightarrow> 0 < noff (cpus s' j)"
    using assms(2,8,9) d(5,6) [of j] by (cases "j = i", simp_all)+
qed (use assms(2,3) spin_invD(1) [OF assms(1)] in simp_all)

definition next_owner :: "nat \<Rightarrow> spin_sys \<Rightarrow> nat option \<Rightarrow> nat option" where
  "next_owner i s ow = (if pcs s i = Exchange \<and> val s = 0 then Some i else if pcs s i = Unlock then None else ow)"

lemma spin_inv_step:
  assumes inv: "spin_inv ow s"
  shows "spin_inv (next_owner i s ow) (spin_step i s)"
proof -
  note d = spin_invD [OF inv]
  have ow: "owns (pcs s i) \<Longrightarrow> ow = Some i" using d(3) [of i] by simp
  have nh: "holder s = Some j \<Longrightarrow> ow = Some j" for j using d(3,4) [of j] by auto
  have hold: "is_holding i s \<longleftrightarrow> pcs s i \<in> {Critical, ClearHolder}"
    using d(4) [of i] by (auto simp: is_holding_def split: option.splits)
  note upd = spin_invI [OF inv, where i = i and v = "val (spin_step i s)" and h = "holder (spin_step i s)" and
    c = "cpus (spin_step i s) i" and p = "pcs (spin_step i s) i"]
  show ?thesis
  proof (cases "pcs s i")
    case Outside
    then show ?thesis using d(1,2) d(3-5) [of i] push_off_ok [OF d(5), of i]
      by (intro upd) (simp_all add: spin_step_def goto_def next_owner_def)
  next
    case CheckHolding
    then show ?thesis using d(1,2) d(3-6) [of i] hold by (intro upd) (simp_all add: spin_step_def goto_def next_owner_def)
  next
    case Exchange
    then show ?thesis using d(1,2) d(3-6) [of i] nh
      by (intro upd) (auto simp: spin_step_def goto_def next_owner_def split: if_splits)
  next
    case SetHolder
    then show ?thesis using d(1,2) d(3-6) [of i] nh ow
      by (intro upd) (auto simp: spin_step_def goto_def next_owner_def)
  next
    case Critical
    then show ?thesis using d(1,2) d(3-6) [of i] hold by (intro upd) (simp_all add: spin_step_def goto_def next_owner_def)
  next
    case ClearHolder
    then show ?thesis using d(1,2) d(3-6) [of i] nh ow
      by (intro upd) (auto simp: spin_step_def goto_def next_owner_def)
  next
    case Unlock
    then show ?thesis using d(1,2) d(3-6) [of i] nh ow
      by (intro upd) (auto simp: spin_step_def goto_def next_owner_def)
  next
    case PopOff
    then obtain c where "pop_off (cpus s i) = Inr c" "cpu_ok c" using pop_off_ok [OF d(5) d(6), of i] by auto
    then show ?thesis using PopOff d(1,2) d(3-6) [of i]
      by (intro upd) (simp_all add: spin_step_def goto_def next_owner_def)
  qed
qed

lemma spin_inv_run: "spin_inv ow s \<Longrightarrow> \<exists>ow'. spin_inv ow' (spin_run is s)"
  unfolding spin_run_def by (induction "is" arbitrary: s ow) (auto dest: spin_inv_step)

section \<open>Progress\<close>

lemma spin_step_others: "k \<noteq> i \<Longrightarrow> pcs (spin_step i s) k = pcs s k"
  by (cases "pcs s i") (simp_all add: spin_step_def goto_def split: sum.split)

fun rank :: "spin_pc \<Rightarrow> nat" where
  "rank SetHolder = 4"
| "rank Critical = 3"
| "rank ClearHolder = 2"
| "rank Unlock = 1"
| "rank _ = 0"

lemma owner_step:
  assumes "spin_inv (Some j) s"
  shows "rank (pcs s j) = 1 \<and> spin_inv None (spin_step j s) \<or>
    rank (pcs s j) = Suc (rank (pcs (spin_step j s) j)) \<and> spin_inv (Some j) (spin_step j s)"
proof -
  note d = spin_invD [OF assms]
  have h: "is_holding j s \<longleftrightarrow> pcs s j \<in> {Critical, ClearHolder}" using d(4) [of j] by (auto simp: is_holding_def split: option.splits)
  have "owns (pcs s j)" using d(3) [of j] by simp
  then show ?thesis using spin_inv_step [OF assms, of j] d(1) h
    by (cases "pcs s j") (simp_all add: next_owner_def spin_step_def goto_def)
qed

lemma owner_leaves:
  "spin_inv (Some j) s \<Longrightarrow> \<exists>n \<le> rank (pcs s j). spin_inv None (spin_run (replicate n j) s) \<and>
     (\<forall>k. k \<noteq> j \<longrightarrow> pcs (spin_run (replicate n j) s) k = pcs s k)"
proof (induction "rank (pcs s j)" arbitrary: s rule: less_induct)
  case less
  from owner_step [OF less.prems] show ?case
  proof
    assume "rank (pcs s j) = 1 \<and> spin_inv None (spin_step j s)"
    then show ?thesis using spin_step_others [of _ j s] by (intro exI [of _ 1]) (simp add: spin_run_def)
  next
    assume r: "rank (pcs s j) = Suc (rank (pcs (spin_step j s) j)) \<and> spin_inv (Some j) (spin_step j s)"
    then obtain n where n: "n \<le> rank (pcs (spin_step j s) j)" "spin_inv None (spin_run (replicate n j) (spin_step j s))"
      "\<forall>k. k \<noteq> j \<longrightarrow> pcs (spin_run (replicate n j) (spin_step j s)) k = pcs (spin_step j s) k"
      using less.hyps [of "spin_step j s"] by auto
    then show ?thesis using r spin_step_others [of _ j s] by (intro exI [of _ "Suc n"]) (simp add: spin_run_def)
  qed
qed

lemma waiter_enters:
  assumes "spin_inv None s" "pcs s i = Exchange"
  shows "pcs (spin_run [i, i] s) i = Critical"
  using spin_invD(1,2) [OF assms(1)] assms(2) by (simp add: spin_run_def spin_step_def goto_def)

lemma spin_run_append: "spin_run (xs @ ys) s = spin_run ys (spin_run xs s)"
  by (simp add: spin_run_def)

lemma rank_le: "rank p \<le> 4"
  by (cases p) simp_all

section \<open>Properties\<close>

text \<open>
  (C5) However the CPUs interleave, at most one of them is in its critical section, it is the
  recorded holder and its interrupts are off; no assertion of \<^verbatim>\<open>acquire\<close>, \<^verbatim>\<open>release\<close>, \<^verbatim>\<open>push_off\<close> or
  \<^verbatim>\<open>pop_off\<close> ever stops the kernel. This is what lets the other theories treat a critical
  section as one step.
\<close>

theorem spinlock_mutual_exclusion:
  assumes "spin_init s0" "s = spin_run is (init_spinlock s0)"
  shows "stopped s = None \<and> (\<forall>i j. pcs s i = Critical \<longrightarrow> pcs s j = Critical \<longrightarrow> i = j) \<and>
    (\<forall>i. pcs s i = Critical \<longrightarrow> holder s = Some i \<and> \<not> sie (cpus s i))"
proof -
  obtain ow where inv: "spin_inv ow s" using spin_inv_run [OF spin_inv_init [OF assms(1)], of "is"] assms(2) by auto
  note d = spin_invD [OF inv]
  have o: "ow = Some i" if "pcs s i = Critical" for i using d(3) [of i] that by simp
  have "i = j" if "pcs s i = Critical" "pcs s j = Critical" for i j using o [OF that(1)] o [OF that(2)] by simp
  moreover have "holder s = Some i \<and> \<not> sie (cpus s i)" if "pcs s i = Critical" for i
    using d(4-6) [of i] that by (simp add: cpu_ok_def)
  ultimately show ?thesis using d(1) by blast
qed

text \<open>
  (C16) A CPU that spins is never locked out for good: from every reachable state the lock can be
  handed to it within six steps, four of the present owner and two of its own.
\<close>

theorem spinlock_progress:
  assumes "spin_init s0" "s = spin_run is (init_spinlock s0)" "pcs s i = Exchange"
  shows "\<exists>js. length js \<le> 6 \<and> pcs (spin_run js s) i = Critical"
proof -
  obtain ow where inv: "spin_inv ow s" using spin_inv_run [OF spin_inv_init [OF assms(1)], of "is"] assms(2) by auto
  show ?thesis
  proof (cases ow)
    case None
    then show ?thesis using waiter_enters [of s i] inv assms(3) by (intro exI [of _ "[i, i]"]) simp
  next
    case (Some j)
    then have "j \<noteq> i" using spin_invD(3) [OF inv, of j] assms(3) by auto
    obtain n where n1: "n \<le> rank (pcs s j)" and n: "spin_inv None (spin_run (replicate n j) s)"
      "\<forall>k. k \<noteq> j \<longrightarrow> pcs (spin_run (replicate n j) s) k = pcs s k"
      using owner_leaves [of j s] inv Some by blast
    have "n \<le> 4" "pcs (spin_run (replicate n j) s) i = Exchange" using n1 rank_le [of "pcs s j"] n(2) \<open>j \<noteq> i\<close> assms(3) by auto
    then show ?thesis using waiter_enters [OF n(1), of i] by (intro exI [of _ "replicate n j @ [i, i]"]) (simp add: spin_run_append)
  qed
qed

definition two_cpus :: spin_sys where
  "two_cpus = \<lparr>val = 0, holder = None, cpus = (\<lambda>_. \<lparr>noff = 0, intena = False, sie = True\<rparr>), pcs = (\<lambda>_. Outside), stopped = None\<rparr>"

lemma two_cpus_init: "spin_init two_cpus"
  by (simp add: spin_init_def two_cpus_def cpu_ok_def)

theorem spinlock_mutual_exclusion_witness:
  "pcs (spin_run [0, 0, 1, 0, 0, 1, 1] (init_spinlock two_cpus)) 0 = Critical \<and>
   \<not> sie (cpus (spin_run [0, 0, 1, 0, 0, 1, 1] (init_spinlock two_cpus)) 0)"
proof -
  have c: "pcs (spin_run [0, 0, 1, 0, 0, 1, 1] (init_spinlock two_cpus)) 0 = Critical"
    by (simp add: spin_run_def spin_step_def goto_def two_cpus_def init_spinlock_def is_holding_def)
  then show ?thesis using spinlock_mutual_exclusion [OF two_cpus_init refl, of "[0, 0, 1, 0, 0, 1, 1]"] by blast
qed

theorem spinlock_progress_witness:
  "\<exists>js. length js \<le> 6 \<and> pcs (spin_run js (spin_run [0, 0, 1, 0, 0, 1, 1] (init_spinlock two_cpus))) 1 = Critical"
  by (rule spinlock_progress [OF two_cpus_init refl])
    (simp add: spin_run_def spin_step_def goto_def two_cpus_def init_spinlock_def is_holding_def)

end
