(* ===== verification/Sleeplock.thy ===== *)
theory Sleeplock
  imports Prelude
begin

text \<open>
  kernel/sleeplock.c: a sleep lock with its circular, doubly linked queue of waiting tasks. Tasks
  are known by their positive pid. What the code does under \<^verbatim>\<open>slk->spinlock\<close> is one step, and a
  task that was switched out in \<^verbatim>\<open>sched()\<close> goes on only once it is runnable.
\<close>

section \<open>The model\<close>

datatype task_state = INITLIZED | USED | RUNNABLE | RUNNING | BLOCKED | SLEEP | ZOMBIE | DEAD

text \<open>A queue node: the sentinel \<^verbatim>\<open>slk->wait_queue\<close> or the \<^verbatim>\<open>sleep_node\<close> of a task.\<close>

datatype wait_node = Sentinel | Node nat

text \<open>Where a task is with respect to the lock: not using it, in the loop of \<^verbatim>\<open>acquire_sleep\<close>, or its owner.\<close>

datatype sleep_pc = Away | Looping | Owner

record sleeplock =
  locked :: u8
  slk_holder :: nat
  nxt :: "wait_node \<Rightarrow> wait_node"
  prv :: "wait_node \<Rightarrow> wait_node"
  task_st :: "nat \<Rightarrow> task_state"
  task_pc :: "nat \<Rightarrow> sleep_pc"

definition init_sleeplock :: "sleeplock \<Rightarrow> sleeplock" where
  "init_sleeplock s = s\<lparr>locked := 0, slk_holder := 0, nxt := (nxt s)(Sentinel := Sentinel), prv := (prv s)(Sentinel := Sentinel)\<rparr>"

definition unlink :: "wait_node \<Rightarrow> sleeplock \<Rightarrow> sleeplock" where
  "unlink p s =
     (let s1 = s\<lparr>nxt := (nxt s)(prv s p := nxt s p)\<rparr> in
      s1\<lparr>prv := (prv s1)(nxt s1 p := prv s1 p)\<rparr>)"

fun set_runnable :: "wait_node \<Rightarrow> sleeplock \<Rightarrow> sleeplock" where
  "set_runnable (Node i) s = s\<lparr>task_st := (task_st s)(i := RUNNABLE)\<rparr>"
| "set_runnable Sentinel s = s"

definition wakeup :: "sleeplock \<Rightarrow> sleeplock" where
  "wakeup s = (if nxt s Sentinel \<noteq> Sentinel then let alive = nxt s Sentinel in set_runnable alive (unlink alive s) else s)"

partial_function (option) wakeup_loop :: "wait_node \<Rightarrow> sleeplock \<Rightarrow> sleeplock option" where
  "wakeup_loop pos s =
     (if pos \<noteq> Sentinel then wakeup_loop (nxt s pos) (set_runnable pos (unlink pos s)) else Some s)"

definition wakeup_all :: "sleeplock \<Rightarrow> sleeplock option" where
  "wakeup_all s = Option.bind (wakeup_loop (nxt s Sentinel) s) (\<lambda>s1.
     Some (s1\<lparr>nxt := (nxt s1)(Sentinel := Sentinel), prv := (prv s1)(Sentinel := Sentinel)\<rparr>))"

definition enqueue :: "nat \<Rightarrow> sleeplock \<Rightarrow> sleeplock" where
  "enqueue i s =
     (let tail = prv s Sentinel in
      s\<lparr>nxt := (nxt s)(tail := Node i, Node i := Sentinel), prv := (prv s)(Node i := tail, Sentinel := Node i)\<rparr>)"

text \<open>One test of \<^verbatim>\<open>while (slk->locked)\<close> by task \<open>i\<close>: it goes to sleep in the queue or takes the lock.\<close>

definition acquire_pass :: "nat \<Rightarrow> sleeplock \<Rightarrow> sleeplock" where
  "acquire_pass i s =
     (if locked s \<noteq> 0 then
        enqueue i (s\<lparr>task_st := (task_st s)(i := SLEEP), task_pc := (task_pc s)(i := Looping)\<rparr>)
      else s\<lparr>locked := 1, slk_holder := i, task_st := (task_st s)(i := RUNNING), task_pc := (task_pc s)(i := Owner)\<rparr>)"

definition acquire_sleep :: "nat \<Rightarrow> sleeplock \<Rightarrow> sleeplock kres" where
  "acquire_sleep i s =
     (if slk_holder s = i then Inl (Panic ''acquire_sleep: Already a Owner!'') else Inr (acquire_pass i s))"

definition release_sleep_proto :: "nat \<Rightarrow> bool \<Rightarrow> sleeplock \<Rightarrow> sleeplock kres option" where
  "release_sleep_proto i is_all s =
     (if slk_holder s \<noteq> i then Some (Inl (Panic ''release_sleep: Not a Owner!''))
      else let s1 = s\<lparr>slk_holder := 0, locked := 0, task_pc := (task_pc s)(i := Away)\<rparr> in
        if is_all then Option.bind (wakeup_all s1) (\<lambda>s2. Some (Inr s2)) else Some (Inr (wakeup s1)))"

definition release_sleep :: "nat \<Rightarrow> sleeplock \<Rightarrow> sleeplock kres option" where
  "release_sleep i s = release_sleep_proto i False s"

definition release_sleep_all :: "nat \<Rightarrow> sleeplock \<Rightarrow> sleeplock kres option" where
  "release_sleep_all i s = release_sleep_proto i True s"

text \<open>
  The steps of the tasks: a call of \<^verbatim>\<open>acquire_sleep\<close>, the return of a woken task from \<^verbatim>\<open>sched()\<close>,
  and the two releases.
\<close>

inductive sleep_step :: "sleeplock \<Rightarrow> sleeplock kres option \<Rightarrow> bool" where
  call: "0 < i \<Longrightarrow> task_pc s i = Away \<Longrightarrow> sleep_step s (Some (acquire_sleep i s))"
| resume: "task_pc s i = Looping \<Longrightarrow> task_st s i = RUNNABLE \<Longrightarrow> sleep_step s (Some (Inr (acquire_pass i s)))"
| leave: "task_pc s i = Owner \<Longrightarrow> sleep_step s (release_sleep i s)"
| leave_all: "task_pc s i = Owner \<Longrightarrow> sleep_step s (release_sleep_all i s)"

inductive sleep_reach :: "sleeplock \<Rightarrow> sleeplock \<Rightarrow> bool" for s0 where
  start: "sleep_reach s0 (init_sleeplock s0)"
| next_step: "sleep_reach s0 s \<Longrightarrow> sleep_step s (Some (Inr s')) \<Longrightarrow> sleep_reach s0 s'"

text \<open>
  The history of a run, newest state first, and for how many states of it a task has been asleep
  without a break.
\<close>

inductive sleep_trace :: "sleeplock \<Rightarrow> sleeplock list \<Rightarrow> bool" for s0 where
  first: "sleep_trace s0 [init_sleeplock s0]"
| extend: "sleep_trace s0 (s # tr) \<Longrightarrow> sleep_step s (Some (Inr s')) \<Longrightarrow> sleep_trace s0 (s' # s # tr)"

definition asleep :: "sleeplock \<Rightarrow> nat \<Rightarrow> bool" where
  "asleep s i \<longleftrightarrow> task_pc s i = Looping \<and> task_st s i = SLEEP"

definition asleep_for :: "sleeplock list \<Rightarrow> nat \<Rightarrow> nat" where
  "asleep_for tr i = length (takeWhile (\<lambda>s. asleep s i) tr)"

section \<open>The queue as a list\<close>

fun path :: "(wait_node \<Rightarrow> wait_node) \<Rightarrow> (wait_node \<Rightarrow> wait_node) \<Rightarrow> wait_node \<Rightarrow> nat list \<Rightarrow> wait_node \<Rightarrow> bool" where
  "path nx pv a [] b \<longleftrightarrow> nx a = b \<and> pv b = a"
| "path nx pv a (x # xs) b \<longleftrightarrow> nx a = Node x \<and> pv (Node x) = a \<and> path nx pv (Node x) xs b"

definition ring :: "sleeplock \<Rightarrow> nat list \<Rightarrow> bool" where
  "ring s q \<longleftrightarrow> path (nxt s) (prv s) Sentinel q Sentinel"

lemma path_cong:
  "path nx pv a q b \<Longrightarrow> (\<And>p. p = a \<or> p \<in> Node ` set q \<Longrightarrow> nx' p = nx p) \<Longrightarrow> (\<And>p. p = b \<or> p \<in> Node ` set q \<Longrightarrow> pv' p = pv p) \<Longrightarrow>
   path nx' pv' a q b"
  by (induction q arbitrary: a) auto

lemma path_append: "path nx pv a (xs @ x # ys) b \<longleftrightarrow> path nx pv a xs (Node x) \<and> path nx pv (Node x) ys b"
  by (induction xs arbitrary: a) auto

fun lastn :: "wait_node \<Rightarrow> nat list \<Rightarrow> wait_node" where
  "lastn a [] = a"
| "lastn a (x # xs) = lastn (Node x) xs"

lemma path_last: "path nx pv a q b \<Longrightarrow> pv b = lastn a q"
  by (induction q arbitrary: a) auto

lemma lastn_in: "lastn a q = a \<and> q = [] \<or> lastn a q \<in> Node ` set q"
  by (induction q arbitrary: a) auto

lemma path_redirect:
  "path nx pv a q b \<Longrightarrow> distinct (a # map Node q) \<Longrightarrow> c \<notin> Node ` set q \<Longrightarrow> path (nx(lastn a q := c)) (pv(c := lastn a q)) a q c"
proof (induction q arbitrary: a)
  case (Cons x xs)
  have "lastn (Node x) xs \<noteq> a" using lastn_in [of "Node x" xs] Cons.prems(2) by auto
  then show ?case using Cons by auto
qed auto

lemma ring_empty: "ring s q \<Longrightarrow> nxt s Sentinel = Sentinel \<longleftrightarrow> q = []"
  by (cases q) (auto simp: ring_def)

lemma ring_enqueue:
  assumes "ring s q" "distinct q" "i \<notin> set q"
  shows "ring (enqueue i s) (q @ [i])"
proof -
  let ?t = "lastn Sentinel q"
  have t: "prv s Sentinel = ?t" using assms(1) path_last by (simp add: ring_def)
  have d: "distinct (Sentinel # map Node q)" using assms(2) by (auto simp: distinct_map inj_on_def)
  have "path ((nxt s)(?t := Node i)) ((prv s)(Node i := ?t)) Sentinel q (Node i)"
    using path_redirect [OF assms(1) [unfolded ring_def] d, of "Node i"] assms(3) by auto
  then have "path (nxt (enqueue i s)) (prv (enqueue i s)) Sentinel q (Node i)"
    by (rule path_cong) (use assms(3) t in \<open>auto simp: enqueue_def Let_def\<close>)
  then show ?thesis by (simp add: ring_def path_append) (simp add: enqueue_def Let_def)
qed

lemma ring_dequeue:
  assumes "ring s (x # xs)" "distinct (x # xs)"
  shows "ring (unlink (Node x) s) xs" "nxt s Sentinel = Node x"
proof -
  have p: "nxt s Sentinel = Node x" "prv s (Node x) = Sentinel" "path (nxt s) (prv s) (Node x) xs Sentinel"
    using assms(1) by (simp_all add: ring_def)
  show "nxt s Sentinel = Node x" by (rule p)
  show "ring (unlink (Node x) s) xs"
  proof (cases xs)
    case Nil
    then show ?thesis using p by (auto simp: ring_def unlink_def Let_def)
  next
    case (Cons y ys)
    then have q: "nxt s (Node x) = Node y" "prv s (Node y) = Node x" "path (nxt s) (prv s) (Node y) ys Sentinel" using p(3) by simp_all
    have "path (nxt (unlink (Node x) s)) (prv (unlink (Node x) s)) (Node y) ys Sentinel"
      by (rule path_cong [OF q(3)]) (use assms(2) Cons p q in \<open>auto simp: unlink_def Let_def\<close>)
    then show ?thesis using Cons p q by (simp add: ring_def) (simp add: unlink_def Let_def)
  qed
qed

lemma set_runnable_links [simp]: "nxt (set_runnable p s) = nxt s" "prv (set_runnable p s) = prv s"
  "locked (set_runnable p s) = locked s" "slk_holder (set_runnable p s) = slk_holder s" "task_pc (set_runnable p s) = task_pc s"
  by (cases p; simp)+

lemma unlink_others [simp]: "locked (unlink p s) = locked s" "slk_holder (unlink p s) = slk_holder s" "task_pc (unlink p s) = task_pc s"
  "task_st (unlink p s) = task_st s"
  by (simp_all add: unlink_def Let_def)

lemma enqueue_others [simp]: "locked (enqueue i s) = locked s" "slk_holder (enqueue i s) = slk_holder s" "task_pc (enqueue i s) = task_pc s"
  "task_st (enqueue i s) = task_st s"
  by (simp_all add: enqueue_def Let_def)

lemma wakeup_loop_ring:
  "ring s q \<Longrightarrow> distinct q \<Longrightarrow> \<exists>s'. wakeup_loop (nxt s Sentinel) s = Some s' \<and> ring s' [] \<and>
     locked s' = locked s \<and> slk_holder s' = slk_holder s \<and> task_pc s' = task_pc s \<and>
     task_st s' = (\<lambda>i. if i \<in> set q then RUNNABLE else task_st s i)"
proof (induction q arbitrary: s)
  case Nil
  then have "nxt s Sentinel = Sentinel" using ring_empty by blast
  then show ?case using Nil by (subst wakeup_loop.simps) simp
next
  case (Cons x xs)
  let ?s = "set_runnable (Node x) (unlink (Node x) s)"
  have h: "nxt s Sentinel = Node x" "prv s (Node x) = Sentinel" using Cons.prems(1) by (simp_all add: ring_def)
  have r: "ring ?s xs" using ring_dequeue(1) [OF Cons.prems] by (simp add: ring_def)
  have n: "nxt ?s Sentinel = nxt s (Node x)" using h by (simp add: unlink_def Let_def)
  obtain s' where s': "wakeup_loop (nxt ?s Sentinel) ?s = Some s'" "ring s' []" "locked s' = locked ?s" "slk_holder s' = slk_holder ?s"
    "task_pc s' = task_pc ?s" "task_st s' = (\<lambda>i. if i \<in> set xs then RUNNABLE else task_st ?s i)"
    using Cons.IH [OF r] Cons.prems(2) by auto
  have "wakeup_loop (nxt s Sentinel) s = wakeup_loop (nxt ?s Sentinel) ?s" unfolding h n by (subst wakeup_loop.simps) simp
  then show ?case using s' by (intro exI [of _ s']) (auto simp: fun_eq_iff)
qed

section \<open>The invariant\<close>

definition sleep_inv :: "nat list \<Rightarrow> sleeplock \<Rightarrow> bool" where
  "sleep_inv q s \<longleftrightarrow> ring s q \<and> distinct q \<and>
     (\<forall>i. i \<in> set q \<longleftrightarrow> task_pc s i = Looping \<and> task_st s i = SLEEP) \<and>
     (\<forall>i. task_pc s i = Looping \<longrightarrow> task_st s i = SLEEP \<or> task_st s i = RUNNABLE) \<and>
     (\<forall>i. task_pc s i = Owner \<longleftrightarrow> locked s \<noteq> 0 \<and> slk_holder s = i) \<and>
     (locked s = 0 \<longleftrightarrow> slk_holder s = 0) \<and> task_pc s 0 = Away \<and>
     (locked s = 0 \<longrightarrow> q \<noteq> [] \<longrightarrow> (\<exists>i. task_pc s i = Looping \<and> task_st s i = RUNNABLE))"

lemma sleep_invD:
  assumes "sleep_inv q s"
  shows "ring s q" "distinct q" "i \<in> set q \<longleftrightarrow> task_pc s i = Looping \<and> task_st s i = SLEEP"
    "task_pc s i = Looping \<Longrightarrow> task_st s i = SLEEP \<or> task_st s i = RUNNABLE"
    "task_pc s i = Owner \<longleftrightarrow> locked s \<noteq> 0 \<and> slk_holder s = i" "locked s = 0 \<longleftrightarrow> slk_holder s = 0" "task_pc s 0 = Away"
    "locked s = 0 \<Longrightarrow> q \<noteq> [] \<Longrightarrow> \<exists>i. task_pc s i = Looping \<and> task_st s i = RUNNABLE"
  using assms unfolding sleep_inv_def by blast+

lemma sleep_inv_init: "(\<And>i. task_pc s i = Away) \<Longrightarrow> sleep_inv [] (init_sleeplock s)"
  by (simp add: sleep_inv_def init_sleeplock_def ring_def)

lemma acquire_pass_inv:
  assumes inv: "sleep_inv q s" and i: "0 < i" "task_pc s i = Away \<or> task_pc s i = Looping \<and> task_st s i = RUNNABLE"
  shows "sleep_inv (if locked s = 0 then q else q @ [i]) (acquire_pass i s)"
proof -
  note d = sleep_invD [OF inv]
  have iq: "i \<notin> set q" using d(3) [of i] i(2) by auto
  have hi: "slk_holder s \<noteq> i" using d(5) [of i] d(6) i by auto
  show ?thesis
  proof (cases "locked s = 0")
    case True
    have "ring (acquire_pass i s) q" using d(1) True by (simp add: ring_def acquire_pass_def)
    then show ?thesis using True d(2-7) iq i by (auto simp: sleep_inv_def acquire_pass_def)
  next
    case False
    let ?s = "s\<lparr>task_st := (task_st s)(i := SLEEP), task_pc := (task_pc s)(i := Looping)\<rparr>"
    have "ring ?s q" using d(1) by (simp add: ring_def)
    then have "ring (enqueue i ?s) (q @ [i])" using ring_enqueue d(2) iq by blast
    then show ?thesis using False d(2-7) iq i hi by (auto simp: sleep_inv_def acquire_pass_def)
  qed
qed

lemma acquire_pass_queue:
  assumes "sleep_inv q s" "0 < i" "task_pc s i = Away \<or> task_pc s i = Looping \<and> task_st s i = RUNNABLE"
  shows "\<exists>q'. sleep_inv q' (acquire_pass i s) \<and> (q' \<in> {q, tl q, []} \<or> (\<exists>i. q' = q @ [i] \<and> i \<notin> set q))"
proof -
  have "i \<notin> set q" using sleep_invD(3) [OF assms(1), of i] assms(3) by auto
  then show ?thesis using acquire_pass_inv [OF assms] by (cases "locked s = 0") auto
qed

lemma release_inv:
  assumes inv: "sleep_inv q s" and o: "task_pc s i = Owner"
  shows "\<exists>s'. release_sleep i s = Some (Inr s') \<and> locked s' = 0 \<and> sleep_inv (tl q) s' \<and> task_st s' = (if q = [] then task_st s else (task_st s)(hd q := RUNNABLE))"
proof -
  note d = sleep_invD [OF inv]
  have h: "slk_holder s = i" "locked s \<noteq> 0" using d(5) [of i] o by simp_all
  let ?s = "s\<lparr>slk_holder := 0, locked := 0, task_pc := (task_pc s)(i := Away)\<rparr>"
  have r: "ring ?s q" using d(1) by (simp add: ring_def)
  have iq: "i \<notin> set q" using d(3) [of i] o by auto
  show ?thesis
  proof (cases q)
    case Nil
    have "wakeup ?s = ?s" using ring_empty [OF r] Nil by (simp add: wakeup_def)
    then have "release_sleep i s = Some (Inr ?s)" using h by (simp add: release_sleep_def release_sleep_proto_def)
    moreover have "sleep_inv [] ?s" using Nil r d(3-5) d(7) h by (auto simp: sleep_inv_def)
    ultimately show ?thesis using Nil by simp
  next
    case (Cons x xs)
    let ?s' = "set_runnable (Node x) (unlink (Node x) ?s)"
    have n: "nxt ?s Sentinel = Node x" "ring (unlink (Node x) ?s) xs" using ring_dequeue [of ?s x xs] r d(2) Cons by auto
    have "wakeup ?s = ?s'" unfolding wakeup_def n(1) Let_def by simp
    then have "release_sleep i s = Some (Inr ?s')" using h by (simp add: release_sleep_def release_sleep_proto_def)
    moreover have "ring ?s' xs" using n(2) by (simp add: ring_def)
    have f: "task_st ?s' = (task_st s)(x := RUNNABLE)" "task_pc ?s' = (task_pc s)(i := Away)" "locked ?s' = 0" "slk_holder ?s' = 0" by simp_all
    have x: "task_pc s x = Looping" "x \<noteq> i" using d(3) [of x] Cons iq by auto
    have "sleep_inv xs ?s'"
      unfolding sleep_inv_def f
    proof (intro conjI allI impI)
      fix j
      show "j \<in> set xs \<longleftrightarrow> ((task_pc s)(i := Away)) j = Looping \<and> ((task_st s)(x := RUNNABLE)) j = SLEEP"
        using d(3) [of j] d(2) Cons iq by auto
      show "((task_st s)(x := RUNNABLE)) j = SLEEP \<or> ((task_st s)(x := RUNNABLE)) j = RUNNABLE" if "((task_pc s)(i := Away)) j = Looping"
        using that d(4) [of j] by (auto split: if_splits)
      show "((task_pc s)(i := Away)) j = Owner \<longleftrightarrow> 0 \<noteq> (0 :: u8) \<and> 0 = j" using d(5) [of j] h by auto
    next
      show "\<exists>j. ((task_pc s)(i := Away)) j = Looping \<and> ((task_st s)(x := RUNNABLE)) j = RUNNABLE" using x by (intro exI [of _ x]) simp
    qed (use \<open>ring ?s' xs\<close> d(2,7) Cons in simp_all)
    ultimately show ?thesis using Cons by simp
  qed
qed

lemma release_all_inv:
  assumes inv: "sleep_inv q s" and o: "task_pc s i = Owner"
  shows "\<exists>s'. release_sleep_all i s = Some (Inr s') \<and> sleep_inv [] s'"
proof -
  note d = sleep_invD [OF inv]
  have h: "slk_holder s = i" "locked s \<noteq> 0" using d(5) [of i] o by simp_all
  let ?s = "s\<lparr>slk_holder := 0, locked := 0, task_pc := (task_pc s)(i := Away)\<rparr>"
  have r: "ring ?s q" using d(1) by (simp add: ring_def)
  obtain s1 where s1: "wakeup_loop (nxt ?s Sentinel) ?s = Some s1" "ring s1 []" "locked s1 = 0" "slk_holder s1 = 0"
    "task_pc s1 = (task_pc s)(i := Away)" "task_st s1 = (\<lambda>j. if j \<in> set q then RUNNABLE else task_st ?s j)"
    using wakeup_loop_ring [OF r d(2)] by auto
  let ?s' = "s1\<lparr>nxt := (nxt s1)(Sentinel := Sentinel), prv := (prv s1)(Sentinel := Sentinel)\<rparr>"
  have "release_sleep_all i s = Some (Inr ?s')" using s1(1) h by (simp add: release_sleep_all_def release_sleep_proto_def wakeup_all_def)
  moreover have "sleep_inv [] ?s'" using s1(3-6) d(3-5) d(7) h by (auto simp: sleep_inv_def ring_def)
  ultimately show ?thesis by blast
qed

text \<open>A step leaves the queue alone, adds a task at its end that was not asleep, or removes its head or all of it.\<close>

lemma sleep_step_queue:
  assumes "sleep_inv q s" "sleep_step s r"
  shows "\<exists>s' q'. r = Some (Inr s') \<and> sleep_inv q' s' \<and> (q' \<in> {q, tl q, []} \<or> (\<exists>i. q' = q @ [i] \<and> i \<notin> set q))"
  using assms(2)
proof cases
  case (call i)
  have "slk_holder s \<noteq> i" using sleep_invD(5) [OF assms(1), of i] sleep_invD(6) [OF assms(1)] call by auto
  then show ?thesis using acquire_pass_queue [OF assms(1), of i] call by (auto simp: acquire_sleep_def)
next
  case (resume i)
  have "0 < i" using sleep_invD(7) [OF assms(1)] resume by (cases i) auto
  then show ?thesis using acquire_pass_queue [OF assms(1), of i] resume by auto
next
  case (leave i)
  then show ?thesis using release_inv [OF assms(1), of i] by blast
next
  case (leave_all i)
  then show ?thesis using release_all_inv [OF assms(1), of i] by blast
qed

lemma sleep_step_inv: "sleep_inv q s \<Longrightarrow> sleep_step s r \<Longrightarrow> \<exists>s' q'. r = Some (Inr s') \<and> sleep_inv q' s'"
  using sleep_step_queue by blast

text \<open>The queue is ordered by the time its tasks have been asleep, the longest sleeper first.\<close>

lemma asleep_for_Cons: "asleep_for (s # tr) i = (if asleep s i then Suc (asleep_for tr i) else 0)"
  by (simp add: asleep_for_def)

lemma sleep_trace_inv:
  assumes "sleep_trace s0 tr" "\<forall>i. task_pc s0 i = Away"
  shows "\<exists>q. sleep_inv q (hd tr) \<and> sorted_wrt (\<lambda>i j. asleep_for tr j < asleep_for tr i) q"
  using assms(1)
proof (induction rule: sleep_trace.induct)
  case first
  then show ?case using sleep_inv_init [of s0] assms(2) by (intro exI [of _ "[]"]) simp
next
  case (extend s tr s')
  let ?R = "\<lambda>i j. asleep_for (s # tr) j < asleep_for (s # tr) i"
  obtain q where q: "sleep_inv q s" "sorted_wrt ?R q" using extend.IH by auto
  obtain q' where q': "sleep_inv q' s'" "q' \<in> {q, tl q, []} \<or> (\<exists>i. q' = q @ [i] \<and> i \<notin> set q)"
    using sleep_step_queue [OF q(1) extend.hyps(2)] by auto
  have a: "asleep s i \<longleftrightarrow> i \<in> set q" "asleep s' i \<longleftrightarrow> i \<in> set q'" for i
    using sleep_invD(3) [OF q(1), of i] sleep_invD(3) [OF q'(1), of i] by (simp_all add: asleep_def)
  have t: "sorted_wrt ?R (tl q)" using q(2) by (cases q) simp_all
  have e: "sorted_wrt ?R (q @ [i])" if "i \<notin> set q" for i
    using q(2) that a(1) by (simp add: sorted_wrt_append asleep_for_Cons)
  have "sorted_wrt ?R q'" using q'(2) q(2) t e by auto
  then have "sorted_wrt (\<lambda>i j. asleep_for (s' # s # tr) j < asleep_for (s' # s # tr) i) q'"
    by (rule sorted_wrt_mono_rel [rotated]) (simp add: asleep_for_Cons [of s'] a(2))
  then show ?case using q'(1) by auto
qed

text \<open>The states of the histories are the reachable ones.\<close>

lemma sleep_reach_trace: "sleep_reach s0 s \<Longrightarrow> \<exists>tr. sleep_trace s0 (s # tr)"
  by (induction rule: sleep_reach.induct) (blast intro: sleep_trace.intros)+

lemma sleep_trace_reach: "sleep_trace s0 tr \<Longrightarrow> sleep_reach s0 (hd tr)"
  by (induction rule: sleep_trace.induct) (auto intro: sleep_reach.intros)

lemma sleep_reach_inv: "sleep_reach s0 s \<Longrightarrow> (\<And>i. task_pc s0 i = Away) \<Longrightarrow> \<exists>q. sleep_inv q s"
  using sleep_trace_inv sleep_reach_trace by fastforce

section \<open>Properties\<close>

text \<open>
  (C15) Starting from a fresh lock that no task uses, in every interleaving of calls, wake-ups and
  releases at most one task owns the lock, and every step that a task can make returns: the
  ownership assertions never fail and waking all sleepers ends.
\<close>

theorem sleeplock_safe:
  assumes "sleep_reach s0 s" "\<forall>i. task_pc s0 i = Away"
  shows "(\<forall>i j. task_pc s i = Owner \<longrightarrow> task_pc s j = Owner \<longrightarrow> i = j) \<and> (\<forall>r. sleep_step s r \<longrightarrow> (\<exists>s'. r = Some (Inr s')))"
proof -
  obtain q where inv: "sleep_inv q s" using sleep_reach_inv [OF assms(1)] assms(2) by auto
  have "i = j" if "task_pc s i = Owner" "task_pc s j = Owner" for i j
    using sleep_invD(5) [OF inv, of i] sleep_invD(5) [OF inv, of j] that by auto
  then show ?thesis using sleep_step_inv [OF inv] by blast
qed

text \<open>
  (C6) In every run from a fresh lock no wake-up is lost: whenever the lock is free and a task is
  asleep on it, some waiting task can resume at once and then owns the lock. A release frees the
  lock and makes runnable exactly the task that has been asleep longest, and no task when none is asleep.
\<close>

theorem sleeplock_no_lost_wakeup:
  assumes "sleep_trace s0 (s # tr)" "\<forall>i. task_pc s0 i = Away"
  shows "(locked s = 0 \<longrightarrow> (\<exists>i. asleep s i) \<longrightarrow>
      (\<exists>i s'. task_pc s i = Looping \<and> sleep_step s (Some (Inr s')) \<and> task_pc s' i = Owner)) \<and>
    (\<forall>i. task_pc s i = Owner \<longrightarrow> (\<exists>s'. release_sleep i s = Some (Inr s') \<and> locked s' = 0 \<and>
      (if \<exists>j. asleep s j
       then \<exists>x. asleep s x \<and> (\<forall>j. asleep s j \<longrightarrow> j \<noteq> x \<longrightarrow> asleep_for (s # tr) j < asleep_for (s # tr) x) \<and>
         task_st s' = (task_st s)(x := RUNNABLE)
       else task_st s' = task_st s)))"
proof -
  obtain q where q: "sleep_inv q s" "sorted_wrt (\<lambda>i j. asleep_for (s # tr) j < asleep_for (s # tr) i) q"
    using sleep_trace_inv [OF assms] by auto
  note d = sleep_invD [OF q(1)]
  have a: "asleep s j \<longleftrightarrow> j \<in> set q" for j using d(3) [of j] by (simp add: asleep_def)
  have "\<exists>i s'. task_pc s i = Looping \<and> sleep_step s (Some (Inr s')) \<and> task_pc s' i = Owner"
    if free: "locked s = 0" and sl: "\<exists>i. asleep s i"
  proof -
    have "q \<noteq> []" using sl a by auto
    then obtain i where i: "task_pc s i = Looping" "task_st s i = RUNNABLE" using d(8) free by blast
    have "task_pc (acquire_pass i s) i = Owner" using free by (simp add: acquire_pass_def)
    then show ?thesis using resume [OF i] i(1) by blast
  qed
  moreover have "\<exists>s'. release_sleep i s = Some (Inr s') \<and> locked s' = 0 \<and>
      (if \<exists>j. asleep s j
       then \<exists>x. asleep s x \<and> (\<forall>j. asleep s j \<longrightarrow> j \<noteq> x \<longrightarrow> asleep_for (s # tr) j < asleep_for (s # tr) x) \<and>
         task_st s' = (task_st s)(x := RUNNABLE)
       else task_st s' = task_st s)" if "task_pc s i = Owner" for i
    using release_inv [OF q(1) that] q(2) by (cases q) (auto simp: a)
  ultimately show ?thesis by blast
qed

definition fresh_lock :: sleeplock where
  "fresh_lock = \<lparr>locked = 1, slk_holder = 9, nxt = (\<lambda>_. Sentinel), prv = (\<lambda>_. Sentinel), task_st = (\<lambda>_. RUNNING), task_pc = (\<lambda>_. Away)\<rparr>"

definition contended :: sleeplock where "contended = acquire_pass 2 (acquire_pass 1 (init_sleeplock fresh_lock))"

lemma contended_reach: "sleep_reach fresh_lock contended"
proof -
  let ?s = "init_sleeplock fresh_lock"
  have "sleep_step ?s (Some (Inr (acquire_pass 1 ?s)))"
    using call [of 1 ?s] by (simp add: acquire_sleep_def init_sleeplock_def fresh_lock_def)
  then have r1: "sleep_reach fresh_lock (acquire_pass 1 ?s)" by (rule next_step [OF start])
  have "sleep_step (acquire_pass 1 ?s) (Some (Inr contended))"
    using call [of 2 "acquire_pass 1 ?s"] by (simp add: contended_def acquire_sleep_def acquire_pass_def init_sleeplock_def fresh_lock_def)
  then show ?thesis by (rule next_step [OF r1])
qed

theorem sleeplock_safe_witness:
  "task_pc contended 1 = Owner \<and> task_pc contended 2 \<noteq> Owner"
proof -
  have "task_pc contended 1 = Owner"
    by (simp add: contended_def acquire_pass_def init_sleeplock_def fresh_lock_def)
  moreover have "\<forall>i. task_pc fresh_lock i = Away" by (simp add: fresh_lock_def)
  ultimately show ?thesis using sleeplock_safe [OF contended_reach] by (metis numeral_eq_one_iff semiring_norm(85))
qed

text \<open>Task 1 owns the lock, and 2 and then 3 went to sleep on it.\<close>

lemma crowded_trace:
  "sleep_trace fresh_lock [acquire_pass 3 contended, contended, acquire_pass 1 (init_sleeplock fresh_lock), init_sleeplock fresh_lock]"
proof -
  let ?s = "init_sleeplock fresh_lock"
  have "sleep_step ?s (Some (Inr (acquire_pass 1 ?s)))"
    using call [of 1 ?s] by (simp add: acquire_sleep_def init_sleeplock_def fresh_lock_def)
  then have t1: "sleep_trace fresh_lock [acquire_pass 1 ?s, ?s]" by (rule extend [OF first])
  have "sleep_step (acquire_pass 1 ?s) (Some (Inr contended))"
    using call [of 2 "acquire_pass 1 ?s"] by (simp add: contended_def acquire_sleep_def acquire_pass_def init_sleeplock_def fresh_lock_def)
  then have t2: "sleep_trace fresh_lock [contended, acquire_pass 1 ?s, ?s]" by (rule extend [OF t1])
  have "sleep_step contended (Some (Inr (acquire_pass 3 contended)))"
    using call [of 3 contended] by (simp add: contended_def acquire_sleep_def acquire_pass_def init_sleeplock_def fresh_lock_def)
  then show ?thesis by (rule extend [OF t2])
qed

theorem sleeplock_no_lost_wakeup_witness:
  "\<exists>s'. release_sleep 1 (acquire_pass 3 contended) = Some (Inr s') \<and> task_st s' 2 = RUNNABLE \<and> task_st s' 3 = SLEEP"
proof -
  let ?s = "acquire_pass 3 contended"
  have o: "task_pc ?s 1 = Owner" by (simp add: contended_def acquire_pass_def init_sleeplock_def fresh_lock_def)
  have a: "asleep ?s j \<longleftrightarrow> j = 2 \<or> j = 3" "asleep contended j \<longleftrightarrow> j = 2" for j
    by (auto simp: asleep_def contended_def acquire_pass_def init_sleeplock_def fresh_lock_def)
  have st: "task_st ?s 3 = SLEEP" by (simp add: contended_def acquire_pass_def init_sleeplock_def fresh_lock_def)
  have f: "\<forall>i. task_pc fresh_lock i = Away" by (simp add: fresh_lock_def)
  let ?tr = "[contended, acquire_pass 1 (init_sleeplock fresh_lock), init_sleeplock fresh_lock]"
  have older: "asleep_for (?s # ?tr) 3 < asleep_for (?s # ?tr) 2" by (simp add: asleep_for_Cons [of ?s] asleep_for_Cons [of contended] a)
  have ex: "\<exists>j. asleep ?s j" using a(1) by blast
  obtain s' x where s': "release_sleep 1 ?s = Some (Inr s')" "asleep ?s x"
    "\<forall>j. asleep ?s j \<longrightarrow> j \<noteq> x \<longrightarrow> asleep_for (?s # ?tr) j < asleep_for (?s # ?tr) x" "task_st s' = (task_st ?s)(x := RUNNABLE)"
    using sleeplock_no_lost_wakeup [OF crowded_trace f] o unfolding if_P [OF ex] by blast
  have "x = 2"
  proof (rule ccontr)
    assume "x \<noteq> 2"
    then have "x = 3" using s'(2) a(1) by simp
    then show False using s'(3) a(1) [of 2] older by fastforce
  qed
  then show ?thesis using s'(1,4) st by simp
qed

end
