(* ===== verification/Spec2Isabelle.thy ===== *)
theory Spec2Isabelle
  imports MemoryBoot SlabInit VmSpec Dma HashmapRefine StdioSpec Spinlock Sleeplock
begin

text \<open>
  Verification of the loeux-riscv kernel: memory management, locks, kernel messages and the
  standard I/O of its user library, translated from the C sources under \<^verbatim>\<open>src/\<close>.

  \<^bold>\<open>Parts and how they interact.\<close> At boot the kernel walks the device tree (kernel/fdt.c) to find
  the memory banks, lays out the physical pages (mm/memory.c) and sets up the slab allocator
  (mm/slab.c) on top of the page allocator. Virtual memory (mm/vm.c) takes its page tables and
  user frames from the page allocator; DMA buffers (mm/dma.c) are cut from a window it maps. Hash
  tables (utils/hashmap.c) take their nodes and bucket arrays from the slab allocator. All
  of them use the memory and string routines of include/lib.h, are protected by spin locks
  (kernel/spinlock.c) and report through printk (kernel/printk.c). Sleep locks
  (kernel/sleeplock.c) serialise longer operations of tasks. User programs print and scan with
  user/stdio.c.

  \<^bold>\<open>Theories.\<close>
  \<^item> \<open>Prelude\<close>: machine words, byte memory with 64-bit loads and stores, page arithmetic, linked
    chains, and the result type \<open>kres\<close>: \<open>Inl (Panic msg)\<close> where the code panics, \<open>Inl Fault\<close> where
    it dereferences null or leaves its buffer.
  \<^item> \<open>Lib\<close>, \<open>Cstring\<close>: include/lib.h. The word-wise loops of memmove, memset and memcpy equal a
    simultaneous copy or fill for every alignment and overlap (memcpy up to the length at which its
    loop test wraps); the string routines are related
    to the list of bytes before the terminator.
  \<^item> \<open>Fdt\<close>: kernel/fdt.c over the blob in memory. On a well-formed blob the walk visits the nodes in
    preorder, skipping ends behind the subtree, and property lookup finds the first match.
  \<^item> \<open>Memory\<close>, \<open>MemoryDetect\<close>, \<open>MemoryBoot\<close>, \<open>Pages\<close>: mm/memory.c. \<open>mstate\<close> holds the byte memory, the
    page descriptors, the global descriptor and the two locks. \<open>MemoryDetect\<close> runs the device tree walk
    with detect_memory_info and shows that it records the banks that the tree describes.
    \<open>mem_inv\<close> ties the free list to the reference counts; init_memory establishes it, alloc_page and free_page keep it, and free_page panics on every
    address that is not an allocated page. The locale \<open>page_allocator\<close> is the contract of kalloc
    and kfree; no page is handed out twice.
  \<^item> \<open>Slab\<close>, \<open>SlabInv\<close>, \<open>SlabOps\<close>, \<open>SlabApi\<close>, \<open>SlabInit\<close>: mm/slab.c over the byte memory of the pages.
    init_slab needs 13 free pages and establishes the invariant with them.
    The locale \<open>object_allocator\<close>, interpreted on slab_alloc and slab_free, gives that held objects
    behave as private arrays over any sequence of requests, releases and stores.
  \<^item> \<open>Vm\<close>, \<open>VmInv\<close>, \<open>VmOps\<close>, \<open>VmCopy\<close>, \<open>VmSpec\<close>: mm/vm.c. \<open>pt_inv\<close> says that the tables form a
    three-level tree of live pages; \<open>maps\<close> is the translation they encode. The locale \<open>page_mapper\<close>,
    interpreted on mappages and pg_unmap, gives the refinement to a finite map. Page faults,
    the three ways of translating, and the copies to and from user space are proved against
    \<open>maps\<close>.
  \<^item> \<open>Dma\<close>: mm/dma.c; buffers lie in the window and are disjoint.
  \<^item> \<open>Hashmap\<close>, \<open>HashmapShape\<close>, \<open>HashmapSpec\<close>, \<open>HashmapRefine\<close>: utils/hashmap.c on top of the slab
    allocator. \<open>table_ok\<close> says that bucket \<open>i\<close> chains exactly the nodes whose hash is \<open>i\<close> modulo the
    size and that the nodes hold the entries of a map. The locale \<open>key_functions\<close>, interpreted on
    the default hash and comparison, gives the refinement to a finite map through all resizes;
    destruction leaves exactly the objects of the clients live.
  \<^item> \<open>Spinlock\<close>: kernel/spinlock.c with the CPUs interleaving at every shared access: mutual
    exclusion with interrupts off, and progress of a spinning CPU. \<open>Sleeplock\<close>: kernel/sleeplock.c
    with the wait queue as a ring of links: single ownership, no lost wake-up, and over the history
    of a run a release wakes the task that has been asleep longest.
  \<^item> \<open>Printk\<close>, \<open>PrintkSpec\<close>: kernel/printk.c. Numbers are laid out as a reference definition says,
    messages are the concatenation of their pieces, and both output channels get the text.
  \<^item> \<open>Stdio\<close>, \<open>StdioSpec\<close>: user/stdio.c. printf stays within its buffer and scanf reads back what
    printf wrote.

  \<^bold>\<open>Conventions.\<close> Pointers and \<^verbatim>\<open>uint64_t\<close> are 64-bit words whose arithmetic wraps. In the slab and
  page theories structures live in byte memory or in the page array. The formatters use unbounded
  integers for C's \<^verbatim>\<open>int\<close>, whose overflow is undefined, and strings for character buffers. Negating the
  smallest value of a signed type, undefined in C as well, wraps in the model, as it does on the
  machine: printk's number for the smallest \<^verbatim>\<open>long\<close> and scanf for the smallest \<^verbatim>\<open>int\<close>. Loops
  whose end depends on memory (a terminator, a list, a wrapping address) are partial functions
  with the value \<open>None\<close> when they do not return; the properties prove that they return. The other
  loops are recursive functions with a termination proof, so no fuel is used anywhere. A critical
  section under a spin lock is one step of the model, which the mutual exclusion property
  justifies; \<open>Spinlock\<close> alone is modelled below that level. The hash table computes the bucket index
  before it takes its lock, and that computation is part of the step: a resize by another CPU in
  between is not covered. Its structures are typed stores indexed by address, so that a node or
  cell changes only by the assignments of utils/hashmap.c itself. free_page clears the page within its step, although the code does so after it
  has released the lock. Linker symbols, the addresses of string literals and the read system call are parameters.

  \<^bold>\<open>Not modelled.\<close> Code whose effect is that of hardware or firmware (boot, traps, context switch,
  the virtio, UART and graphics drivers), the file systems and system calls that sit on them,
  user programs including the C compiler, glyph tables and tests. printk calls inside the other
  components are left out, since their only effect is output.
\<close>

end
